(* ===== verification/Prelude.thy ===== *)
theory Prelude
  imports Main "HOL-Library.Word"
begin

text \<open>
  What every theory of the development shares: the machine word types of the C code, the
  little-endian byte order used by the bus and by the on-disk formats, and generic lemmas on
  words, lists and function update. \<open>machine_simps\<close> collects rewriting facts that unfold
  small C helpers; \<open>bounds\<close> collects facts that an index stays inside its array.
\<close>

unbundle bit_operations_syntax

named_theorems machine_simps \<open>unfolding of small C helpers\<close>
named_theorems bounds \<open>an index stays inside its array\<close>

type_synonym u8 = "8 word"
type_synonym u16 = "16 word"
type_synonym u32 = "32 word"
type_synonym u64 = "64 word"

subsection \<open>Bit fields\<close>

text \<open>\<open>(w >> n) & mask\<close>, read as an unsigned number, as the decoders do.\<close>

definition fld :: "'a::len word \<Rightarrow> nat \<Rightarrow> 'a word \<Rightarrow> nat" where
  "fld w n k = unat (drop_bit n w AND k)"

lemma word_and_le_right: "(w :: 'a::len word) AND m \<le> m"
  by (rule word_and_le1)

lemma unat_and_le_right: "unat ((w :: 'a::len word) AND m) \<le> unat m"
  using word_and_le_right by (simp add: word_le_nat_alt)

lemma fld_le: "fld w n k \<le> unat k"
  unfolding fld_def by (rule unat_and_le_right)

lemma fld_15 [bounds]: "fld (w :: u32) n 15 < 16"
  using fld_le [of w n 15] by simp

lemma fld_3 [bounds]: "fld (w :: u32) n 3 < 4"
  using fld_le [of w n 3] by simp

lemma fld_7 [bounds]: "fld (w :: u32) n 7 < 8"
  using fld_le [of w n 7] by simp

declare bit_numeral_word_iff [simp del] bit_neg_numeral_word_iff [simp del]

text \<open>The bits of the mask constants of the C code, and of their complements as the simplifier
  writes them.\<close>

lemma bit_exp_eq: "w = 2 ^ k \<Longrightarrow> k < LENGTH('a) \<Longrightarrow> bit (w :: 'a::len word) i \<longleftrightarrow> i = k"
  by (auto simp: bit_simps)

lemma bit_low_eq: "w = 2 ^ k - 1 \<Longrightarrow> k < LENGTH('a) \<Longrightarrow> bit (w :: 'a::len word) i \<longleftrightarrow> i < k"
  using bit_mask_iff [where 'a = "'a word", of k i] by (auto simp: mask_eq_exp_minus_1)

lemma bit_not_exp_eq:
  "w = NOT (2 ^ k) \<Longrightarrow> bit (w :: 'a::len word) i \<longleftrightarrow> i \<noteq> k \<and> i < LENGTH('a)"
  by (auto simp: bit_simps)

lemma bit_not_low_eq:
  "w = NOT (2 ^ k - 1) \<Longrightarrow> k < LENGTH('a) \<Longrightarrow> bit (w :: 'a::len word) i \<longleftrightarrow> k \<le> i \<and> i < LENGTH('a)"
  using bit_low_eq [of "NOT w" k i] by (auto simp: bit_not_iff dest: bit_imp_le_length)

lemmas bit_masks =
  bit_exp_eq [of "0x2 :: u32" 1, simplified]
  bit_exp_eq [of "0x20 :: u32" 5, simplified]
  bit_exp_eq [of "0x40 :: u32" 6, simplified]
  bit_exp_eq [of "0x80 :: u32" 7, simplified]
  bit_exp_eq [of "0x100 :: u32" 8, simplified]
  bit_exp_eq [of "0x200 :: u32" 9, simplified]
  bit_exp_eq [of "0x400 :: u32" 10, simplified]
  bit_exp_eq [of "0x1000 :: u32" 12, simplified]
  bit_exp_eq [of "0x100000 :: u32" 20, simplified]
  bit_exp_eq [of "0x400000 :: u32" 22, simplified]
  bit_exp_eq [of "0x800000 :: u32" 23, simplified]
  bit_exp_eq [of "0x2000000 :: u32" 25, simplified]
  bit_exp_eq [of "0x8000000 :: u32" 27, simplified]
  bit_exp_eq [of "0x10000000 :: u32" 28, simplified]
  bit_exp_eq [of "0x20000000 :: u32" 29, simplified]
  bit_exp_eq [of "0x40000000 :: u32" 30, simplified]
  bit_exp_eq [of "0x80000000 :: u32" 31, simplified]
  bit_low_eq [of "0x3 :: u32" 2, simplified]
  bit_low_eq [of "0x7 :: u32" 3, simplified]
  bit_low_eq [of "0xf :: u32" 4, simplified]
  bit_low_eq [of "0x1f :: u32" 5, simplified]
  bit_low_eq [of "0xff :: u32" 8, simplified]
  bit_low_eq [of "0x3ff :: u32" 10, simplified]
  bit_low_eq [of "0xfff :: u32" 12, simplified]
  bit_low_eq [of "0x3fff :: u32" 14, simplified]
  bit_low_eq [of "0xfffff :: u32" 20, simplified]
  bit_low_eq [of "0xffff :: u32" 16, simplified]
  bit_low_eq [of "0xffffff :: u32" 24, simplified]

lemmas bit_neg_masks =
  bit_not_exp_eq [of "- 0x3 :: u32" 1, simplified]
  bit_not_exp_eq [of "- 0x21 :: u32" 5, simplified]
  bit_not_exp_eq [of "- 0x41 :: u32" 6, simplified]
  bit_not_exp_eq [of "- 0x81 :: u32" 7, simplified]
  bit_not_exp_eq [of "- 0x101 :: u32" 8, simplified]
  bit_not_exp_eq [of "- 0x201 :: u32" 9, simplified]
  bit_not_exp_eq [of "- 0x401 :: u32" 10, simplified]
  bit_not_exp_eq [of "- 0x1001 :: u32" 12, simplified]
  bit_not_exp_eq [of "- 0x100001 :: u32" 20, simplified]
  bit_not_exp_eq [of "- 0x400001 :: u32" 22, simplified]
  bit_not_exp_eq [of "- 0x800001 :: u32" 23, simplified]
  bit_not_exp_eq [of "- 0x2000001 :: u32" 25, simplified]
  bit_not_exp_eq [of "- 0x8000001 :: u32" 27, simplified]
  bit_not_exp_eq [of "- 0x10000001 :: u32" 28, simplified]
  bit_not_exp_eq [of "- 0x20000001 :: u32" 29, simplified]
  bit_not_exp_eq [of "- 0x40000001 :: u32" 30, simplified]
  bit_not_exp_eq [of "- 0x80000001 :: u32" 31, simplified]
  bit_not_low_eq [of "- 0x4 :: u32" 2, simplified]
  bit_not_low_eq [of "- 0x8 :: u32" 3, simplified]
  bit_not_low_eq [of "- 0x10 :: u32" 4, simplified]
  bit_not_low_eq [of "- 0x20 :: u32" 5, simplified]
  bit_not_low_eq [of "- 0x100 :: u32" 8, simplified]
  bit_not_low_eq [of "- 0x400 :: u32" 10, simplified]
  bit_not_low_eq [of "- 0x1000 :: u32" 12, simplified]
  bit_not_low_eq [of "- 0x4000 :: u32" 14, simplified]
  bit_not_low_eq [of "- 0x100000 :: u32" 20, simplified]

lemmas bit_high_masks =
  bit_not_low_eq [of "0xffffff00 :: u32" 8, simplified]
  bit_not_low_eq [of "0xfffffc00 :: u32" 10, simplified]
  bit_not_low_eq [of "0xfffff000 :: u32" 12, simplified]
  bit_not_low_eq [of "0xffffc000 :: u32" 14, simplified]
  bit_not_low_eq [of "0xffff0000 :: u32" 16, simplified]
  bit_not_low_eq [of "0xfff00000 :: u32" 20, simplified]
  bit_not_low_eq [of "0xff000000 :: u32" 24, simplified]

lemma drop_bit_ge_cong: "drop_bit n v = drop_bit n w \<Longrightarrow> n \<le> k \<Longrightarrow> drop_bit k v = drop_bit k (w :: 'a::len word)"
  by (metis drop_bit_drop_bit le_add_diff_inverse2)

lemma bit_drop_cong: "drop_bit n v = drop_bit n w \<Longrightarrow> n \<le> i \<Longrightarrow> bit v i = bit (w :: 'a::len word) i"
  by (metis bit_drop_bit_eq comp_apply le_add_diff_inverse)

lemma unat_of_nat_len: "x < 2 ^ LENGTH('a) \<Longrightarrow> unat (of_nat x :: 'a::len word) = x"
  by (simp add: unat_of_nat)

lemma ucast_of_nat_u32: "x < 2 ^ 32 \<Longrightarrow> ucast (of_nat x :: u32) = (of_nat x :: u64)"
  by (simp add: unsigned_of_nat take_bit_nat_eq_self)

lemma unat_ucast_u64: "unat (ucast (v :: u32) :: u64) = unat v"
  using unsigned_less [where 'a = nat, of v] by (simp add: unsigned_ucast_eq take_bit_nat_eq_self)

lemma unat_block: "unat (pa AND NOT k :: u32) + unat (pa AND k) = unat pa"
proof -
  have "(pa AND NOT k) + (pa AND k) = pa"
    by (subst disjunctive_add_eq_or) (auto simp: bit_eq_iff bit_simps)
  then have "pa AND NOT k = pa - (pa AND k)" by (metis add_diff_cancel_right')
  moreover have "pa AND k \<le> pa" by (rule word_and_le2)
  ultimately have "unat (pa AND NOT k) = unat pa - unat (pa AND k)" by (simp add: unat_sub)
  then show ?thesis using \<open>pa AND k \<le> pa\<close> by (simp add: word_le_nat_alt)
qed

subsection \<open>Little-endian byte order\<close>

fun le_put :: "nat \<Rightarrow> 'a::len word \<Rightarrow> u8 list" where
  "le_put 0 v = []"
| "le_put (Suc n) v = ucast v # le_put n (drop_bit 8 v)"

fun le_get :: "u8 list \<Rightarrow> 'a::len word" where
  "le_get [] = 0"
| "le_get (b # bs) = ucast b OR push_bit 8 (le_get bs)"

lemma length_le_put [simp]: "length (le_put n v) = n"
  by (induction n arbitrary: v) auto

lemma bit_le_get: "bit (le_get bs :: 'a::len word) i \<longleftrightarrow>
    i < LENGTH('a) \<and> i div 8 < length bs \<and> bit (bs ! (i div 8)) (i mod 8)"
proof (induction bs arbitrary: i)
  case Nil
  then show ?case by simp
next
  case (Cons b bs)
  show ?case
  proof (cases "i < 8")
    case True
    then show ?thesis by (auto simp: bit_simps)
  next
    case False
    then obtain k where k: "i = k + 8"
      by (metis add.commute le_Suc_ex not_less)
    show ?thesis
      using Cons.IH [of k] div_add_self2 [of 8 k]
      by (auto simp: k bit_simps dest: bit_imp_le_length)
  qed
qed

lemma nth_le_put: "k < n \<Longrightarrow> le_put n v ! k = ucast (drop_bit (8 * k) v)"
proof (induction n arbitrary: v k)
  case 0
  then show ?case by simp
next
  case (Suc n)
  then show ?case
    by (cases k) (auto simp: drop_bit_drop_bit add.commute)
qed

lemma le_get_put: "le_get (le_put n v) = take_bit (8 * n) (v :: 'a::len word)"
proof (rule bit_word_eqI)
  fix i assume i: "i < LENGTH('a)"
  have "i div 8 < n \<longleftrightarrow> i < 8 * n"
    by (simp add: less_mult_imp_div_less div_less_iff_less_mult mult.commute)
  moreover have "8 * (i div 8) + i mod 8 = i" by simp
  ultimately show "bit (le_get (le_put n v) :: 'a word) i \<longleftrightarrow> bit (take_bit (8 * n) v) i"
    using i by (auto simp: bit_le_get nth_le_put bit_simps)
qed

lemma le_get_put_full [simp]:
  "LENGTH('a) \<le> 8 * n \<Longrightarrow> le_get (le_put n v) = (v :: 'a::len word)"
  by (simp add: le_get_put take_bit_word_eq_self)

lemma le_put_get: "8 * length bs \<le> LENGTH('a) \<Longrightarrow> le_put (length bs) (le_get bs :: 'a::len word) = bs"
proof (rule nth_equalityI)
  fix k
  assume len: "8 * length bs \<le> LENGTH('a)"
    and "k < length (le_put (length bs) (le_get bs :: 'a word))"
  then have k: "k < length bs" by simp
  show "le_put (length bs) (le_get bs :: 'a word) ! k = bs ! k"
  proof (rule bit_word_eqI)
    fix i assume i: "i < LENGTH(8)"
    have "8 * k + i < LENGTH('a)" using len k i by simp
    then show "bit (le_put (length bs) (le_get bs :: 'a word) ! k) i \<longleftrightarrow> bit (bs ! k) i"
      using k i by (auto simp: nth_le_put bit_simps bit_le_get)
  qed
qed simp

text \<open>A little-endian word read byte by byte at the place it was put, and reads that agree below a length.\<close>

lemma le32_at:
  fixes w :: u32
  assumes "drop i b = le_put 4 w @ r"
  shows "ucast (b ! i) OR push_bit 8 (ucast (b ! (i + 1))) OR push_bit 16 (ucast (b ! (i + 2)))
     OR push_bit 24 (ucast (b ! (i + 3))) = w"
proof -
  have "length (drop i b) \<ge> 4" by (simp add: assms)
  then have "i \<le> length b" by simp
  then have "b ! (i + k) = le_put 4 w ! k" if "k < 4" for k
    using nth_drop [of i b k] that by (simp add: assms nth_append)
  from this [of 0] this [of 1] this [of 2] this [of 3]
  have "[b ! i, b ! (i + 1), b ! (i + 2), b ! (i + 3)] = le_put 4 w"
    by (intro nth_equalityI) (auto simp: less_Suc_eq numeral_eq_Suc)
  then have "le_get [b ! i, b ! (i + 1), b ! (i + 2), b ! (i + 3)] = w" by simp
  then show ?thesis by (simp add: push_bit_or push_bit_push_bit or.assoc)
qed

lemma nth_same: "take len p = take len q \<Longrightarrow> k < len \<Longrightarrow> p ! k = q ! k"
  by (metis nth_take)

lemma slice_same:
  assumes "take len p = take len q" "i + n \<le> len"
  shows "take n (drop i p) = take n (drop i q)"
proof -
  have "take n (drop i p) = drop i (take (i + n) (take len p))" for p :: "'a list"
    using assms(2) by (simp add: take_drop min_def add.commute)
  then show ?thesis using assms(1) by metis
qed

subsection \<open>Lists as arrays\<close>

text \<open>\<open>memcpy\<close> of a list of bytes over an array, at an offset inside it.\<close>

definition splice :: "nat \<Rightarrow> 'a list \<Rightarrow> 'a list \<Rightarrow> 'a list" where
  "splice off bs xs = take off xs @ bs @ drop (off + length bs) xs"

lemma length_splice [simp]:
  "off + length bs \<le> length xs \<Longrightarrow> length (splice off bs xs) = length xs"
  by (simp add: splice_def)

lemma nth_splice:
  "off + length bs \<le> length xs \<Longrightarrow> i < length xs \<Longrightarrow>
   splice off bs xs ! i = (if off \<le> i \<and> i < off + length bs then bs ! (i - off) else xs ! i)"
  by (auto simp: splice_def nth_append min_def add.commute)

lemma splice_Nil [simp]: "splice off [] xs = xs"
  by (simp add: splice_def)

lemma splice_append:
  assumes "off + length as + length bs \<le> length xs"
  shows "splice (off + length as) bs (splice off as xs) = splice off (as @ bs) xs"
  by (rule nth_equalityI) (use assms in \<open>auto simp: nth_splice nth_append\<close>)

lemma take_drop_splice:
  "off + length bs \<le> length xs \<Longrightarrow> take (length bs) (drop off (splice off bs xs)) = bs"
  by (simp add: splice_def)

end
