(* ===== verification/ArmState.thy ===== *)
theory ArmState
  imports Prelude
begin

text \<open>
  The processor state of \<open>core/include/arm.h\<close> and the operations of
  \<open>core/src/arm/arm_interp.c\<close> that move between processor modes: the register banks,
  exception entry, exception return and reset. Arrays of the C structure are functions from
  indices; every index used is bounded by a mask or by the loop that forms it. The system bus
  is the record of callbacks \<open>bus\<close> over an abstract machine state \<open>'m\<close>; a C pointer into
  host memory is a \<open>nat\<close> that only \<open>host_load\<close> and \<open>host_store\<close> dereference.
\<close>

subsection \<open>Constants\<close>

abbreviation "CPSR_N \<equiv> (0x80000000 :: u32)"
abbreviation "CPSR_Z \<equiv> (0x40000000 :: u32)"
abbreviation "CPSR_C \<equiv> (0x20000000 :: u32)"
abbreviation "CPSR_V \<equiv> (0x10000000 :: u32)"
abbreviation "CPSR_Q \<equiv> (0x08000000 :: u32)"
abbreviation "CPSR_A \<equiv> (0x100 :: u32)"
abbreviation "CPSR_E \<equiv> (0x200 :: u32)"
abbreviation "CPSR_I \<equiv> (0x80 :: u32)"
abbreviation "CPSR_F \<equiv> (0x40 :: u32)"
abbreviation "CPSR_T \<equiv> (0x20 :: u32)"
abbreviation "CPSR_MODE_MASK \<equiv> (0x1f :: u32)"

abbreviation "SCTLR_M \<equiv> (0x1 :: u32)"
abbreviation "SCTLR_A \<equiv> (0x2 :: u32)"
abbreviation "SCTLR_S \<equiv> (0x100 :: u32)"
abbreviation "SCTLR_R \<equiv> (0x200 :: u32)"
abbreviation "SCTLR_V \<equiv> (0x2000 :: u32)"
abbreviation "SCTLR_U \<equiv> (0x400000 :: u32)"
abbreviation "SCTLR_XP \<equiv> (0x800000 :: u32)"
abbreviation "SCTLR_EE \<equiv> (0x2000000 :: u32)"
abbreviation "SCTLR_FA \<equiv> (0x20000000 :: u32)"

abbreviation "MODE_USR \<equiv> (0x10 :: u32)"
abbreviation "MODE_FIQ \<equiv> (0x11 :: u32)"
abbreviation "MODE_IRQ \<equiv> (0x12 :: u32)"
abbreviation "MODE_SVC \<equiv> (0x13 :: u32)"
abbreviation "MODE_ABT \<equiv> (0x17 :: u32)"
abbreviation "MODE_UND \<equiv> (0x1b :: u32)"
abbreviation "MODE_SYS \<equiv> (0x1f :: u32)"

abbreviation "VEC_UNDEFINED \<equiv> (0x04 :: u32)"
abbreviation "VEC_SWI \<equiv> (0x08 :: u32)"
abbreviation "VEC_PREFETCH \<equiv> (0x0c :: u32)"
abbreviation "VEC_DATA_ABORT \<equiv> (0x10 :: u32)"
abbreviation "VEC_IRQ \<equiv> (0x18 :: u32)"
abbreviation "VEC_FIQ \<equiv> (0x1c :: u32)"

abbreviation "ARM_TLB_ENTRIES \<equiv> (4096 :: u32)"
abbreviation "ARM_DREAD_ENTRIES \<equiv> (64 :: u32)"

subsection \<open>Data\<close>

datatype arm_status = ARM_OK | ARM_UNDEFINED | ARM_HALT | ARM_GUEST_UNDEFINED

text \<open>\<open>SVC_OTHER\<close> stands for every value the enumeration does not name.\<close>

datatype arm_svc_result = SVC_UNHANDLED | SVC_HANDLED | SVC_REDIRECTED | SVC_ERROR | SVC_OTHER

datatype arm_bank = BANK_USR | BANK_FIQ | BANK_IRQ | BANK_SVC | BANK_ABT | BANK_UND

datatype arm_arch = V6_ARM1176 | V7_SWIFT

datatype arm_access = ACCESS_READ | ACCESS_WRITE | ACCESS_FETCH

record arm_cp15 =
  sctlr :: u32
  actlr :: u32
  cpacr :: u32
  ttbr0 :: u32
  ttbr1 :: u32
  ttbcr :: u32
  dacr :: u32
  dfsr :: u32
  ifsr :: u32
  dfar :: u32
  ifar :: u32
  fcse_pid :: u32
  context_id :: u32
  tpidrurw :: u32
  tpidruro :: u32
  tpidrprw :: u32

record tlb_entry =
  te_gen :: u32
  te_tag :: u32
  te_pa :: u32
  te_fsr :: u32

record host_block =
  hb_host :: "nat option"
  hb_tag :: u32
  hb_gen :: u32

record stamp =
  st_sctlr :: u32
  st_ttbr0 :: u32
  st_ttbr1 :: u32
  st_ttbcr :: u32
  st_dacr :: u32
  st_context_id :: u32

record arm_cpu =
  regs :: "nat \<Rightarrow> u32"
  arch :: arm_arch
  cpsr :: u32
  cp15 :: arm_cp15
  spsr :: "arm_bank \<Rightarrow> u32"
  bank_r13 :: "arm_bank \<Rightarrow> u32"
  bank_r14 :: "arm_bank \<Rightarrow> u32"
  fiq_r8_12 :: "nat \<Rightarrow> u32"
  usr_r8_12 :: "nat \<Rightarrow> u32"
  cycles :: u64
  abort_pending :: bool
  abort_fsr :: u32
  abort_far :: u32
  irq_line :: bool
  fiq_line :: bool
  excl_valid :: bool
  excl_addr :: u32
  vfp_fpexc :: u32
  vfp_fpscr :: u32
  vfp_s :: "nat \<Rightarrow> u32"
  tlb :: "nat \<Rightarrow> tlb_entry"
  tlb_gen :: u32
  fetch_host :: "nat option"
  fetch_blk :: u32
  fetch_gen :: u32
  fetch_priv :: bool
  dread :: "nat \<Rightarrow> host_block"
  dwrite :: "nat \<Rightarrow> host_block"
  tlb_stamp :: stamp
  tlb_hits :: u64
  tlb_misses :: u64
  tlb_flushes :: u64
  dread_hits :: u64
  dread_misses :: u64
  dwrite_hits :: u64
  dwrite_misses :: u64

record 'm arm_bus =
  read32 :: "u32 \<Rightarrow> 'm \<Rightarrow> u32 \<times> 'm"
  read16 :: "u32 \<Rightarrow> 'm \<Rightarrow> u16 \<times> 'm"
  read8 :: "u32 \<Rightarrow> 'm \<Rightarrow> u8 \<times> 'm"
  write32 :: "u32 \<Rightarrow> u32 \<Rightarrow> 'm \<Rightarrow> 'm"
  write16 :: "u32 \<Rightarrow> u16 \<Rightarrow> 'm \<Rightarrow> 'm"
  write8 :: "u32 \<Rightarrow> u8 \<Rightarrow> 'm \<Rightarrow> 'm"
  host_ram :: "('m \<Rightarrow> u32 \<Rightarrow> u32 \<Rightarrow> nat option) option"
  host_ram_write :: "('m \<Rightarrow> u32 \<Rightarrow> u32 \<Rightarrow> nat option) option"
  wait_for_interrupt :: "(arm_cpu \<times> 'm \<Rightarrow> bool \<times> arm_cpu \<times> 'm) option"
  privileged_svc_handler :: "(arm_cpu \<times> 'm \<Rightarrow> u32 \<Rightarrow> u32 \<Rightarrow> arm_svc_result \<times> arm_cpu \<times> 'm) option"
  host_load :: "'m \<Rightarrow> nat \<Rightarrow> u8"
  host_store :: "'m \<Rightarrow> nat \<Rightarrow> u8 \<Rightarrow> 'm"

subsection \<open>Flags and modes\<close>

definition set_flag :: "arm_cpu \<Rightarrow> u32 \<Rightarrow> bool \<Rightarrow> arm_cpu" where
  "set_flag c b on = c\<lparr>cpsr := (if on then cpsr c OR b else cpsr c AND NOT b)\<rparr>"

definition get_flag :: "arm_cpu \<Rightarrow> u32 \<Rightarrow> bool" where
  "get_flag c b \<longleftrightarrow> cpsr c AND b \<noteq> 0"

definition cpu_is_priv :: "arm_cpu \<Rightarrow> bool" where
  "cpu_is_priv c \<longleftrightarrow> cpsr c AND CPSR_MODE_MASK \<noteq> MODE_USR"

definition arm_mode_is_valid :: "u32 \<Rightarrow> bool" where
  "arm_mode_is_valid mode \<longleftrightarrow>
     (let k = mode AND CPSR_MODE_MASK in
      k = MODE_USR \<or> k = MODE_FIQ \<or> k = MODE_IRQ \<or> k = MODE_SVC \<or>
      k = MODE_ABT \<or> k = MODE_UND \<or> k = MODE_SYS)"

definition arm_bank_of_mode :: "u32 \<Rightarrow> arm_bank" where
  "arm_bank_of_mode mode =
     (let k = mode AND CPSR_MODE_MASK in
      if k = MODE_FIQ then BANK_FIQ
      else if k = MODE_IRQ then BANK_IRQ
      else if k = MODE_SVC then BANK_SVC
      else if k = MODE_ABT then BANK_ABT
      else if k = MODE_UND then BANK_UND
      else BANK_USR)"

definition arm_set_mode :: "arm_cpu \<Rightarrow> u32 \<Rightarrow> arm_cpu" where
  "arm_set_mode c mode0 =
     (let old = cpsr c AND CPSR_MODE_MASK;
          mode = mode0 AND CPSR_MODE_MASK
      in if \<not> arm_mode_is_valid mode then c
         else
           let ob = arm_bank_of_mode old;
               nb = arm_bank_of_mode mode;
               c1 = (if ob \<noteq> nb then
                       (let ca = c\<lparr>bank_r13 := (bank_r13 c)(ob := regs c 13),
                                   bank_r14 := (bank_r14 c)(ob := regs c 14)\<rparr>;
                            cb = (if ob = BANK_FIQ then
                                    ca\<lparr>fiq_r8_12 := (\<lambda>i. if i < 5 then regs ca (8 + i) else fiq_r8_12 ca i),
                                       regs := (\<lambda>n. if 8 \<le> n \<and> n < 13 then usr_r8_12 ca (n - 8) else regs ca n)\<rparr>
                                  else if nb = BANK_FIQ then
                                    ca\<lparr>usr_r8_12 := (\<lambda>i. if i < 5 then regs ca (8 + i) else usr_r8_12 ca i),
                                       regs := (\<lambda>n. if 8 \<le> n \<and> n < 13 then fiq_r8_12 ca (n - 8) else regs ca n)\<rparr>
                                  else ca)
                        in cb\<lparr>regs := (regs cb)(13 := bank_r13 cb nb, 14 := bank_r14 cb nb)\<rparr>)
                     else c)
           in c1\<lparr>cpsr := (cpsr c1 AND NOT CPSR_MODE_MASK) OR mode\<rparr>)"

text \<open>A register as the User bank sees it, whatever the mode.\<close>

definition reg_read_user :: "arm_cpu \<Rightarrow> u32 \<Rightarrow> nat \<Rightarrow> u32" where
  "reg_read_user c pc i =
     (let cur = arm_bank_of_mode (cpsr c) in
      if i = 15 then pc + 8
      else if cur = BANK_USR then regs c i
      else if i = 13 then bank_r13 c BANK_USR
      else if i = 14 then bank_r14 c BANK_USR
      else if 8 \<le> i \<and> i \<le> 12 \<and> cur = BANK_FIQ then usr_r8_12 c (i - 8)
      else regs c i)"

definition reg_write_user :: "arm_cpu \<Rightarrow> nat \<Rightarrow> u32 \<Rightarrow> arm_cpu" where
  "reg_write_user c i v =
     (let cur = arm_bank_of_mode (cpsr c) in
      if cur = BANK_USR then c\<lparr>regs := (regs c)(i := v)\<rparr>
      else if i = 13 then c\<lparr>bank_r13 := (bank_r13 c)(BANK_USR := v)\<rparr>
      else if i = 14 then c\<lparr>bank_r14 := (bank_r14 c)(BANK_USR := v)\<rparr>
      else if 8 \<le> i \<and> i \<le> 12 \<and> cur = BANK_FIQ then c\<lparr>usr_r8_12 := (usr_r8_12 c)(i - 8 := v)\<rparr>
      else c\<lparr>regs := (regs c)(i := v)\<rparr>)"

text \<open>Reading r15 yields the address of the current instruction plus 8.\<close>

definition reg_read :: "arm_cpu \<Rightarrow> u32 \<Rightarrow> nat \<Rightarrow> u32" where
  "reg_read c pc n = (if n = 15 then pc + 8 else regs c n)"

subsection \<open>Exceptions\<close>

definition take_exception :: "arm_cpu \<Rightarrow> u32 \<Rightarrow> u32 \<Rightarrow> u32 \<Rightarrow> bool \<Rightarrow> arm_cpu \<times> u32" where
  "take_exception c vector mode ret_addr mask_fiq =
     (let saved = cpsr c;
          c = arm_set_mode c mode;
          c = c\<lparr>spsr := (spsr c)(arm_bank_of_mode mode := saved),
                regs := (regs c)(14 := ret_addr),
                cpsr := cpsr c OR CPSR_I\<rparr>;
          c = (if mask_fiq then c\<lparr>cpsr := cpsr c OR CPSR_F\<rparr> else c);
          c = (if vector = VEC_PREFETCH \<or> vector = VEC_DATA_ABORT \<or>
                  vector = VEC_IRQ \<or> vector = VEC_FIQ
               then c\<lparr>cpsr := cpsr c OR CPSR_A\<rparr> else c);
          c = c\<lparr>cpsr := cpsr c AND NOT CPSR_T\<rparr>;
          c = set_flag c CPSR_E (sctlr (cp15 c) AND SCTLR_EE \<noteq> 0);
          c = c\<lparr>excl_valid := False\<rparr>
      in (c, (if sctlr (cp15 c) AND SCTLR_V \<noteq> 0 then 0xffff0000 else 0) + vector))"

definition take_pending_data_abort :: "arm_cpu \<Rightarrow> u32 \<Rightarrow> arm_cpu" where
  "take_pending_data_abort c pc =
     (let c = c\<lparr>abort_pending := False,
                cp15 := (cp15 c)\<lparr>dfsr := abort_fsr c, dfar := abort_far c\<rparr>\<rparr>;
          (c, vec) = take_exception c VEC_DATA_ABORT MODE_ABT (pc + 8) False
      in c\<lparr>regs := (regs c)(15 := vec)\<rparr>)"

definition take_undefined_instruction :: "arm_cpu \<Rightarrow> u32 \<Rightarrow> arm_status \<times> arm_cpu" where
  "take_undefined_instruction c pc =
     (let (c, vec) = take_exception c VEC_UNDEFINED MODE_UND (pc + 4) False
      in (ARM_OK, c\<lparr>regs := (regs c)(15 := vec)\<rparr>))"

text \<open>
  The exception return shared by \<open>MOVS pc\<close>, \<open>LDM ...^\<close> and \<open>RFE\<close>: rebank into the mode of
  \<open>s\<close>, then take every other bit from it.
\<close>

definition restore_cpsr :: "arm_cpu \<Rightarrow> u32 \<Rightarrow> arm_cpu" where
  "restore_cpsr c s =
     (let c = arm_set_mode c s
      in c\<lparr>cpsr := (cpsr c AND CPSR_MODE_MASK) OR (s AND NOT CPSR_MODE_MASK)\<rparr>)"

definition note_abort :: "arm_cpu \<Rightarrow> u32 \<Rightarrow> u32 \<Rightarrow> arm_cpu" where
  "note_abort c fsr va =
     (if abort_pending c then c
      else c\<lparr>abort_pending := True, abort_fsr := fsr, abort_far := va\<rparr>)"

definition note_alignment_abort :: "arm_cpu \<Rightarrow> u32 \<Rightarrow> bool \<Rightarrow> arm_cpu" where
  "note_alignment_abort c va write = note_abort c (0x1 OR (if write then 0x800 else 0)) va"

subsection \<open>Reset\<close>

definition cp15_zero :: arm_cp15 where
  "cp15_zero = \<lparr>sctlr = 0, actlr = 0, cpacr = 0, ttbr0 = 0, ttbr1 = 0, ttbcr = 0, dacr = 0,
     dfsr = 0, ifsr = 0, dfar = 0, ifar = 0, fcse_pid = 0, context_id = 0,
     tpidrurw = 0, tpidruro = 0, tpidrprw = 0\<rparr>"

definition tlb_zero :: tlb_entry where
  "tlb_zero = \<lparr>te_gen = 0, te_tag = 0, te_pa = 0, te_fsr = 0\<rparr>"

definition block_zero :: host_block where
  "block_zero = \<lparr>hb_host = None, hb_tag = 0, hb_gen = 0\<rparr>"

definition arm_reset :: "arm_cpu \<Rightarrow> arm_cpu" where
  "arm_reset c = c\<lparr>
     regs := (\<lambda>i. if i < 16 then 0 else regs c i),
     spsr := (\<lambda>_. 0), bank_r13 := (\<lambda>_. 0), bank_r14 := (\<lambda>_. 0),
     fiq_r8_12 := (\<lambda>i. if i < 5 then 0 else fiq_r8_12 c i),
     usr_r8_12 := (\<lambda>i. if i < 5 then 0 else usr_r8_12 c i),
     cp15 := cp15_zero,
     tlb := (\<lambda>_. tlb_zero), tlb_gen := 1,
     fetch_host := None, fetch_blk := 0, fetch_gen := 0, fetch_priv := False,
     dread := (\<lambda>_. block_zero), dwrite := (\<lambda>_. block_zero),
     tlb_hits := 0, tlb_misses := 0, tlb_flushes := 0,
     dread_hits := 0, dread_misses := 0, dwrite_hits := 0, dwrite_misses := 0,
     abort_pending := False, abort_fsr := 0, abort_far := 0,
     irq_line := False, fiq_line := False,
     excl_valid := False, excl_addr := 0,
     vfp_fpexc := 0, vfp_fpscr := 0,
     vfp_s := (\<lambda>i. if i < 32 then 0 else vfp_s c i),
     cpsr := MODE_SVC OR CPSR_I OR CPSR_F OR CPSR_A,
     cycles := 0\<rparr>"

subsection \<open>Flags\<close>

lemma and_or_notand:
  fixes x b k :: "'a::len word"
  assumes "b AND k = 0"
  shows "(x OR b) AND k = x AND k" and "(x AND NOT b) AND k = x AND k"
  using assms by (auto simp: bit_eq_iff bit_simps)

lemma get_set_flag_same [simp]: "b \<noteq> 0 \<Longrightarrow> get_flag (set_flag c b on) b = on"
  by (auto simp: get_flag_def set_flag_def and.assoc bit.conj_disj_distrib2)

lemma get_set_flag_other [simp]: "b AND k = 0 \<Longrightarrow> get_flag (set_flag c b on) k = get_flag c k"
  by (auto simp: get_flag_def set_flag_def and_or_notand)

lemma set_flag_mode [simp]:
  "b AND CPSR_MODE_MASK = 0 \<Longrightarrow> cpsr (set_flag c b on) AND CPSR_MODE_MASK = cpsr c AND CPSR_MODE_MASK"
  by (auto simp: set_flag_def and_or_notand)

lemma set_flag_sel [simp]:
  "regs (set_flag c b on) = regs c" "spsr (set_flag c b on) = spsr c"
  "bank_r13 (set_flag c b on) = bank_r13 c" "bank_r14 (set_flag c b on) = bank_r14 c"
  "fiq_r8_12 (set_flag c b on) = fiq_r8_12 c" "usr_r8_12 (set_flag c b on) = usr_r8_12 c"
  "cp15 (set_flag c b on) = cp15 c"
  by (simp_all add: set_flag_def)

subsection \<open>Banks\<close>

lemma and_mode_idem [simp]: "(w AND CPSR_MODE_MASK) AND CPSR_MODE_MASK = w AND CPSR_MODE_MASK"
  by (simp add: and.assoc)

lemma field_insert:
  fixes w m k :: "'a::len word"
  shows "((w AND NOT k) OR (m AND k)) AND k = m AND k"
  by (auto simp: bit_eq_iff bit_simps)

lemma mode_insert [simp]:
  "((w AND - 0x20) OR (m AND CPSR_MODE_MASK)) AND CPSR_MODE_MASK = m AND CPSR_MODE_MASK"
  using field_insert [of w CPSR_MODE_MASK m] by simp

lemma arm_bank_of_mode_mask [simp]: "arm_bank_of_mode (w AND CPSR_MODE_MASK) = arm_bank_of_mode w"
  by (simp add: arm_bank_of_mode_def)

lemma arm_mode_is_valid_mask [simp]: "arm_mode_is_valid (w AND CPSR_MODE_MASK) = arm_mode_is_valid w"
  by (simp add: arm_mode_is_valid_def)

lemma arm_bank_of_mode_cong:
  "w AND CPSR_MODE_MASK = v AND CPSR_MODE_MASK \<Longrightarrow> arm_bank_of_mode w = arm_bank_of_mode v"
  by (metis arm_bank_of_mode_mask)

definition bank_view :: "arm_cpu \<Rightarrow> arm_bank \<Rightarrow> nat \<Rightarrow> u32" where
  "bank_view c b n =
     (let cur = arm_bank_of_mode (cpsr c) in
      if 8 \<le> n \<and> n \<le> 12 then
        (if (b = BANK_FIQ) = (cur = BANK_FIQ) then regs c n
         else if b = BANK_FIQ then fiq_r8_12 c (n - 8) else usr_r8_12 c (n - 8))
      else if n = 13 then (if b = cur then regs c 13 else bank_r13 c b)
      else if n = 14 then (if b = cur then regs c 14 else bank_r14 c b)
      else regs c n)"

lemma arm_set_mode_cpsr:
  "arm_mode_is_valid m \<Longrightarrow>
   cpsr (arm_set_mode c m) = (cpsr c AND NOT CPSR_MODE_MASK) OR (m AND CPSR_MODE_MASK)"
  by (simp add: arm_set_mode_def Let_def)

lemma arm_set_mode_invalid: "\<not> arm_mode_is_valid m \<Longrightarrow> arm_set_mode c m = c"
  by (simp add: arm_set_mode_def Let_def)

lemma arm_set_mode_bank [simp]:
  "arm_mode_is_valid m \<Longrightarrow> arm_bank_of_mode (cpsr (arm_set_mode c m)) = arm_bank_of_mode m"
  by (rule arm_bank_of_mode_cong) (simp add: arm_set_mode_cpsr)

lemma arm_set_mode_frame [simp]:
  "spsr (arm_set_mode c m) = spsr c" "cp15 (arm_set_mode c m) = cp15 c"
  "abort_pending (arm_set_mode c m) = abort_pending c" "tlb (arm_set_mode c m) = tlb c"
  "tlb_gen (arm_set_mode c m) = tlb_gen c" "excl_valid (arm_set_mode c m) = excl_valid c"
  "arch (arm_set_mode c m) = arch c" "tlb_stamp (arm_set_mode c m) = tlb_stamp c"
  by (simp_all add: arm_set_mode_def Let_def)

lemma arm_set_mode_view: "bank_view (arm_set_mode c m) b n = bank_view c b n"
proof (cases "arm_mode_is_valid m")
  case True
  then show ?thesis
    unfolding bank_view_def arm_set_mode_bank [OF True] Let_def
    by (auto simp: arm_set_mode_def Let_def)
next
  case False
  then show ?thesis by (simp add: arm_set_mode_invalid)
qed

text \<open>
  C1. Rebanking keeps every register of every bank: whatever mode \<open>arm_set_mode\<close> switches to
  (or refuses), the register \<open>n\<close> of the bank \<open>b\<close>, read through the current mode, is the same
  before and after.
\<close>

theorem bank_view_preserved: "bank_view (arm_set_mode c m) b n = bank_view c b n"
  by (rule arm_set_mode_view)

lemma take_exception_parts:
  assumes "arm_mode_is_valid mode"
  shows "spsr (fst (take_exception c vector mode ret mf)) =
           (spsr c)(arm_bank_of_mode mode := cpsr c)"
    and "regs (fst (take_exception c vector mode ret mf)) = (regs (arm_set_mode c mode))(14 := ret)"
    and "cp15 (fst (take_exception c vector mode ret mf)) = cp15 c"
    and "\<not> excl_valid (fst (take_exception c vector mode ret mf))"
    and "snd (take_exception c vector mode ret mf) =
           (if sctlr (cp15 c) AND SCTLR_V \<noteq> 0 then 0xffff0000 else 0) + vector"
  using assms by (simp_all add: take_exception_def Let_def)

lemma take_exception_cpsr:
  assumes "arm_mode_is_valid mode"
  shows "bit (cpsr (fst (take_exception c vector mode ret mf))) i \<longleftrightarrow>
     (if i < 5 then bit mode i
      else if i = 5 then False
      else if i = 6 then mf \<or> bit (cpsr c) 6
      else if i = 7 then True
      else if i = 8 then bit (cpsr c) 8 \<or> vector \<in> {VEC_PREFETCH, VEC_DATA_ABORT, VEC_IRQ, VEC_FIQ}
      else if i = 9 then bit (sctlr (cp15 c)) 25
      else bit (cpsr c) i)"
proof -
  have ee: "sctlr (cp15 c) AND SCTLR_EE = 0 \<longleftrightarrow> \<not> bit (sctlr (cp15 c)) 25"
    using and_exp_eq_0_iff_not_bit [of "sctlr (cp15 c)" 25] by simp
  have b: "bit (cpsr (arm_set_mode c mode)) i \<longleftrightarrow> (if i < 5 then bit mode i else bit (cpsr c) i)"
    using assms by (simp add: arm_set_mode_cpsr bit_and_iff bit_or_iff bit_masks bit_neg_masks)
      (auto dest: bit_imp_le_length)
  show ?thesis
    by (cases mf; cases "bit (sctlr (cp15 c)) 25"; cases "vector \<in> {VEC_PREFETCH, VEC_DATA_ABORT, VEC_IRQ, VEC_FIQ}")
      (auto simp: take_exception_def Let_def set_flag_def ee bit_or_iff bit_and_iff b bit_masks bit_neg_masks
        dest: bit_imp_le_length)
qed

lemma restore_cpsr_cpsr: "arm_mode_is_valid s \<Longrightarrow> cpsr (restore_cpsr c s) = s"
  by (rule bit_word_eqI)
    (auto simp: restore_cpsr_def Let_def arm_set_mode_cpsr bit_and_iff bit_or_iff bit_masks bit_neg_masks)

lemma restore_cpsr_view: 
  assumes "arm_mode_is_valid s" shows "bank_view (restore_cpsr c s) b n = bank_view c b n"
proof -
  have "cpsr (restore_cpsr c s) AND CPSR_MODE_MASK = cpsr (arm_set_mode c s) AND CPSR_MODE_MASK"
    using assms by (simp add: restore_cpsr_cpsr arm_set_mode_cpsr)
  from arm_bank_of_mode_cong [OF this]
  have "bank_view (restore_cpsr c s) b n = bank_view (arm_set_mode c s) b n"
    unfolding bank_view_def by (simp add: restore_cpsr_def Let_def)
  then show ?thesis by (simp add: arm_set_mode_view)
qed

lemma take_exception_bank:
  assumes "arm_mode_is_valid mode"
  shows "arm_bank_of_mode (cpsr (fst (take_exception c vector mode ret mf))) = arm_bank_of_mode mode"
  by (rule arm_bank_of_mode_cong, rule bit_word_eqI) (auto simp: bit_and_iff bit_masks take_exception_cpsr [OF assms])

lemma take_exception_frame:
  "bank_r13 (fst (take_exception c vector mode ret mf)) = bank_r13 (arm_set_mode c mode)"
  "bank_r14 (fst (take_exception c vector mode ret mf)) = bank_r14 (arm_set_mode c mode)"
  "fiq_r8_12 (fst (take_exception c vector mode ret mf)) = fiq_r8_12 (arm_set_mode c mode)"
  "usr_r8_12 (fst (take_exception c vector mode ret mf)) = usr_r8_12 (arm_set_mode c mode)"
  by (simp_all add: take_exception_def Let_def)

lemma take_exception_view:
  assumes "arm_mode_is_valid mode"
  shows "bank_view (fst (take_exception c vector mode ret mf)) b n =
    (if n = 14 \<and> b = arm_bank_of_mode mode then ret else bank_view c b n)"
proof -
  let ?h = "fst (take_exception c vector mode ret mf)"
  have "bank_view ?h b n = (if n = 14 \<and> b = arm_bank_of_mode mode then ret
      else bank_view (arm_set_mode c mode) b n)"
    using assms by (simp add: bank_view_def take_exception_bank take_exception_parts take_exception_frame Let_def)
  then show ?thesis by (simp add: arm_set_mode_view)
qed

text \<open>
  C2. Taking an exception and returning from it with the handler's saved status
  (\<open>take_exception\<close> then \<open>restore_cpsr\<close>, the return path of \<open>MOVS pc, lr\<close>) restores the CPSR
  of the interrupted program bit for bit and leaves every register of every bank as it was, except
  the link register of the handler's own bank.
\<close>

theorem exception_return_roundtrip:
  assumes "arm_mode_is_valid mode" and "arm_mode_is_valid (cpsr c)"
    and "take_exception c vector mode ret mf = (h, pc)"
    and "r = restore_cpsr h (spsr h (arm_bank_of_mode mode))"
  shows "cpsr r = cpsr c \<and>
    (\<forall>b n. bank_view r b n = (if n = 14 \<and> b = arm_bank_of_mode mode then ret else bank_view c b n))"
proof -
  have h: "h = fst (take_exception c vector mode ret mf)" using assms(3) by simp
  then have s: "spsr h (arm_bank_of_mode mode) = cpsr c"
    using assms(1) by (simp add: take_exception_parts)
  show ?thesis
    using assms(1,2) unfolding assms(4) s
    by (simp add: restore_cpsr_cpsr restore_cpsr_view h take_exception_view)
qed


definition cpu_zero :: arm_cpu where
  "cpu_zero = \<lparr>regs = (\<lambda>_. 0), arch = V6_ARM1176, cpsr = MODE_USR, cp15 = cp15_zero, spsr = (\<lambda>_. 0),
     bank_r13 = (\<lambda>_. 0), bank_r14 = (\<lambda>_. 0), fiq_r8_12 = (\<lambda>_. 0), usr_r8_12 = (\<lambda>_. 0),
     cycles = 0, abort_pending = False, abort_fsr = 0, abort_far = 0,
     irq_line = False, fiq_line = False, excl_valid = False, excl_addr = 0,
     vfp_fpexc = 0, vfp_fpscr = 0, vfp_s = (\<lambda>_. 0), tlb = (\<lambda>_. tlb_zero), tlb_gen = 1,
     fetch_host = None, fetch_blk = 0, fetch_gen = 0, fetch_priv = False,
     dread = (\<lambda>_. block_zero), dwrite = (\<lambda>_. block_zero),
     tlb_stamp = \<lparr>st_sctlr = 0, st_ttbr0 = 0, st_ttbr1 = 0, st_ttbcr = 0, st_dacr = 0, st_context_id = 0\<rparr>,
     tlb_hits = 0, tlb_misses = 0, tlb_flushes = 0,
     dread_hits = 0, dread_misses = 0, dwrite_hits = 0, dwrite_misses = 0\<rparr>"

theorem exception_return_roundtrip_witness:
  "arm_mode_is_valid MODE_SVC \<and>
   cpsr (restore_cpsr (fst (take_exception cpu_zero VEC_SWI MODE_SVC 4 False))
     (spsr (fst (take_exception cpu_zero VEC_SWI MODE_SVC 4 False)) (arm_bank_of_mode MODE_SVC))) = MODE_USR"
  using exception_return_roundtrip [of MODE_SVC cpu_zero VEC_SWI 4 False
      "fst (take_exception cpu_zero VEC_SWI MODE_SVC 4 False)" "snd (take_exception cpu_zero VEC_SWI MODE_SVC 4 False)"]
  by (simp add: arm_mode_is_valid_def cpu_zero_def)

end
