(* ===== verification/Mmu.thy ===== *)
theory Mmu
  imports ArmState
begin

unbundle bit_operations_syntax

text \<open>
  The ARMv6 memory management unit of \<open>core/src/mmu.c\<close>: the table walk, the direct-mapped
  translation cache in front of it and its flush by generation. A translation returns the fault
  status and the physical address as an option, \<open>None\<close> where the C function leaves \<open>*pa\<close> as the
  caller had it. The walk reads guest memory through the bus, so the machine state is threaded
  through it.
\<close>

abbreviation "FSR_SECTION_ACCESS_FLAG \<equiv> (0x3 :: u32)"
abbreviation "FSR_SECTION_TRANSLATION \<equiv> (0x5 :: u32)"
abbreviation "FSR_PAGE_ACCESS_FLAG \<equiv> (0x6 :: u32)"
abbreviation "FSR_PAGE_TRANSLATION \<equiv> (0x7 :: u32)"
abbreviation "FSR_SECTION_DOMAIN \<equiv> (0x9 :: u32)"
abbreviation "FSR_PAGE_DOMAIN \<equiv> (0xb :: u32)"
abbreviation "FSR_SECTION_PERMISSION \<equiv> (0xd :: u32)"
abbreviation "FSR_PAGE_PERMISSION \<equiv> (0xf :: u32)"

subsection \<open>Permissions\<close>

definition fsr_make :: "u32 \<Rightarrow> u32 \<Rightarrow> bool \<Rightarrow> u32" where
  "fsr_make status domain write =
     (status AND 0xf) OR push_bit 4 (domain AND 0xf) OR (if write then 0x800 else 0)"

definition ap_permits :: "arm_cpu \<Rightarrow> u32 \<Rightarrow> bool \<Rightarrow> bool \<Rightarrow> bool \<Rightarrow> bool" where
  "ap_permits c ap apx write priv =
     (let k = ap AND 3 in
      if apx then
        (if k = 0 then False
         else if k = 1 then priv \<and> \<not> write
         else \<not> write)
      else if k = 0 then
        (let s = (sctlr (cp15 c) AND SCTLR_S \<noteq> 0);
             r = (sctlr (cp15 c) AND SCTLR_R \<noteq> 0)
         in if s \<and> r then False
            else if r then \<not> write
            else if s then priv \<and> \<not> write
            else False)
      else if k = 1 then priv
      else if k = 2 then priv \<or> \<not> write
      else True)"

definition access_flag_faults :: "arm_cpu \<Rightarrow> bool \<Rightarrow> u32 \<Rightarrow> bool \<Rightarrow> bool" where
  "access_flag_faults c xp ap apx =
     (if \<not> xp \<or> sctlr (cp15 c) AND SCTLR_FA = 0 \<or> ap AND 1 \<noteq> 0 then False
      else if \<not> apx \<and> ap = 0 \<and>
              (sctlr (cp15 c) AND SCTLR_S \<noteq> 0) \<noteq> (sctlr (cp15 c) AND SCTLR_R \<noteq> 0) then False
      else True)"

definition xn_forbids_fetch :: "arm_cpu \<Rightarrow> arm_access \<Rightarrow> u32 \<Rightarrow> bool \<Rightarrow> bool" where
  "xn_forbids_fetch c acc dac xn \<longleftrightarrow>
     acc = ACCESS_FETCH \<and> xn \<and> dac \<noteq> 3 \<and> sctlr (cp15 c) AND SCTLR_XP \<noteq> 0"

subsection \<open>The table walk\<close>

definition mmu_use_ttbr0 :: "arm_cpu \<Rightarrow> u32 \<Rightarrow> bool" where
  "mmu_use_ttbr0 c va =
     (let n = ttbcr (cp15 c) AND 7 in n = 0 \<or> drop_bit (32 - unat n) va = 0)"

definition mmu_l1_addr :: "arm_cpu \<Rightarrow> u32 \<Rightarrow> u32" where
  "mmu_l1_addr c va =
     (let n = unat (ttbcr (cp15 c) AND 7) in
      if mmu_use_ttbr0 c va then
        (let base = ttbr0 (cp15 c) AND push_bit (14 - n) 0xffffffff;
             idx = drop_bit 20 va AND (push_bit (12 - n) 1 - 1)
         in base OR push_bit 2 idx)
      else (ttbr1 (cp15 c) AND 0xffffc000) OR push_bit 2 (drop_bit 20 va))"

text \<open>A section or supersection; \<open>domain\<close> is already zero for a supersection.\<close>

definition mmu_walk_section ::
  "arm_cpu \<Rightarrow> u32 \<Rightarrow> arm_access \<Rightarrow> bool \<Rightarrow> u32 \<Rightarrow> bool \<Rightarrow> u32 \<Rightarrow> u32 \<times> u32 option" where
  "mmu_walk_section c va acc priv l1 supersection domain =
     (let write = (acc = ACCESS_WRITE);
          xp = (sctlr (cp15 c) AND SCTLR_XP \<noteq> 0);
          dac = drop_bit (unat (domain * 2)) (dacr (cp15 c)) AND 3;
          ap = drop_bit 10 l1 AND 3;
          apx = (xp \<and> drop_bit 15 l1 AND 1 \<noteq> 0)
      in if access_flag_faults c xp ap apx then
           (fsr_make FSR_SECTION_ACCESS_FLAG domain write, None)
         else if dac = 0 \<or> dac = 2 then
           (fsr_make FSR_SECTION_DOMAIN domain write, None)
         else if dac \<noteq> 3 \<and> \<not> ap_permits c ap apx write priv then
           (fsr_make FSR_SECTION_PERMISSION domain write, None)
         else if xn_forbids_fetch c acc dac (drop_bit 4 l1 AND 1 \<noteq> 0) then
           (fsr_make FSR_SECTION_PERMISSION domain False, None)
         else if supersection then
           (0, Some ((l1 AND 0xff000000) OR (va AND 0x00ffffff)))
         else
           (0, Some ((l1 AND 0xfff00000) OR (va AND 0x000fffff))))"

text \<open>The AP field and APX bit of a second-level descriptor.\<close>

definition mmu_page_ap :: "bool \<Rightarrow> u32 \<Rightarrow> u32 \<Rightarrow> u32 \<times> bool" where
  "mmu_page_ap xp va l2 =
     (let t2 = l2 AND 3 in
      if xp then (drop_bit 4 l2 AND 3, drop_bit 9 l2 AND 1 \<noteq> 0)
      else if t2 = 1 then
        (let subpage = drop_bit 14 va AND 3 in (drop_bit (unat (4 + subpage * 2)) l2 AND 3, False))
      else if t2 = 2 then
        (let subpage = drop_bit 10 va AND 3 in (drop_bit (unat (4 + subpage * 2)) l2 AND 3, False))
      else (drop_bit 4 l2 AND 3, False))"

text \<open>What follows the fetch of the second-level descriptor \<open>l2\<close>.\<close>

definition mmu_walk_page ::
  "arm_cpu \<Rightarrow> u32 \<Rightarrow> arm_access \<Rightarrow> bool \<Rightarrow> u32 \<Rightarrow> u32 \<Rightarrow> u32 \<times> u32 option" where
  "mmu_walk_page c va acc priv domain l2 =
     (let write = (acc = ACCESS_WRITE);
          xp = (sctlr (cp15 c) AND SCTLR_XP \<noteq> 0);
          dac = drop_bit (unat (domain * 2)) (dacr (cp15 c)) AND 3;
          t2 = l2 AND 3
      in if t2 = 0 then (fsr_make FSR_PAGE_TRANSLATION domain write, None)
         else let (ap, apx) = mmu_page_ap xp va l2 in
           if access_flag_faults c xp ap apx then
             (fsr_make FSR_PAGE_ACCESS_FLAG domain write, None)
           else if dac = 0 \<or> dac = 2 then
             (fsr_make FSR_PAGE_DOMAIN domain write, None)
           else if dac \<noteq> 3 \<and> \<not> ap_permits c ap apx write priv then
             (fsr_make FSR_PAGE_PERMISSION domain write, None)
           else if xn_forbids_fetch c acc dac
                     (if t2 = 1 then drop_bit 15 l2 AND 1 \<noteq> 0 else l2 AND 1 \<noteq> 0) then
             (fsr_make FSR_PAGE_PERMISSION domain False, None)
           else if t2 = 1 then
             (0, Some ((l2 AND 0xffff0000) OR (va AND 0x0000ffff)))
           else
             (0, Some ((l2 AND 0xfffff000) OR (va AND 0x00000fff))))"

definition mmu_walk ::
  "'m arm_bus \<Rightarrow> 'm \<Rightarrow> arm_cpu \<Rightarrow> u32 \<Rightarrow> arm_access \<Rightarrow> bool \<Rightarrow> u32 \<times> u32 option \<times> 'm" where
  "mmu_walk bus m c va acc priv =
     (let write = (acc = ACCESS_WRITE) in
      if sctlr (cp15 c) AND SCTLR_M = 0 then (0, Some va, m)
      else
        let l1_addr = mmu_l1_addr c va;
            pd_bit = (if mmu_use_ttbr0 c va then 4 else 5 :: nat)
        in if ttbcr (cp15 c) AND push_bit pd_bit 1 \<noteq> 0 then
             (fsr_make FSR_SECTION_TRANSLATION 0 write, None, m)
           else
             let (l1, m) = read32 bus l1_addr m;
                 type = l1 AND 3;
                 domain0 = drop_bit 5 l1 AND 0xf
             in if type = 0 then (fsr_make FSR_SECTION_TRANSLATION 0 write, None, m)
                else if type = 3 then (fsr_make FSR_SECTION_TRANSLATION 0 write, None, m)
                else
                  let supersection = (type = 2 \<and> drop_bit 18 l1 AND 1 \<noteq> 0);
                      domain = (if supersection then 0 else domain0)
                  in if type = 2 then
                       (let (fsr, pa) = mmu_walk_section c va acc priv l1 supersection domain
                        in (fsr, pa, m))
                     else if type = 1 then
                       let l2_addr = (l1 AND 0xfffffc00) OR push_bit 2 (drop_bit 12 va AND 0xff);
                           (l2, m) = read32 bus l2_addr m;
                           (fsr, pa) = mmu_walk_page c va acc priv domain l2
                       in (fsr, pa, m)
                     else (fsr_make FSR_SECTION_TRANSLATION domain write, None, m))"

subsection \<open>The translation cache\<close>

definition access_num :: "arm_access \<Rightarrow> u32" where
  "access_num acc = (case acc of ACCESS_READ \<Rightarrow> 0 | ACCESS_WRITE \<Rightarrow> 1 | ACCESS_FETCH \<Rightarrow> 2)"

definition mmu_tlb_tag :: "u32 \<Rightarrow> arm_access \<Rightarrow> bool \<Rightarrow> u32" where
  "mmu_tlb_tag va acc priv =
     push_bit 3 (drop_bit 10 va) OR push_bit 1 (access_num acc) OR (if priv then 1 else 0)"

definition mmu_tlb_slot :: "u32 \<Rightarrow> arm_access \<Rightarrow> nat" where
  "mmu_tlb_slot va acc =
     unat ((drop_bit 10 va + access_num acc * (ARM_TLB_ENTRIES div 4)) AND (ARM_TLB_ENTRIES - 1))"

definition mmu_stamp_matches :: "arm_cpu \<Rightarrow> bool" where
  "mmu_stamp_matches c \<longleftrightarrow>
     st_sctlr (tlb_stamp c) = sctlr (cp15 c) \<and>
     st_ttbr0 (tlb_stamp c) = ttbr0 (cp15 c) \<and>
     st_ttbr1 (tlb_stamp c) = ttbr1 (cp15 c) \<and>
     st_ttbcr (tlb_stamp c) = ttbcr (cp15 c) \<and>
     st_dacr (tlb_stamp c) = dacr (cp15 c) \<and>
     st_context_id (tlb_stamp c) = context_id (cp15 c)"

definition stamp_of :: "arm_cp15 \<Rightarrow> stamp" where
  "stamp_of p = \<lparr>st_sctlr = sctlr p, st_ttbr0 = ttbr0 p, st_ttbr1 = ttbr1 p,
     st_ttbcr = ttbcr p, st_dacr = dacr p, st_context_id = context_id p\<rparr>"

definition arm_mmu_tlb_flush :: "arm_cpu \<Rightarrow> arm_cpu" where
  "arm_mmu_tlb_flush c =
     (let c = c\<lparr>tlb_flushes := tlb_flushes c + 1, fetch_host := None, tlb_gen := tlb_gen c + 1\<rparr>
      in if tlb_gen c = 0 then
           c\<lparr>tlb := (\<lambda>_. tlb_zero), dread := (\<lambda>_. block_zero), dwrite := (\<lambda>_. block_zero), tlb_gen := 1\<rparr>
         else c)"

text \<open>The state the lookup starts from: a zeroed generation initialised, a stale table flushed.\<close>

definition mmu_refresh :: "arm_cpu \<Rightarrow> arm_cpu" where
  "mmu_refresh c =
     (let c = (if tlb_gen c = 0 then c\<lparr>tlb_gen := 1\<rparr> else c)
      in if mmu_stamp_matches c then c
         else (arm_mmu_tlb_flush c)\<lparr>tlb_stamp := stamp_of (cp15 c)\<rparr>)"

definition arm_mmu_translate ::
  "'m arm_bus \<Rightarrow> 'm \<Rightarrow> arm_cpu \<Rightarrow> u32 \<Rightarrow> arm_access \<Rightarrow> bool \<Rightarrow> u32 \<times> u32 option \<times> arm_cpu \<times> 'm" where
  "arm_mmu_translate bus m c va acc priv =
     (if sctlr (cp15 c) AND SCTLR_M = 0 then (0, Some va, c, m)
      else
        let c = mmu_refresh c;
            tag = mmu_tlb_tag va acc priv;
            slot = mmu_tlb_slot va acc;
            e = tlb c slot
        in if te_gen e = tlb_gen c \<and> te_tag e = tag then
             (te_fsr e, if te_fsr e = 0 then Some (te_pa e OR (va AND 0x3ff)) else None,
              c\<lparr>tlb_hits := tlb_hits c + 1\<rparr>, m)
           else
             let c = c\<lparr>tlb_misses := tlb_misses c + 1\<rparr>;
                 (fsr, pa, m) = mmu_walk bus m c va acc priv;
                 e = \<lparr>te_gen = tlb_gen c, te_tag = tag,
                      te_pa = (if fsr = 0 then the pa AND NOT 0x3ff else 0), te_fsr = fsr\<rparr>
             in (fsr, pa, c\<lparr>tlb := (tlb c)(slot := e)\<rparr>, m))"


subsection \<open>The walk over plain memory\<close>

text \<open>
  A bus on which a word read of the page tables has no side effect, which is what guest RAM is:
  \<open>rd\<close> gives the word at an address.
\<close>

definition rom_bus :: "(u32 \<Rightarrow> u32) \<Rightarrow> unit arm_bus" where
  "rom_bus rd = \<lparr>read32 = (\<lambda>a m. (rd a, m)), read16 = (\<lambda>a m. (0, m)), read8 = (\<lambda>a m. (0, m)),
     write32 = (\<lambda>a v m. m), write16 = (\<lambda>a v m. m), write8 = (\<lambda>a v m. m),
     host_ram = None, host_ram_write = None, wait_for_interrupt = None,
     privileged_svc_handler = None, host_load = (\<lambda>m a. 0), host_store = (\<lambda>m a v. m)\<rparr>"

definition walk_ram :: "(u32 \<Rightarrow> u32) \<Rightarrow> arm_cpu \<Rightarrow> u32 \<Rightarrow> arm_access \<Rightarrow> bool \<Rightarrow> u32 \<times> u32 option" where
  "walk_ram rd c va acc priv =
     (case mmu_walk (rom_bus rd) () c va acc priv of (fsr, pa, m) \<Rightarrow> (fsr, pa))"

lemma mmu_walk_pure:
  assumes "\<And>a. read32 bus a m = (rd a, m)"
  shows "mmu_walk bus m c va acc priv =
    (fst (walk_ram rd c va acc priv), snd (walk_ram rd c va acc priv), m)"
  using assms by (simp add: mmu_walk_def walk_ram_def rom_bus_def Let_def split: prod.splits)

lemma walk_ram_regs:
  assumes "sctlr (cp15 c) = sctlr (cp15 d)" "ttbr0 (cp15 c) = ttbr0 (cp15 d)"
    "ttbr1 (cp15 c) = ttbr1 (cp15 d)" "ttbcr (cp15 c) = ttbcr (cp15 d)"
    "dacr (cp15 c) = dacr (cp15 d)"
  shows "walk_ram rd c = walk_ram rd d"
proof -
  note perm = access_flag_faults_def ap_permits_def xn_forbids_fetch_def
  have t: "mmu_use_ttbr0 c = mmu_use_ttbr0 d"
    by (intro ext) (simp only: assms mmu_use_ttbr0_def)
  have l: "mmu_l1_addr c = mmu_l1_addr d"
    by (intro ext) (simp only: assms mmu_l1_addr_def t)
  have s: "mmu_walk_section c = mmu_walk_section d"
    by (intro ext) (simp only: assms mmu_walk_section_def perm)
  have p: "mmu_walk_page c = mmu_walk_page d"
    by (intro ext) (simp only: assms mmu_walk_page_def perm)
  show ?thesis
    by (intro ext) (simp only: assms walk_ram_def mmu_walk_def t l s p)
qed

lemma fsr_make_nonzero: "status AND 0xf \<noteq> 0 \<Longrightarrow> fsr_make status domain write \<noteq> 0"
  by (auto simp: fsr_make_def or_eq_0_iff)

lemma same_block_page:
  assumes "drop_bit 10 va = drop_bit 10 (vb :: u32)"
  shows "(l AND 0xff000000) OR (vb AND 0x00ffffff) =
           (((l AND 0xff000000) OR (va AND 0x00ffffff)) AND NOT 0x3ff) OR (vb AND 0x3ff)"
    and "(l AND 0xfff00000) OR (vb AND 0x000fffff) =
           (((l AND 0xfff00000) OR (va AND 0x000fffff)) AND NOT 0x3ff) OR (vb AND 0x3ff)"
    and "(l AND 0xffff0000) OR (vb AND 0x0000ffff) =
           (((l AND 0xffff0000) OR (va AND 0x0000ffff)) AND NOT 0x3ff) OR (vb AND 0x3ff)"
    and "(l AND 0xfffff000) OR (vb AND 0x00000fff) =
           (((l AND 0xfffff000) OR (va AND 0x00000fff)) AND NOT 0x3ff) OR (vb AND 0x3ff)"
    and "vb = (va AND NOT 0x3ff) OR (vb AND 0x3ff)"
  by (rule bit_word_eqI;
      auto simp: bit_and_iff bit_or_iff bit_not_iff bit_masks bit_high_masks bit_neg_masks
        not_less bit_drop_cong [OF assms])+

lemma same_block_walk:
  assumes "drop_bit 10 va = drop_bit 10 (vb :: u32)"
  shows "mmu_use_ttbr0 c vb = mmu_use_ttbr0 c va" 
    and "mmu_l1_addr c vb = mmu_l1_addr c va"
    and "mmu_page_ap xp vb l2 = mmu_page_ap xp va l2"
    and "drop_bit 12 vb = drop_bit 12 va"
proof -
  have n: "32 - unat (ttbcr (cp15 c) AND 7) \<ge> 10"
    using unat_and_le_right [of "ttbcr (cp15 c)" 7] by simp
  show u: "mmu_use_ttbr0 c vb = mmu_use_ttbr0 c va"
    using drop_bit_ge_cong [OF assms n] by (simp add: mmu_use_ttbr0_def Let_def)
  show "mmu_l1_addr c vb = mmu_l1_addr c va"
    using drop_bit_ge_cong [OF assms, of 20] by (simp add: mmu_l1_addr_def u Let_def)
  show "mmu_page_ap xp vb l2 = mmu_page_ap xp va l2"
    using drop_bit_ge_cong [OF assms, of 14] assms by (simp add: mmu_page_ap_def Let_def)
  show "drop_bit 12 vb = drop_bit 12 va"
    using drop_bit_ge_cong [OF assms, of 12] by simp
qed

text \<open>The contract a 1 KB-granular translation cache needs from the walk it caches.\<close>

locale block_translation =
  fixes walk :: "u32 \<Rightarrow> arm_access \<Rightarrow> bool \<Rightarrow> u32 \<times> u32 option"
  assumes fault_none: "(snd (walk va acc priv) = None) = (fst (walk va acc priv) \<noteq> 0)"
    and same_block: "drop_bit 10 va = drop_bit 10 vb \<Longrightarrow> walk vb acc priv =
      (fst (walk va acc priv),
       map_option (\<lambda>pa. (pa AND NOT 0x3ff) OR (vb AND 0x3ff)) (snd (walk va acc priv)))"

lemma section_none:
  "(snd (mmu_walk_section c va acc priv l1 ss d) = None) = (fst (mmu_walk_section c va acc priv l1 ss d) \<noteq> 0)"
  by (simp add: mmu_walk_section_def Let_def fsr_make_nonzero)

lemma page_none:
  "(snd (mmu_walk_page c va acc priv d l2) = None) = (fst (mmu_walk_page c va acc priv d l2) \<noteq> 0)"
  by (simp add: mmu_walk_page_def Let_def fsr_make_nonzero split: prod.splits)

lemma section_block:
  assumes "drop_bit 10 va = drop_bit 10 vb"
  shows "mmu_walk_section c vb acc priv l1 ss d =
    (fst (mmu_walk_section c va acc priv l1 ss d),
     map_option (\<lambda>pa. (pa AND NOT 0x3ff) OR (vb AND 0x3ff)) (snd (mmu_walk_section c va acc priv l1 ss d)))"
  unfolding mmu_walk_section_def Let_def
  using same_block_page(1,2) [OF assms, of l1] by (simp split del: if_split split: if_splits)

lemma page_block:
  assumes "drop_bit 10 va = drop_bit 10 vb"
  shows "mmu_walk_page c vb acc priv d l2 =
    (fst (mmu_walk_page c va acc priv d l2),
     map_option (\<lambda>pa. (pa AND NOT 0x3ff) OR (vb AND 0x3ff)) (snd (mmu_walk_page c va acc priv d l2)))"
  unfolding mmu_walk_page_def Let_def
  using same_block_page(3,4) [OF assms, of l2] 
  by (simp add: same_block_walk(3) [OF assms] split: prod.splits)

lemma walk_ram_eq:
  "walk_ram rd c va acc priv =
     (if sctlr (cp15 c) AND SCTLR_M = 0 then (0, Some va)
      else if ttbcr (cp15 c) AND push_bit (if mmu_use_ttbr0 c va then 4 else 5 :: nat) 1 \<noteq> 0
      then (fsr_make FSR_SECTION_TRANSLATION 0 (acc = ACCESS_WRITE), None)
      else
        let l1 = rd (mmu_l1_addr c va);
            ss = (l1 AND 3 = 2 \<and> drop_bit 18 l1 AND 1 \<noteq> 0);
            domain = (if ss then 0 else drop_bit 5 l1 AND 0xf)
        in if l1 AND 3 = 2 then mmu_walk_section c va acc priv l1 ss domain
           else if l1 AND 3 = 1 then
             mmu_walk_page c va acc priv domain
               (rd ((l1 AND 0xfffffc00) OR push_bit 2 (drop_bit 12 va AND 0xff)))
           else (fsr_make FSR_SECTION_TRANSLATION
                  (if l1 AND 3 = 0 \<or> l1 AND 3 = 3 then 0 else domain) (acc = ACCESS_WRITE), None))"
  by (simp add: walk_ram_def mmu_walk_def rom_bus_def Let_def split: prod.splits)

lemma walk_ram_none:
  "(snd (walk_ram rd c va acc priv) = None) = (fst (walk_ram rd c va acc priv) \<noteq> 0)"
  by (simp add: walk_ram_eq Let_def fsr_make_nonzero section_none page_none)

lemma walk_ram_block:
  assumes "drop_bit 10 va = drop_bit 10 vb"
  shows "walk_ram rd c vb acc priv =
    (fst (walk_ram rd c va acc priv),
     map_option (\<lambda>pa. (pa AND NOT 0x3ff) OR (vb AND 0x3ff)) (snd (walk_ram rd c va acc priv)))"
proof -
  note s = same_block_walk [OF assms]
  show ?thesis
    unfolding walk_ram_eq [of rd c vb] walk_ram_eq [of rd c va] s Let_def
    using same_block_page(5) [OF assms] section_block [OF assms] page_block [OF assms]
    by (simp del: section_none)
qed

interpretation walk: block_translation "walk_ram rd c" for rd c
  by unfold_locales (rule walk_ram_none, rule walk_ram_block)

subsection \<open>The cache in front of the walk\<close>

context block_translation
begin

lemma fill_serves:
  assumes "walk va acc priv = (fsr, pa)" and "drop_bit 10 va = drop_bit 10 vb"
  shows "walk vb acc priv =
    (fsr, if fsr = 0 then Some ((if fsr = 0 then the pa AND NOT 0x3ff else 0) OR (vb AND 0x3ff)) else None)"
  using same_block [OF assms(2), of acc priv] fault_none [of va acc priv] assms(1)
  by (auto simp: option.map_sel)

end

lemma bit_access_num: "bit (access_num acc) i \<Longrightarrow> i < 2"
  by (cases acc) (auto simp: access_num_def bit_masks bit_1_iff)

lemma access_num_inj: "access_num a = access_num b \<longleftrightarrow> a = b"
  by (cases a; cases b) (simp_all add: access_num_def)

lemma bit_mmu_tlb_tag:
  "bit (mmu_tlb_tag va acc priv) i \<longleftrightarrow>
     (if i = 0 then priv else if i < 3 then bit (access_num acc) (i - 1) else bit va (i + 7))"
proof -
  have b: "bit (if priv then 1 else 0 :: u32) i \<longleftrightarrow> priv \<and> i = 0" by (simp add: bit_1_iff)
  show ?thesis
    unfolding mmu_tlb_tag_def bit_or_iff bit_push_bit_iff bit_drop_bit_eq b
    by (cases "i < 3") (auto simp: add.commute dest: bit_access_num bit_imp_le_length)
qed

lemma mmu_tlb_tag_inj:
  assumes "mmu_tlb_tag va acc priv = mmu_tlb_tag vb acc' priv'"
  shows "drop_bit 10 va = drop_bit 10 vb \<and> acc = acc' \<and> priv = priv'"
proof -
  have b: "bit (mmu_tlb_tag va acc priv) i = bit (mmu_tlb_tag vb acc' priv') i" for i
    using assms by simp
  have "priv = priv'" using b [of 0] by (simp add: bit_mmu_tlb_tag)
  moreover have "access_num acc = access_num acc'"
  proof (rule bit_word_eqI)
    fix i
    show "bit (access_num acc) i = bit (access_num acc') i"
      using b [of "i + 1"] bit_access_num by (cases "i < 2") (auto simp: bit_mmu_tlb_tag split: if_splits)
  qed
  moreover have "drop_bit 10 va = drop_bit 10 vb"
  proof (rule bit_word_eqI)
    fix i
    show "bit (drop_bit 10 va) i = bit (drop_bit 10 vb) i"
      using b [of "i + 3"] by (simp add: bit_mmu_tlb_tag bit_drop_bit_eq add.commute)
  qed
  ultimately show ?thesis by (simp add: access_num_inj)
qed

lemma mmu_tlb_slot_bound [bounds]: "mmu_tlb_slot va acc < 4096"
  unfolding mmu_tlb_slot_def
  by (rule le_less_trans [OF unat_and_le_right]) simp


text \<open>The CPU as it was when the live entries were walked: the stamp as its registers.\<close>

definition stamped :: "arm_cpu \<Rightarrow> arm_cpu" where
  "stamped c = cpu_zero\<lparr>cp15 := cp15_zero\<lparr>
     sctlr := st_sctlr (tlb_stamp c), ttbr0 := st_ttbr0 (tlb_stamp c),
     ttbr1 := st_ttbr1 (tlb_stamp c), ttbcr := st_ttbcr (tlb_stamp c),
     dacr := st_dacr (tlb_stamp c), context_id := st_context_id (tlb_stamp c)\<rparr>\<rparr>"

lemma stamped_match: "mmu_stamp_matches c \<Longrightarrow> walk_ram rd (stamped c) = walk_ram rd c"
  by (rule walk_ram_regs) (simp_all add: stamped_def mmu_stamp_matches_def)

definition entry_answer :: "tlb_entry \<Rightarrow> u32 \<Rightarrow> u32 \<times> u32 option" where
  "entry_answer e va =
     (te_fsr e, if te_fsr e = 0 then Some (te_pa e OR (va AND 0x3ff)) else None)"

definition tlb_gens_bounded :: "arm_cpu \<Rightarrow> bool" where
  "tlb_gens_bounded c \<longleftrightarrow> (\<forall>s. te_gen (tlb c s) \<le> tlb_gen c)"

definition tlb_coherent :: "(u32 \<Rightarrow> u32) \<Rightarrow> arm_cpu \<Rightarrow> bool" where
  "tlb_coherent rd c \<longleftrightarrow> (tlb_gen c \<noteq> 0 \<longrightarrow>
     (\<forall>va acc priv. te_gen (tlb c (mmu_tlb_slot va acc)) = tlb_gen c \<and>
        te_tag (tlb c (mmu_tlb_slot va acc)) = mmu_tlb_tag va acc priv \<longrightarrow>
        entry_answer (tlb c (mmu_tlb_slot va acc)) va = walk_ram rd (stamped c) va acc priv))"

definition mmu_inv :: "(u32 \<Rightarrow> u32) \<Rightarrow> arm_cpu \<Rightarrow> bool" where
  "mmu_inv rd c \<longleftrightarrow> tlb_gens_bounded c \<and> tlb_coherent rd c"

lemma mmu_inv_cong:
  assumes "tlb c = tlb d" "tlb_gen c = tlb_gen d" "tlb_stamp c = tlb_stamp d" 
  shows "mmu_inv rd c = mmu_inv rd d"
  using assms by (simp add: mmu_inv_def tlb_gens_bounded_def tlb_coherent_def stamped_def)

lemma flush_gen: "tlb_gen (arm_mmu_tlb_flush c) \<noteq> 0"
  by (simp add: arm_mmu_tlb_flush_def Let_def)

lemma flush_not_live:
  assumes "tlb_gens_bounded c"
  shows "te_gen (tlb (arm_mmu_tlb_flush c) s) < tlb_gen (arm_mmu_tlb_flush c)"
proof (cases "tlb_gen c + 1 = 0")
  case True
  then show ?thesis by (simp add: arm_mmu_tlb_flush_def tlb_zero_def)
next
  case False
  then have "tlb_gen c < tlb_gen c + 1"
    using unatSuc [of "tlb_gen c"] by (simp add: word_less_nat_alt add.commute)
  moreover have "te_gen (tlb c s) \<le> tlb_gen c" using assms by (simp add: tlb_gens_bounded_def)
  ultimately show ?thesis using False by (simp add: arm_mmu_tlb_flush_def Let_def)
qed

lemma dead_mmu_inv:
  assumes "\<And>s. te_gen (tlb c s) < tlb_gen c"
  shows "mmu_inv rd c"
proof -
  have "te_gen (tlb c s) \<noteq> tlb_gen c" "te_gen (tlb c s) \<le> tlb_gen c" for s
    using assms [of s] by auto
  then show ?thesis by (simp add: mmu_inv_def tlb_gens_bounded_def tlb_coherent_def)
qed

lemma flush_mmu_inv: "tlb_gens_bounded c \<Longrightarrow> mmu_inv rd (arm_mmu_tlb_flush c)"
  by (rule dead_mmu_inv) (rule flush_not_live)

lemma refresh_facts:
  assumes "mmu_inv rd c"
  shows "mmu_inv rd (mmu_refresh c) \<and> mmu_stamp_matches (mmu_refresh c) \<and> tlb_gen (mmu_refresh c) \<noteq> 0
    \<and> cp15 (mmu_refresh c) = cp15 c"
proof -
  define d where "d = (if tlb_gen c = 0 then c\<lparr>tlb_gen := 1\<rparr> else c)"
  have b: "tlb_gens_bounded d" 
    using assms by (auto simp: d_def mmu_inv_def tlb_gens_bounded_def)
  have i: "mmu_inv rd d"
    using assms b by (auto simp: d_def mmu_inv_def tlb_gens_bounded_def tlb_coherent_def)
  have p: "cp15 d = cp15 c" "tlb_gen d \<noteq> 0" by (simp_all add: d_def)
  show ?thesis
  proof (cases "mmu_stamp_matches d")
    case True
    then show ?thesis using i p by (simp add: mmu_refresh_def d_def [symmetric])
  next
    case False
    have "mmu_inv rd ((arm_mmu_tlb_flush d)\<lparr>tlb_stamp := s\<rparr>)" for s
      by (rule dead_mmu_inv) (simp add: flush_not_live [OF b])
    moreover have "cp15 (arm_mmu_tlb_flush d) = cp15 d"
      by (simp add: arm_mmu_tlb_flush_def Let_def)
    moreover have "mmu_refresh c = (arm_mmu_tlb_flush d)\<lparr>tlb_stamp := stamp_of (cp15 d)\<rparr>"
      using False by (simp add: mmu_refresh_def d_def [symmetric])
    moreover have "mmu_stamp_matches ((arm_mmu_tlb_flush d)\<lparr>tlb_stamp := stamp_of (cp15 d)\<rparr>)"
      by (simp add: mmu_stamp_matches_def stamp_of_def arm_mmu_tlb_flush_def Let_def)
    ultimately show ?thesis
      using p flush_gen [of d] by simp
  qed
qed

lemma refresh_frame: "regs (mmu_refresh c) = regs c" "cpsr (mmu_refresh c) = cpsr c"
  by (simp_all add: mmu_refresh_def arm_mmu_tlb_flush_def Let_def)

lemma mmu_inv_fill:
  assumes inv: "mmu_inv rd c" and st: "mmu_stamp_matches c"
    and w: "walk_ram rd c va acc priv = (fsr, pa)"
    and d: "tlb d = (tlb c)(mmu_tlb_slot va acc := \<lparr>te_gen = tlb_gen c, te_tag = mmu_tlb_tag va acc priv,
              te_pa = (if fsr = 0 then the pa AND NOT 0x3ff else 0), te_fsr = fsr\<rparr>)"
      "tlb_gen d = tlb_gen c" "tlb_stamp d = tlb_stamp c"
  shows "mmu_inv rd d"
proof -
  have sd: "stamped d = stamped c" by (simp add: stamped_def d)
  have bd: "tlb_gens_bounded d"
    using inv by (simp add: mmu_inv_def tlb_gens_bounded_def d)
  have "tlb_coherent rd d" unfolding tlb_coherent_def
  proof (intro impI allI)
    fix vb acc' priv'
    let ?s = "mmu_tlb_slot vb acc'"
    assume g: "tlb_gen d \<noteq> 0"
      and live: "te_gen (tlb d ?s) = tlb_gen d \<and> te_tag (tlb d ?s) = mmu_tlb_tag vb acc' priv'"
    show "entry_answer (tlb d ?s) vb = walk_ram rd (stamped d) vb acc' priv'"
    proof (cases "?s = mmu_tlb_slot va acc")
      case True
      then have "mmu_tlb_tag va acc priv = mmu_tlb_tag vb acc' priv'" using live by (simp add: d)
      from mmu_tlb_tag_inj [OF this]
      have t: "drop_bit 10 va = drop_bit 10 vb" "acc' = acc" "priv' = priv" by simp_all
      have e: "tlb d ?s = \<lparr>te_gen = tlb_gen c, te_tag = mmu_tlb_tag va acc priv,
          te_pa = (if fsr = 0 then the pa AND NOT 0x3ff else 0), te_fsr = fsr\<rparr>"
        using True by (simp only: d fun_upd_same)
      show ?thesis
        unfolding e unfolding sd stamped_match [OF st] t(2,3) walk.fill_serves [OF w t(1)] entry_answer_def
        by simp
    next
      case False
      then show ?thesis
        using inv g live unfolding sd by (simp add: mmu_inv_def tlb_coherent_def d)
    qed
  qed
  then show ?thesis using bd by (simp add: mmu_inv_def)
qed

lemma translate_ram:
  assumes pure: "\<And>a. read32 bus a m = (rd a, m)" and inv: "mmu_inv rd c"
    and t: "arm_mmu_translate bus m c va acc priv = (fsr, pa, c', m')"
  shows "(fsr, pa) = walk_ram rd c va acc priv \<and> m' = m \<and> cp15 c' = cp15 c \<and> mmu_inv rd c'"
proof (cases "sctlr (cp15 c) AND SCTLR_M = 0")
  case True
  then show ?thesis using t inv by (simp add: arm_mmu_translate_def walk_ram_eq)
next
  case False
  define r where "r = mmu_refresh c"
  note rf = refresh_facts [OF inv, folded r_def]
  have wr: "walk_ram rd c = walk_ram rd r"
    by (rule walk_ram_regs) (use rf in simp_all)
  let ?e = "tlb r (mmu_tlb_slot va acc)"
  show ?thesis
  proof (cases "te_gen ?e = tlb_gen r \<and> te_tag ?e = mmu_tlb_tag va acc priv")
    case hit: True
    have "entry_answer ?e va = walk_ram rd r va acc priv"
      using rf hit stamped_match [of r rd] by (simp add: mmu_inv_def tlb_coherent_def)
    moreover have "c' = r\<lparr>tlb_hits := tlb_hits r + 1\<rparr>" "m' = m" "(fsr, pa) = entry_answer ?e va"
      using t False hit by (auto simp: arm_mmu_translate_def r_def [symmetric] Let_def entry_answer_def)
    moreover have "mmu_inv rd (r\<lparr>tlb_hits := tlb_hits r + 1\<rparr>)"
      using rf mmu_inv_cong [of "r\<lparr>tlb_hits := tlb_hits r + 1\<rparr>" r rd] by simp
    ultimately show ?thesis using rf wr by simp
  next
    case miss: False
    let ?r = "r\<lparr>tlb_misses := tlb_misses r + 1\<rparr>"
    have w: "walk_ram rd ?r = walk_ram rd r" by (rule walk_ram_regs) simp_all
    have walk: "mmu_walk bus m ?r va acc priv = (fst (walk_ram rd r va acc priv), snd (walk_ram rd r va acc priv), m)"
      using mmu_walk_pure [of bus m rd, OF pure] w by simp
    have res: "(fsr, pa) = walk_ram rd r va acc priv" "m' = m"
      "c' = ?r\<lparr>tlb := (tlb r)(mmu_tlb_slot va acc := \<lparr>te_gen = tlb_gen r, te_tag = mmu_tlb_tag va acc priv,
              te_pa = (if fsr = 0 then the pa AND NOT 0x3ff else 0), te_fsr = fsr\<rparr>)\<rparr>"
      using t False miss walk by (auto simp: arm_mmu_translate_def r_def [symmetric] Let_def)
    have "mmu_inv rd c'"
      by (rule mmu_inv_fill [of rd r va acc priv fsr pa]) (use rf res in simp_all)
    then show ?thesis using res rf wr by simp
  qed
qed

subsection \<open>Properties of the unit\<close>

text \<open>
  C3. The translation cache is invisible: over page tables in plain memory and from a coherent
  table, \<open>arm_mmu_translate\<close> returns exactly the fault status and physical address that the table
  walk computes, hit or miss, whatever changed in the CP15 registers since the entries were made,
  and leaves the table coherent.
\<close>

theorem translate_is_walk:
  assumes "\<And>a. read32 bus a m = (rd a, m)" and "mmu_inv rd c"
    and "arm_mmu_translate bus m c va acc priv = (fsr, pa, c', m')"
  shows "(fsr, pa) = walk_ram rd c va acc priv \<and> m' = m \<and> cp15 c' = cp15 c \<and> mmu_inv rd c'"
  using assms by (rule translate_ram)

definition demo_cpu :: arm_cpu where
  "demo_cpu = (arm_reset cpu_zero)\<lparr>cp15 := cp15_zero\<lparr>sctlr := 1, dacr := 1\<rparr>\<rparr>"

lemma demo_inv: "mmu_inv rd demo_cpu"
  by (rule dead_mmu_inv) (simp add: demo_cpu_def arm_reset_def tlb_zero_def)

theorem translate_is_walk_witness:
  "(case arm_mmu_translate (rom_bus (\<lambda>_. 0x40000c02)) () demo_cpu 0x12345 ACCESS_WRITE False of
     (fsr, pa, c', m') \<Rightarrow> (fsr, pa) = (0, Some 0x40012345))"
proof -
  obtain fsr pa c' m' where t: "arm_mmu_translate (rom_bus (\<lambda>_. 0x40000c02)) () demo_cpu 0x12345 ACCESS_WRITE False
      = (fsr, pa, c', m')" by (cases "arm_mmu_translate (rom_bus (\<lambda>_. 0x40000c02)) () demo_cpu 0x12345 ACCESS_WRITE False") auto
  have "walk_ram (\<lambda>_. 0x40000c02) demo_cpu 0x12345 ACCESS_WRITE False = (0, Some 0x40012345)"
    by (simp add: walk_ram_eq Let_def demo_cpu_def cp15_zero_def mmu_use_ttbr0_def mmu_walk_section_def
        access_flag_faults_def ap_permits_def xn_forbids_fetch_def drop_bit_eq_div)
  then show ?thesis
    using translate_is_walk [OF _ demo_inv t, of "\<lambda>_. 0x40000c02"] t by (simp add: rom_bus_def)
qed

text \<open>
  C4. A flush forgets every translation, also when the 32-bit generation wraps: whatever the page
  tables hold afterwards, the next translation is the walk of the new tables.
\<close>

theorem flush_then_translate:
  assumes "tlb_gens_bounded c" and "\<And>a. read32 bus a m = (rd a, m)"
    and "arm_mmu_translate bus m (arm_mmu_tlb_flush c) va acc priv = (fsr, pa, c', m')"
  shows "(fsr, pa) = walk_ram rd c va acc priv \<and> tlb_gens_bounded c'"
proof -
  have "walk_ram rd (arm_mmu_tlb_flush c) = walk_ram rd c"
    by (rule walk_ram_regs) (simp_all add: arm_mmu_tlb_flush_def Let_def)
  then show ?thesis
    using translate_ram [of bus m rd, OF assms(2) flush_mmu_inv [OF assms(1)] assms(3)]
    by (simp add: mmu_inv_def)
qed

theorem flush_then_translate_witness:
  "tlb_gens_bounded (demo_cpu\<lparr>tlb_gen := 0xffffffff\<rparr>) \<and>
   (\<exists>c'. arm_mmu_translate (rom_bus (\<lambda>_. 0)) () (arm_mmu_tlb_flush (demo_cpu\<lparr>tlb_gen := 0xffffffff\<rparr>))
      0 ACCESS_READ True = (FSR_SECTION_TRANSLATION, None, c', ()))"
proof -
  let ?c = "demo_cpu\<lparr>tlb_gen := 0xffffffff\<rparr>"
  have b: "tlb_gens_bounded ?c" by (simp add: tlb_gens_bounded_def demo_cpu_def arm_reset_def tlb_zero_def)
  obtain fsr pa c' m' where t: "arm_mmu_translate (rom_bus (\<lambda>_. 0)) () (arm_mmu_tlb_flush ?c) 0 ACCESS_READ True
      = (fsr, pa, c', m')" by (cases "arm_mmu_translate (rom_bus (\<lambda>_. 0)) () (arm_mmu_tlb_flush ?c) 0 ACCESS_READ True") auto
  have "walk_ram (\<lambda>_. 0) ?c 0 ACCESS_READ True = (FSR_SECTION_TRANSLATION, None)"
    by (simp add: walk_ram_eq Let_def demo_cpu_def cp15_zero_def mmu_use_ttbr0_def fsr_make_def)
  then show ?thesis
    using flush_then_translate [OF b _ t, of "\<lambda>_. 0"] t b by (simp add: rom_bus_def)
qed

lemma ap_permits_mono:
  "ap_permits c ap apx write priv \<Longrightarrow> (write' \<longrightarrow> write) \<Longrightarrow> (priv \<longrightarrow> priv') \<Longrightarrow> ap_permits c ap apx write' priv'"
  by (auto simp: ap_permits_def Let_def split: if_splits)

lemma section_mono:
  assumes "mmu_walk_section c va acc priv l1 ss d = (0, Some pa)"
    "acc' = acc \<or> acc' = ACCESS_READ" "priv \<longrightarrow> priv'"
  shows "mmu_walk_section c va acc' priv' l1 ss d = (0, Some pa)"
  using assms ap_permits_mono [of c _ _ "acc = ACCESS_WRITE" priv "acc' = ACCESS_WRITE" priv']
  by (auto simp: mmu_walk_section_def Let_def fsr_make_nonzero xn_forbids_fetch_def split: if_splits)

lemma page_mono:
  assumes "mmu_walk_page c va acc priv d l2 = (0, Some pa)"
    "acc' = acc \<or> acc' = ACCESS_READ" "priv \<longrightarrow> priv'"
  shows "mmu_walk_page c va acc' priv' d l2 = (0, Some pa)"
proof -
  obtain ap apx where p: "mmu_page_ap (sctlr (cp15 c) AND SCTLR_XP \<noteq> 0) va l2 = (ap, apx)" by force
  have x: "xn_forbids_fetch c acc' dac xn \<Longrightarrow> xn_forbids_fetch c acc dac xn" for dac xn
    using assms(2) by (auto simp: xn_forbids_fetch_def)
  have a: "ap_permits c ap apx (acc = ACCESS_WRITE) priv \<Longrightarrow> ap_permits c ap apx (acc' = ACCESS_WRITE) priv'"
    by (rule ap_permits_mono) (use assms(2,3) in auto)
  define dac where "dac = drop_bit (unat (d * 2)) (dacr (cp15 c)) AND 3"
  define xn where "xn = (if l2 AND 3 = 1 then drop_bit 15 l2 AND 1 \<noteq> 0 else l2 AND 1 \<noteq> 0)"
  define af where "af = access_flag_faults c (sctlr (cp15 c) AND SCTLR_XP \<noteq> 0) ap apx"
  show ?thesis
    using assms(1) a x [of dac xn] 
    unfolding mmu_walk_page_def Let_def p prod.case dac_def [symmetric] xn_def [symmetric] af_def [symmetric]
    by (auto simp: fsr_make_nonzero split: if_splits)
qed

text \<open>
  Permissions are ordered: where a walk grants an access, it grants a privileged access of the
  same kind, and a data read at the same or higher privilege, and both reach the same physical
  address. In particular a page a store may write can always be read back, and no page is open to
  User mode but closed to the kernel.
\<close>

theorem walk_permission_order:
  assumes "walk_ram rd c va acc priv = (0, Some pa)"
    and "acc' = acc \<or> acc' = ACCESS_READ" and "priv \<longrightarrow> priv'"
  shows "walk_ram rd c va acc' priv' = (0, Some pa)"
  using assms section_mono [OF _ assms(2,3)] page_mono [OF _ assms(2,3)]
  unfolding walk_ram_eq by (simp add: Let_def split: if_splits)

theorem walk_permission_order_witness:
  "walk_ram (\<lambda>_. 0x40000c02) demo_cpu 0x12345 ACCESS_READ True = (0, Some 0x40012345)"
  by (rule walk_permission_order [of _ _ _ ACCESS_WRITE False])
    (simp_all add: walk_ram_eq Let_def demo_cpu_def cp15_zero_def mmu_use_ttbr0_def mmu_walk_section_def
        access_flag_faults_def ap_permits_def xn_forbids_fetch_def drop_bit_eq_div)



end
