(* ===== verification/ArmMem.thy ===== *)
theory ArmMem
  imports Mmu
begin

unbundle bit_operations_syntax

text \<open>
  The data-side memory accessors of \<open>core/src/arm/arm_interp.c\<close>: alignment rules, accesses split
  at a page boundary, and the two block caches that let a load or store skip the translation. The
  C macros \<open>MEM_READ(bits)\<close> and \<open>MEM_WRITE(bits)\<close> are definitions over the access size
  \<open>n = bits / 8\<close> in bytes, with values widened to 32 bits. A fault is latched in the CPU
  (\<open>note_abort\<close>) and the load returns zero, as in the code.
\<close>

subsection \<open>Host memory behind a pointer\<close>

definition host_get :: "'m arm_bus \<Rightarrow> 'm \<Rightarrow> nat \<Rightarrow> nat \<Rightarrow> u32" where
  "host_get bus m p n = le_get (map (\<lambda>i. host_load bus m (p + i)) [0..<n])"

definition host_put :: "'m arm_bus \<Rightarrow> 'm \<Rightarrow> nat \<Rightarrow> nat \<Rightarrow> u32 \<Rightarrow> 'm" where
  "host_put bus m p n v =
     fold (\<lambda>i m. host_store bus m (p + i) (ucast (drop_bit (8 * i) v))) [0..<n] m"

definition bus_read :: "'m arm_bus \<Rightarrow> nat \<Rightarrow> u32 \<Rightarrow> 'm \<Rightarrow> u32 \<times> 'm" where
  "bus_read bus n pa m =
     (if n = 4 then read32 bus pa m
      else if n = 2 then (let (v, m) = read16 bus pa m in (ucast v, m))
      else (let (v, m) = read8 bus pa m in (ucast v, m)))"

definition bus_write :: "'m arm_bus \<Rightarrow> nat \<Rightarrow> u32 \<Rightarrow> u32 \<Rightarrow> 'm \<Rightarrow> 'm" where
  "bus_write bus n pa v m =
     (if n = 4 then write32 bus pa v m
      else if n = 2 then write16 bus pa (ucast v) m
      else write8 bus pa (ucast v) m)"

subsection \<open>Alignment and page crossing\<close>

definition legacy_rotate_word :: "u32 \<Rightarrow> u32 \<Rightarrow> u32" where
  "legacy_rotate_word v byte_offset =
     (let n = unat ((byte_offset AND 3) * 8)
      in if n \<noteq> 0 then drop_bit n v OR push_bit (32 - n) v else v)"

definition legacy_halfword_unpredictable :: "arm_cpu \<Rightarrow> u32 \<Rightarrow> bool" where
  "legacy_halfword_unpredictable c va \<longleftrightarrow>
     va AND 1 \<noteq> 0 \<and> sctlr (cp15 c) AND (SCTLR_U OR SCTLR_A) = 0"

definition mem_crosses_page :: "u32 \<Rightarrow> nat \<Rightarrow> bool" where
  "mem_crosses_page va n \<longleftrightarrow> (va AND 0xfff) + of_nat n > 0x1000"

text \<open>The loop of \<open>mem_read_crossing\<close> from index \<open>i\<close>, with \<open>k\<close> bytes left.\<close>

fun mem_read_crossing_loop ::
  "'m arm_bus \<Rightarrow> u32 \<Rightarrow> bool \<Rightarrow> nat \<Rightarrow> nat \<Rightarrow> u32 \<Rightarrow> u32 \<Rightarrow> arm_cpu \<Rightarrow> 'm \<Rightarrow> u32 \<times> arm_cpu \<times> 'm" where
  "mem_read_crossing_loop bus va priv i 0 val page_pa c m = (val, c, m)"
| "mem_read_crossing_loop bus va priv i (Suc k) val page_pa c m =
     (let a = va + of_nat i;
          (f, page_pa, c, m) =
            (if i = 0 \<or> a AND 0xfff = 0
             then (case arm_mmu_translate bus m c a ACCESS_READ priv of
                     (f, pa, c, m) \<Rightarrow> (f, the pa AND NOT 0xfff, c, m))
             else (0, page_pa, c, m))
      in if f \<noteq> 0 then (0, note_abort c f a, m)
         else
           let (b, m) = read8 bus (page_pa OR (a AND 0xfff)) m
           in mem_read_crossing_loop bus va priv (Suc i) k
                (val OR push_bit (8 * i) (ucast b)) page_pa c m)"

definition mem_read_crossing ::
  "'m arm_bus \<Rightarrow> 'm \<Rightarrow> arm_cpu \<Rightarrow> u32 \<Rightarrow> nat \<Rightarrow> bool \<Rightarrow> u32 \<times> arm_cpu \<times> 'm" where
  "mem_read_crossing bus m c va n priv = mem_read_crossing_loop bus va priv 0 n 0 0 c m"

fun mem_write_crossing_loop ::
  "'m arm_bus \<Rightarrow> u32 \<Rightarrow> u32 \<Rightarrow> bool \<Rightarrow> nat \<Rightarrow> nat \<Rightarrow> u32 \<Rightarrow> arm_cpu \<Rightarrow> 'm \<Rightarrow> arm_cpu \<times> 'm" where
  "mem_write_crossing_loop bus va v priv i 0 page_pa c m = (c, m)"
| "mem_write_crossing_loop bus va v priv i (Suc k) page_pa c m =
     (let a = va + of_nat i;
          (f, page_pa, c, m) =
            (if i = 0 \<or> a AND 0xfff = 0
             then (case arm_mmu_translate bus m c a ACCESS_WRITE priv of
                     (f, pa, c, m) \<Rightarrow> (f, the pa AND NOT 0xfff, c, m))
             else (0, page_pa, c, m))
      in if f \<noteq> 0 then (note_abort c f a, m)
         else mem_write_crossing_loop bus va v priv (Suc i) k page_pa c
                (write8 bus (page_pa OR (a AND 0xfff)) (ucast (drop_bit (8 * i) v)) m))"

definition mem_write_crossing ::
  "'m arm_bus \<Rightarrow> 'm \<Rightarrow> arm_cpu \<Rightarrow> u32 \<Rightarrow> nat \<Rightarrow> u32 \<Rightarrow> bool \<Rightarrow> arm_cpu \<times> 'm" where
  "mem_write_crossing bus m c va n v priv = mem_write_crossing_loop bus va v priv 0 n 0 c m"

subsection \<open>The block caches\<close>

definition dread_slot :: "u32 \<Rightarrow> bool \<Rightarrow> nat" where
  "dread_slot va priv =
     unat ((drop_bit 10 va + (if priv then ARM_DREAD_ENTRIES div 2 else 0)) AND (ARM_DREAD_ENTRIES - 1))"

definition dread_tag :: "u32 \<Rightarrow> bool \<Rightarrow> u32" where
  "dread_tag va priv = (va AND NOT 0x3ff) OR (if priv then 1 else 0)"

text \<open>The build without \<open>S5LBOX_NO_DREAD\<close>.\<close>

definition dread_hit :: "arm_cpu \<Rightarrow> u32 \<Rightarrow> nat \<Rightarrow> bool \<Rightarrow> nat option \<times> arm_cpu" where
  "dread_hit c va n priv =
     (let miss = (None, c\<lparr>dread_misses := dread_misses c + 1\<rparr>) in
      if (va AND 0x3ff) + of_nat n > 0x400 then miss
      else
        let e = dread c (dread_slot va priv) in
        case hb_host e of
          None \<Rightarrow> miss
        | Some h \<Rightarrow>
          if hb_tag e \<noteq> dread_tag va priv \<or> hb_gen e \<noteq> tlb_gen c then miss
          else (Some (h + unat (va AND 0x3ff)), c\<lparr>dread_hits := dread_hits c + 1\<rparr>))"

definition dread_fill :: "'m arm_bus \<Rightarrow> 'm \<Rightarrow> arm_cpu \<Rightarrow> u32 \<Rightarrow> u32 \<Rightarrow> bool \<Rightarrow> arm_cpu" where
  "dread_fill bus m c va pa priv =
     (case host_ram bus of None \<Rightarrow> c
      | Some f \<Rightarrow>
        (case f m (pa AND NOT 0x3ff) 0x400 of None \<Rightarrow> c
         | Some blk \<Rightarrow>
           c\<lparr>dread := (dread c)(dread_slot va priv :=
               \<lparr>hb_host = Some blk, hb_tag = dread_tag va priv, hb_gen = tlb_gen c\<rparr>)\<rparr>))"

definition dwrite_hit :: "'m arm_bus \<Rightarrow> arm_cpu \<Rightarrow> u32 \<Rightarrow> nat \<Rightarrow> bool \<Rightarrow> nat option \<times> arm_cpu" where
  "dwrite_hit bus c va n priv =
     (let miss = (None, c\<lparr>dwrite_misses := dwrite_misses c + 1\<rparr>) in
      if host_ram_write bus = None then (None, c)
      else if (va AND 0x3ff) + of_nat n > 0x400 then miss
      else
        let e = dwrite c (dread_slot va priv) in
        case hb_host e of
          None \<Rightarrow> miss
        | Some h \<Rightarrow>
          if hb_tag e \<noteq> dread_tag va priv \<or> hb_gen e \<noteq> tlb_gen c then miss
          else (Some (h + unat (va AND 0x3ff)), c\<lparr>dwrite_hits := dwrite_hits c + 1\<rparr>))"

definition dwrite_fill :: "'m arm_bus \<Rightarrow> 'm \<Rightarrow> arm_cpu \<Rightarrow> u32 \<Rightarrow> u32 \<Rightarrow> bool \<Rightarrow> arm_cpu" where
  "dwrite_fill bus m c va pa priv =
     (case host_ram_write bus of None \<Rightarrow> c
      | Some f \<Rightarrow>
        (case f m (pa AND NOT 0x3ff) 0x400 of None \<Rightarrow> c
         | Some blk \<Rightarrow>
           c\<lparr>dwrite := (dwrite c)(dread_slot va priv :=
               \<lparr>hb_host = Some blk, hb_tag = dread_tag va priv, hb_gen = tlb_gen c\<rparr>)\<rparr>))"

subsection \<open>Loads and stores\<close>

text \<open>The address an access really uses: \<open>None\<close> for an alignment fault.\<close>

definition mem_align :: "arm_cpu \<Rightarrow> u32 \<Rightarrow> nat \<Rightarrow> u32 option" where
  "mem_align c va n =
     (if n > 1 \<and> va AND (of_nat n - 1) \<noteq> 0 then
        (if sctlr (cp15 c) AND SCTLR_A \<noteq> 0 then None
         else if sctlr (cp15 c) AND SCTLR_U = 0 then Some (va AND NOT (of_nat n - 1))
         else Some va)
      else Some va)"

definition mem_r_as :: "'m arm_bus \<Rightarrow> nat \<Rightarrow> 'm \<Rightarrow> arm_cpu \<Rightarrow> u32 \<Rightarrow> bool \<Rightarrow> u32 \<times> arm_cpu \<times> 'm" where
  "mem_r_as bus n m c original priv =
     (case mem_align c original n of
        None \<Rightarrow> (0, note_alignment_abort c original False, m)
      | Some va \<Rightarrow>
        let finish = (\<lambda>value. if n = 4 \<and> original \<noteq> va
                              then legacy_rotate_word value (original AND 3) else value)
        in if mem_crosses_page va n then
             (case mem_read_crossing bus m c va n priv of (value, c, m) \<Rightarrow> (finish value, c, m))
           else
             (case dread_hit c va n priv of
                (Some dh, c) \<Rightarrow> (finish (host_get bus m dh n), c, m)
              | (None, c) \<Rightarrow>
                (case arm_mmu_translate bus m c va ACCESS_READ priv of
                   (f, pa, c, m) \<Rightarrow>
                     if f \<noteq> 0 then (0, note_abort c f va, m)
                     else
                       let (value, m) = bus_read bus n (the pa) m
                       in (finish value, dread_fill bus m c va (the pa) priv, m))))"

definition mem_w_as :: "'m arm_bus \<Rightarrow> nat \<Rightarrow> 'm \<Rightarrow> arm_cpu \<Rightarrow> u32 \<Rightarrow> u32 \<Rightarrow> bool \<Rightarrow> arm_cpu \<times> 'm" where
  "mem_w_as bus n m c original v priv =
     (case mem_align c original n of
        None \<Rightarrow> (note_alignment_abort c original True, m)
      | Some va \<Rightarrow>
        if mem_crosses_page va n then mem_write_crossing bus m c va n v priv
        else
          (case dwrite_hit bus c va n priv of
             (Some dw, c) \<Rightarrow> (c, host_put bus m dw n v)
           | (None, c) \<Rightarrow>
             (case arm_mmu_translate bus m c va ACCESS_WRITE priv of
                (f, pa, c, m) \<Rightarrow>
                  if f \<noteq> 0 then (note_abort c f va, m)
                  else
                    let m = bus_write bus n (the pa) v m
                    in (dwrite_fill bus m c va (the pa) priv, m))))"

definition mem_r :: "'m arm_bus \<Rightarrow> nat \<Rightarrow> 'm \<Rightarrow> arm_cpu \<Rightarrow> u32 \<Rightarrow> u32 \<times> arm_cpu \<times> 'm" where
  "mem_r bus n m c va = mem_r_as bus n m c va (cpu_is_priv c)"

definition mem_w :: "'m arm_bus \<Rightarrow> nat \<Rightarrow> 'm \<Rightarrow> arm_cpu \<Rightarrow> u32 \<Rightarrow> u32 \<Rightarrow> arm_cpu \<times> 'm" where
  "mem_w bus n m c va v = mem_w_as bus n m c va v (cpu_is_priv c)"

text \<open>
  \<open>prepare_multiword_address\<close>: whether the transfer goes on, the CPU with an alignment abort
  latched where it does not, and the address, aligned down in the legacy model.
\<close>

definition prepare_multiword_address :: "arm_cpu \<Rightarrow> u32 \<Rightarrow> u32 \<Rightarrow> bool \<Rightarrow> bool \<times> arm_cpu \<times> u32" where
  "prepare_multiword_address c va alignment write =
     (let k = alignment - 1 in
      if va AND k = 0 then (True, c, va)
      else if sctlr (cp15 c) AND (SCTLR_U OR SCTLR_A) \<noteq> 0 then
        (False, note_alignment_abort c va write, va)
      else (True, c, va AND NOT k))"

text \<open>\<open>None\<close>: go on; \<open>Some s\<close>: leave the instruction with status \<open>s\<close>.\<close>

definition prepare_sync_address :: "arm_cpu \<Rightarrow> u32 \<Rightarrow> u32 \<Rightarrow> bool \<Rightarrow> arm_status option \<times> arm_cpu" where
  "prepare_sync_address c va alignment write =
     (if va AND (alignment - 1) = 0 then (None, c)
      else if sctlr (cp15 c) AND (SCTLR_U OR SCTLR_A) \<noteq> 0 then
        (Some ARM_OK, note_alignment_abort c va write)
      else (Some ARM_UNDEFINED, c))"

definition vfp_mem_r32 :: "'m arm_bus \<Rightarrow> 'm \<Rightarrow> arm_cpu \<Rightarrow> u32 \<Rightarrow> u32 \<times> arm_cpu \<times> 'm" where
  "vfp_mem_r32 bus m c va =
     (case prepare_multiword_address c va 4 False of
        (ok, c, va) \<Rightarrow> if ok then mem_r bus 4 m c va else (0, c, m))"

definition vfp_mem_w32 :: "'m arm_bus \<Rightarrow> 'm \<Rightarrow> arm_cpu \<Rightarrow> u32 \<Rightarrow> u32 \<Rightarrow> arm_cpu \<times> 'm" where
  "vfp_mem_w32 bus m c va v =
     (case prepare_multiword_address c va 4 True of
        (ok, c, va) \<Rightarrow> if ok then mem_w bus 4 m c va v else (c, m))"

subsection \<open>The block caches against the walk\<close>

text \<open>
  What \<open>host_ram\<close> promises (\<open>arm.h\<close>): a pointer handed out for a 1 KB block of physical memory
  reaches the same bytes as the bus, a bus read of that block has no side effect, and the pointer
  does not move.
\<close>

definition ram_contract :: "'m arm_bus \<Rightarrow> (u32 \<Rightarrow> nat option) \<Rightarrow> bool" where
  "ram_contract bus blk \<longleftrightarrow>
     (case host_ram bus of
        None \<Rightarrow> \<forall>a. blk a = None
      | Some f \<Rightarrow> \<forall>m pa. f m (pa AND NOT 0x3ff) 0x400 = blk (pa AND NOT 0x3ff)) \<and>
     (\<forall>m pa h n. blk (pa AND NOT 0x3ff) = Some h \<and> n \<in> {1, 2, 4} \<and> (pa AND 0x3ff) + of_nat n \<le> 0x400 \<longrightarrow>
        bus_read bus n pa m = (host_get bus m (h + unat (pa AND 0x3ff)) n, m))"

definition blocks_bounded :: "arm_cpu \<Rightarrow> (nat \<Rightarrow> host_block) \<Rightarrow> bool" where
  "blocks_bounded c blocks \<longleftrightarrow> (\<forall>s. hb_host (blocks s) = None \<or> hb_gen (blocks s) \<le> tlb_gen c)"

definition blocks_coherent ::
  "arm_access \<Rightarrow> (u32 \<Rightarrow> u32) \<Rightarrow> (u32 \<Rightarrow> nat option) \<Rightarrow> arm_cpu \<Rightarrow> (nat \<Rightarrow> host_block) \<Rightarrow> bool" where
  "blocks_coherent acc rd blk c blocks \<longleftrightarrow>
     (\<forall>va priv h. hb_host (blocks (dread_slot va priv)) = Some h \<and>
        hb_tag (blocks (dread_slot va priv)) = dread_tag va priv \<and>
        hb_gen (blocks (dread_slot va priv)) = tlb_gen c \<longrightarrow>
        (\<exists>pa. walk_ram rd c va acc priv = (0, Some pa) \<and> blk (pa AND NOT 0x3ff) = Some h))"

lemma dread_tag_inj:
  assumes "dread_tag va priv = dread_tag vb priv'"
  shows "drop_bit 10 va = drop_bit 10 vb \<and> priv = priv'"
proof -
  have t: "bit (dread_tag v p) i \<longleftrightarrow> (if i = 0 then p else 10 \<le> i \<and> bit v i)" for v p i
    by (auto simp: dread_tag_def bit_or_iff bit_and_iff bit_neg_masks bit_1_iff dest: bit_imp_le_length)
  have b: "bit (dread_tag va priv) i = bit (dread_tag vb priv') i" for i using assms by simp
  have "drop_bit 10 va = drop_bit 10 vb"
  proof (rule bit_word_eqI)
    fix i show "bit (drop_bit 10 va) i = bit (drop_bit 10 vb) i"
      using b [of "10 + i"] by (simp add: t bit_drop_bit_eq)
  qed
  then show ?thesis using b [of 0] by (simp add: t)
qed

lemma dread_slot_bound [bounds]: "dread_slot va priv < 64"
  unfolding dread_slot_def
  by (rule le_less_trans [OF unat_and_le_right]) simp

lemma walk_low_bits:
  assumes "walk_ram rd c va acc priv = (0, Some pa)"
  shows "pa AND 0x3ff = va AND 0x3ff"
proof -
  have "Some pa = Some ((pa AND NOT 0x3ff) OR (va AND 0x3ff))"
    using walk_ram_block [of va va rd c acc priv] assms by simp
  then have "pa = (pa AND NOT 0x3ff) OR (va AND 0x3ff)" by simp
  then show ?thesis by (metis field_insert)
qed

lemma flush_blocks:
  "(dread (arm_mmu_tlb_flush c) = dread c \<and> dwrite (arm_mmu_tlb_flush c) = dwrite c \<and>
      tlb_gen c < tlb_gen (arm_mmu_tlb_flush c)) \<or>
   (dread (arm_mmu_tlb_flush c) = (\<lambda>_. block_zero) \<and> dwrite (arm_mmu_tlb_flush c) = (\<lambda>_. block_zero))"
proof (cases "tlb_gen c + 1 = 0")
  case True
  then show ?thesis by (simp add: arm_mmu_tlb_flush_def)
next
  case False
  then have "tlb_gen c < tlb_gen c + 1"
    using unatSuc [of "tlb_gen c"] by (simp add: word_less_nat_alt add.commute)
  then show ?thesis using False by (simp add: arm_mmu_tlb_flush_def Let_def)
qed

text \<open>A translation either leaves the block caches live as they are, or kills every entry.\<close>

definition blocks_dead :: "arm_cpu \<Rightarrow> (nat \<Rightarrow> host_block) \<Rightarrow> bool" where
  "blocks_dead c blocks \<longleftrightarrow> (\<forall>s. hb_host (blocks s) = None \<or> hb_gen (blocks s) < tlb_gen c)"

lemma flush_blocks_dead:
  "blocks_bounded c (dread c) \<Longrightarrow> blocks_dead (arm_mmu_tlb_flush c) (dread (arm_mmu_tlb_flush c))"
  "blocks_bounded c (dwrite c) \<Longrightarrow> blocks_dead (arm_mmu_tlb_flush c) (dwrite (arm_mmu_tlb_flush c))"
  using flush_blocks [of c] by (auto simp: blocks_bounded_def blocks_dead_def block_zero_def intro: le_less_trans)

lemma refresh_blocks:
  "tlb_gen (mmu_refresh c) = tlb_gen c \<and> dread (mmu_refresh c) = dread c \<and> dwrite (mmu_refresh c) = dwrite c \<or>
   (blocks_bounded c (dread c) \<longrightarrow> blocks_dead (mmu_refresh c) (dread (mmu_refresh c))) \<and>
   (blocks_bounded c (dwrite c) \<longrightarrow> blocks_dead (mmu_refresh c) (dwrite (mmu_refresh c)))"
proof -
  define d where "d = (if tlb_gen c = 0 then c\<lparr>tlb_gen := 1\<rparr> else c)"
  have bd: "blocks_bounded c bs \<Longrightarrow> blocks_bounded d bs" for bs
    by (auto simp: blocks_bounded_def d_def)
  have dd: "dread d = dread c" "dwrite d = dwrite c" by (simp_all add: d_def)
  have z: "tlb_gen c = 0 \<Longrightarrow> blocks_bounded c bs \<Longrightarrow> blocks_dead d bs" for bs
    by (fastforce simp: blocks_bounded_def blocks_dead_def d_def)
  show ?thesis
  proof (cases "mmu_stamp_matches d")
    case True
    then have "mmu_refresh c = d" by (simp add: mmu_refresh_def d_def)
    then show ?thesis using z dd by (cases "tlb_gen c = 0") (auto simp: d_def)
  next
    case False
    then have r: "mmu_refresh c = (arm_mmu_tlb_flush d)\<lparr>tlb_stamp := stamp_of (cp15 d)\<rparr>"
      by (simp add: mmu_refresh_def d_def [symmetric])
    show ?thesis
      using flush_blocks_dead [of d] bd unfolding r dd by (auto simp: blocks_dead_def)
  qed
qed

lemma translate_caches:
  assumes "arm_mmu_translate bus m c va acc priv = (f, pa, c', m')"
  shows "tlb_gen c' = tlb_gen c \<and> dread c' = dread c \<and> dwrite c' = dwrite c \<or>
   (blocks_bounded c (dread c) \<longrightarrow> blocks_dead c' (dread c')) \<and>
   (blocks_bounded c (dwrite c) \<longrightarrow> blocks_dead c' (dwrite c'))"
proof (cases "sctlr (cp15 c) AND SCTLR_M = 0")
  case True
  then show ?thesis using assms by (simp add: arm_mmu_translate_def)
next
  case False
  then have "tlb_gen c' = tlb_gen (mmu_refresh c) \<and> dread c' = dread (mmu_refresh c) \<and> dwrite c' = dwrite (mmu_refresh c)"
    using assms by (auto simp: arm_mmu_translate_def Let_def split: if_splits prod.splits)
  then show ?thesis using refresh_blocks [of c] by (simp add: blocks_dead_def)
qed

lemma blocks_dead_ok:
  assumes "blocks_dead c bs"
  shows "blocks_bounded c bs \<and> blocks_coherent acc rd blk c bs"
proof -
  have x: "hb_host (bs s) = None \<or> hb_gen (bs s) \<noteq> tlb_gen c \<and> hb_gen (bs s) \<le> tlb_gen c" for s
    using assms unfolding blocks_dead_def by (metis order.strict_iff_order)
  then show ?thesis
    unfolding blocks_bounded_def blocks_coherent_def by (metis option.distinct(1))
qed

lemma blocks_cong:
  assumes "tlb_gen c = tlb_gen d" "cp15 c = cp15 d"
  shows "blocks_bounded c bs = blocks_bounded d bs" "blocks_coherent acc rd blk c bs = blocks_coherent acc rd blk d bs"
proof -
  have "walk_ram rd c = walk_ram rd d" by (rule walk_ram_regs) (simp_all add: assms)
  then show "blocks_bounded c bs = blocks_bounded d bs" "blocks_coherent acc rd blk c bs = blocks_coherent acc rd blk d bs"
    by (simp_all add: blocks_bounded_def blocks_coherent_def assms)
qed

text \<open>The invariant of the data side: translation cache and both block caches agree with the walk.\<close>

definition data_inv :: "(u32 \<Rightarrow> u32) \<Rightarrow> (u32 \<Rightarrow> nat option) \<Rightarrow> (u32 \<Rightarrow> nat option) \<Rightarrow> arm_cpu \<Rightarrow> bool" where
  "data_inv rd blk wblk c \<longleftrightarrow> mmu_inv rd c \<and>
     blocks_bounded c (dread c) \<and> blocks_coherent ACCESS_READ rd blk c (dread c) \<and>
     blocks_bounded c (dwrite c) \<and> blocks_coherent ACCESS_WRITE rd wblk c (dwrite c)"

lemma data_inv_cong:
  assumes "tlb c = tlb d" "tlb_gen c = tlb_gen d" "tlb_stamp c = tlb_stamp d" "cp15 c = cp15 d"
    "dread c = dread d" "dwrite c = dwrite d"
  shows "data_inv rd blk wblk c = data_inv rd blk wblk d"
  using assms mmu_inv_cong [of c d rd] blocks_cong [of c d] by (simp add: data_inv_def)

lemma translate_data_inv:
  assumes "\<And>a. read32 bus a m = (rd a, m)" and "data_inv rd blk wblk c"
    and "arm_mmu_translate bus m c va acc priv = (f, pa, c', m')"
  shows "(f, pa) = walk_ram rd c va acc priv \<and> m' = m \<and> cp15 c' = cp15 c \<and> data_inv rd blk wblk c'"
proof -
  have t: "(f, pa) = walk_ram rd c va acc priv" "m' = m" "cp15 c' = cp15 c" "mmu_inv rd c'"
    using translate_ram [of bus m rd, OF assms(1) _ assms(3)] assms(2) by (simp_all add: data_inv_def)
  have "data_inv rd blk wblk c'"
    using translate_caches [OF assms(3)]
  proof
    assume s: "tlb_gen c' = tlb_gen c \<and> dread c' = dread c \<and> dwrite c' = dwrite c"
    then show ?thesis using t assms(2) blocks_cong [of c' c] by (simp add: data_inv_def)
  next
    assume "(blocks_bounded c (dread c) \<longrightarrow> blocks_dead c' (dread c')) \<and>
      (blocks_bounded c (dwrite c) \<longrightarrow> blocks_dead c' (dwrite c'))"
    then show ?thesis using t(4) assms(2) by (simp add: data_inv_def blocks_dead_ok)
  qed
  then show ?thesis using t by simp
qed

lemma fill_coherent:
  assumes co: "blocks_coherent acc rd blk c bs" and bo: "blocks_bounded c bs"
    and w: "walk_ram rd c va acc priv = (0, Some pa)" and h: "blk (pa AND NOT 0x3ff) = Some h"
    and d: "tlb_gen d = tlb_gen c" "cp15 d = cp15 c"
  shows "blocks_coherent acc rd blk d
      (bs(dread_slot va priv := \<lparr>hb_host = Some h, hb_tag = dread_tag va priv, hb_gen = tlb_gen c\<rparr>)) \<and>
    blocks_bounded d
      (bs(dread_slot va priv := \<lparr>hb_host = Some h, hb_tag = dread_tag va priv, hb_gen = tlb_gen c\<rparr>))"
proof
  let ?bs = "bs(dread_slot va priv := \<lparr>hb_host = Some h, hb_tag = dread_tag va priv, hb_gen = tlb_gen c\<rparr>)"
  have "blocks_coherent acc rd blk c ?bs"
    unfolding blocks_coherent_def
  proof (intro allI impI)
    fix vb p h'
    let ?s = "dread_slot vb p"
    assume live: "hb_host (?bs ?s) = Some h' \<and> hb_tag (?bs ?s) = dread_tag vb p \<and> hb_gen (?bs ?s) = tlb_gen c"
    show "\<exists>pa. walk_ram rd c vb acc p = (0, Some pa) \<and> blk (pa AND NOT 0x3ff) = Some h'"
    proof (cases "?s = dread_slot va priv")
      case True
      then have "dread_tag va priv = dread_tag vb p" "h' = h" using live by simp_all
      from dread_tag_inj [OF this(1)] have t: "drop_bit 10 va = drop_bit 10 vb" "p = priv" by simp_all
      let ?pb = "(pa AND NOT 0x3ff) OR (vb AND 0x3ff)"
      have "?pb AND NOT 0x3ff = pa AND NOT 0x3ff"
        by (rule bit_word_eqI) (auto simp: bit_or_iff bit_and_iff bit_neg_masks bit_masks)
      moreover have "walk_ram rd c vb acc p = (0, Some ?pb)"
        using walk_ram_block [OF t(1), of rd c acc priv] w t(2) by simp
      ultimately show ?thesis using h \<open>h' = h\<close> by metis
    next
      case False
      then show ?thesis using co live by (simp add: blocks_coherent_def)
    qed
  qed
  then show "blocks_coherent acc rd blk d ?bs" using blocks_cong(2) [of d c] d by simp
  show "blocks_bounded d ?bs" using bo d by (simp add: blocks_bounded_def)
qed

lemma dread_fill_inv:
  assumes inv: "data_inv rd blk wblk c" and con: "ram_contract bus blk"
    and w: "walk_ram rd c va ACCESS_READ priv = (0, Some pa)"
  shows "data_inv rd blk wblk (dread_fill bus m c va pa priv)"
proof (cases "host_ram bus")
  case None
  then show ?thesis using inv by (simp add: dread_fill_def)
next
  case (Some f)
  then have f: "f m (pa AND NOT 0x3ff) 0x400 = blk (pa AND NOT 0x3ff)"
    using con by (simp add: ram_contract_def)
  show ?thesis
  proof (cases "blk (pa AND NOT 0x3ff)")
    case None
    then show ?thesis using inv Some f by (simp add: dread_fill_def)
  next
    case h: (Some h)
    let ?d = "dread_fill bus m c va pa priv"
    have d: "?d = c\<lparr>dread := (dread c)(dread_slot va priv :=
       \<lparr>hb_host = Some h, hb_tag = dread_tag va priv, hb_gen = tlb_gen c\<rparr>)\<rparr>"
      using Some f h by (simp add: dread_fill_def)
    have "mmu_inv rd ?d" using inv mmu_inv_cong [of ?d c rd] by (simp add: data_inv_def d)
    moreover have "blocks_bounded ?d (dwrite ?d) \<and> blocks_coherent ACCESS_WRITE rd wblk ?d (dwrite ?d)"
      using inv blocks_cong [of ?d c] by (simp add: data_inv_def d)
    moreover have "blocks_coherent ACCESS_READ rd blk ?d (dread ?d) \<and> blocks_bounded ?d (dread ?d)"
      using fill_coherent [of ACCESS_READ rd blk c "dread c" va priv pa h ?d] inv w h
      by (simp add: data_inv_def d)
    ultimately show ?thesis by (simp add: data_inv_def)
  qed
qed

lemma dread_hit_sound:
  assumes inv: "data_inv rd blk wblk c" and h: "dread_hit c va n priv = (Some p, c')"
  obtains pa h where "walk_ram rd c va ACCESS_READ priv = (0, Some pa)" "blk (pa AND NOT 0x3ff) = Some h"
    "p = h + unat (va AND 0x3ff)" "(va AND 0x3ff) + of_nat n \<le> 0x400" "c' = c\<lparr>dread_hits := dread_hits c + 1\<rparr>"
proof -
  let ?e = "dread c (dread_slot va priv)"
  obtain hh where e: "hb_host ?e = Some hh" "hb_tag ?e = dread_tag va priv" "hb_gen ?e = tlb_gen c"
    "p = hh + unat (va AND 0x3ff)" "(va AND 0x3ff) + of_nat n \<le> 0x400" "c' = c\<lparr>dread_hits := dread_hits c + 1\<rparr>"
    using h by (auto simp: dread_hit_def Let_def split: option.splits if_splits)
  moreover obtain pa where "walk_ram rd c va ACCESS_READ priv = (0, Some pa)" "blk (pa AND NOT 0x3ff) = Some hh"
    using inv e unfolding data_inv_def blocks_coherent_def by blast
  ultimately show ?thesis using that by blast
qed

lemma dread_hit_none:
  "dread_hit c va n priv = (None, c') \<Longrightarrow> c' = c\<lparr>dread_misses := dread_misses c + 1\<rparr>"
  by (auto simp: dread_hit_def Let_def split: option.splits if_splits)


text \<open>
  The reference: a load that does not cross a page goes through the walk and one bus access, and
  knows no cache. The value, the abort it latches (if any) and the machine after it.
\<close>

definition mem_read_spec ::
  "(u32 \<Rightarrow> u32) \<Rightarrow> 'm arm_bus \<Rightarrow> nat \<Rightarrow> 'm \<Rightarrow> arm_cpu \<Rightarrow> u32 \<Rightarrow> bool \<Rightarrow> u32 \<times> (u32 \<times> u32) option \<times> 'm" where
  "mem_read_spec rd bus n m c original priv =
     (case mem_align c original n of
        None \<Rightarrow> (0, Some (1, original), m)
      | Some va \<Rightarrow>
        (case walk_ram rd c va ACCESS_READ priv of
           (f, Some pa) \<Rightarrow>
             let (value, m) = bus_read bus n pa m
             in (if n = 4 \<and> original \<noteq> va then legacy_rotate_word value (original AND 3) else value, None, m)
         | (f, None) \<Rightarrow> (0, Some (f, va), m)))"

definition latched :: "arm_cpu \<Rightarrow> (u32 \<times> u32) option \<Rightarrow> arm_cpu" where
  "latched c ab = (case ab of None \<Rightarrow> c | Some (f, a) \<Rightarrow> note_abort c f a)"

definition abort_state :: "arm_cpu \<Rightarrow> bool \<times> u32 \<times> u32" where
  "abort_state c = (abort_pending c, abort_fsr c, abort_far c)"

lemma abort_state_note_cong:
  "abort_state c = abort_state d \<Longrightarrow> abort_state (note_abort c f a) = abort_state (note_abort d f a)"
  by (simp add: abort_state_def note_abort_def)

lemma note_abort_frame [simp]:
  "tlb (note_abort c f a) = tlb c" "tlb_gen (note_abort c f a) = tlb_gen c" "tlb_stamp (note_abort c f a) = tlb_stamp c"
  "cp15 (note_abort c f a) = cp15 c" "dread (note_abort c f a) = dread c" "dwrite (note_abort c f a) = dwrite c"
  by (simp_all add: note_abort_def)

lemma note_abort_data_inv [simp]: "data_inv rd blk wblk (note_abort c f a) = data_inv rd blk wblk c"
  by (rule data_inv_cong) simp_all

lemma translate_frame:
  assumes "arm_mmu_translate bus m c va acc priv = (f, pa, c', m')"
  shows "regs c' = regs c" "cpsr c' = cpsr c" "abort_state c' = abort_state c"
  using assms by (auto simp: arm_mmu_translate_def mmu_refresh_def arm_mmu_tlb_flush_def abort_state_def Let_def
      split: if_splits prod.splits)

lemma dread_fill_frame:
  "regs (dread_fill bus m c va pa priv) = regs c" "cpsr (dread_fill bus m c va pa priv) = cpsr c"
  "abort_state (dread_fill bus m c va pa priv) = abort_state c"
  "cp15 (dread_fill bus m c va pa priv) = cp15 c"
  by (simp_all add: dread_fill_def abort_state_def split: option.splits)

lemma note_abort_regs [simp]: "regs (note_abort c f a) = regs c" "cpsr (note_abort c f a) = cpsr c"
  by (simp_all add: note_abort_def)

lemma mem_read_single:
  assumes pure: "\<And>a. read32 bus a m = (rd a, m)" and inv: "data_inv rd blk wblk c"
    and con: "ram_contract bus blk" and n: "n \<in> {1, 2, 4}"
    and al: "mem_align c original n = Some va" and nc: "\<not> mem_crosses_page va n"
    and r: "mem_r_as bus n m c original priv = (v, c', m')"
    and s: "mem_read_spec rd bus n m c original priv = (v2, ab, m2)"
  shows "v = v2 \<and> m' = m2 \<and> abort_state c' = abort_state (latched c ab) \<and>
    regs c' = regs c \<and> cpsr c' = cpsr c \<and> data_inv rd blk wblk c'"
proof (cases "dread_hit c va n priv")
  case (Pair hit c1)
  show ?thesis
  proof (cases hit)
    case (Some p)
    obtain pa h where w: "walk_ram rd c va ACCESS_READ priv = (0, Some pa)" and
      b: "blk (pa AND NOT 0x3ff) = Some h" and p: "p = h + unat (va AND 0x3ff)" and
      le: "(va AND 0x3ff) + of_nat n \<le> 0x400" and c1: "c1 = c\<lparr>dread_hits := dread_hits c + 1\<rparr>"
      by (rule dread_hit_sound [OF inv Pair [unfolded Some]])
    have "pa AND 0x3ff = va AND 0x3ff" by (rule walk_low_bits [OF w])
    then have "bus_read bus n pa m = (host_get bus m p n, m)"
      using con b n le p by (simp add: ram_contract_def)
    moreover have "data_inv rd blk wblk c1" using inv data_inv_cong [of c1 c] by (simp add: c1)
    ultimately show ?thesis using r s Pair Some nc
      by (auto simp: mem_r_as_def mem_read_spec_def al w c1 latched_def abort_state_def Let_def)
  next
    case None
    have c1: "c1 = c\<lparr>dread_misses := dread_misses c + 1\<rparr>" using dread_hit_none Pair None by simp
    have i1: "data_inv rd blk wblk c1" using inv data_inv_cong [of c1 c] by (simp add: c1)
    have w1: "walk_ram rd c1 = walk_ram rd c" by (rule walk_ram_regs) (simp_all add: c1)
    have a1: "abort_state c1 = abort_state c" "regs c1 = regs c" "cpsr c1 = cpsr c" by (simp_all add: c1 abort_state_def)
    obtain f pa c2 m1 where t: "arm_mmu_translate bus m c1 va ACCESS_READ priv = (f, pa, c2, m1)"
      by (cases "arm_mmu_translate bus m c1 va ACCESS_READ priv") auto
    note td = translate_data_inv [OF pure i1 t] translate_frame [OF t]
    have wd: "walk_ram rd c va ACCESS_READ priv = (f, pa)" using td w1 by simp
    have nn: "(pa = None) = (f \<noteq> 0)" using walk_ram_none [of rd c va ACCESS_READ priv] wd by simp
    show ?thesis
    proof (cases "f = 0")
      case True
      then obtain q where q: "pa = Some q" "walk_ram rd c va ACCESS_READ priv = (0, Some q)"
        using nn wd by (cases pa) auto
      have q2: "walk_ram rd c2 va ACCESS_READ priv = (0, Some q)"
        using q td walk_ram_regs [of c2 c1 rd] w1 by simp
      obtain b m3 where b: "bus_read bus n q m = (b, m3)" by force
      have "c' = dread_fill bus m3 c2 va q priv" "m' = m3"
        "v = (if n = 4 \<and> original \<noteq> va then legacy_rotate_word b (original AND 3) else b)"
        using r Pair None nc t q True td b by (auto simp: mem_r_as_def al Let_def)
      moreover have "data_inv rd blk wblk (dread_fill bus m3 c2 va q priv)"
        by (rule dread_fill_inv [OF _ con q2]) (use td in simp)
      ultimately show ?thesis
        using s td b q by (auto simp: mem_read_spec_def al Let_def dread_fill_frame latched_def a1)
    next
      case False
      then have q: "walk_ram rd c va ACCESS_READ priv = (f, None)"
        using nn wd by (cases pa) auto
      have "c' = note_abort c2 f va" "m' = m" "v = 0"
        using r Pair None nc t False td by (auto simp: mem_r_as_def al Let_def)
      moreover have "abort_state c2 = abort_state c" "regs c2 = regs c" "cpsr c2 = cpsr c" using td by (simp_all add: a1)
      ultimately show ?thesis
        using s td q abort_state_note_cong [of c2 c f va]
        by (auto simp: mem_read_spec_def al latched_def)
    qed
  qed
qed

text \<open>
  C6. The data-read path is exact: an ordinary load that stays inside a page returns the value,
  latches the abort and leaves the machine exactly as one table walk and one bus access do,
  whether it was served by the block cache, by the translation cache or by a walk; registers and
  CPSR are untouched and the caches stay coherent.
\<close>

theorem mem_read_is_walk_and_bus:
  assumes "\<And>a. read32 bus a m = (rd a, m)" and "data_inv rd blk wblk c"
    and "ram_contract bus blk" and "n \<in> {1, 2, 4}"
    and "\<And>va. mem_align c original n = Some va \<Longrightarrow> \<not> mem_crosses_page va n"
    and "mem_r_as bus n m c original priv = (v, c', m')"
    and "mem_read_spec rd bus n m c original priv = (v2, ab, m2)"
  shows "v = v2 \<and> m' = m2 \<and> abort_state c' = abort_state (latched c ab) \<and>
    regs c' = regs c \<and> cpsr c' = cpsr c \<and> data_inv rd blk wblk c'"
proof (cases "mem_align c original n")
  case None
  then show ?thesis
    using assms(2,6,7) by (auto simp: mem_r_as_def mem_read_spec_def note_alignment_abort_def latched_def)
next
  case (Some va)
  show ?thesis
    by (rule mem_read_single [OF assms(1-4) Some assms(5) [OF Some] assms(6,7)])
qed

text \<open>What \<open>host_ram_write\<close> promises: a store through the pointer is the store of the bus.\<close>

definition ram_write_contract :: "'m arm_bus \<Rightarrow> (u32 \<Rightarrow> nat option) \<Rightarrow> bool" where
  "ram_write_contract bus blk \<longleftrightarrow>
     (case host_ram_write bus of
        None \<Rightarrow> \<forall>a. blk a = None
      | Some f \<Rightarrow> \<forall>m pa. f m (pa AND NOT 0x3ff) 0x400 = blk (pa AND NOT 0x3ff)) \<and>
     (\<forall>m pa h n v. blk (pa AND NOT 0x3ff) = Some h \<and> n \<in> {1, 2, 4} \<and> (pa AND 0x3ff) + of_nat n \<le> 0x400 \<longrightarrow>
        bus_write bus n pa v m = host_put bus m (h + unat (pa AND 0x3ff)) n v)"

definition mem_write_spec ::
  "(u32 \<Rightarrow> u32) \<Rightarrow> 'm arm_bus \<Rightarrow> nat \<Rightarrow> 'm \<Rightarrow> arm_cpu \<Rightarrow> u32 \<Rightarrow> u32 \<Rightarrow> bool \<Rightarrow> (u32 \<times> u32) option \<times> 'm" where
  "mem_write_spec rd bus n m c original v priv =
     (case mem_align c original n of
        None \<Rightarrow> (Some (0x801, original), m)
      | Some va \<Rightarrow>
        (case walk_ram rd c va ACCESS_WRITE priv of
           (f, Some pa) \<Rightarrow> (None, bus_write bus n pa v m)
         | (f, None) \<Rightarrow> (Some (f, va), m)))"

lemma dwrite_fill_inv:
  assumes inv: "data_inv rd blk wblk c" and con: "ram_write_contract bus wblk"
    and w: "walk_ram rd c va ACCESS_WRITE priv = (0, Some pa)"
  shows "data_inv rd blk wblk (dwrite_fill bus m c va pa priv)"
proof (cases "host_ram_write bus")
  case None
  then show ?thesis using inv by (simp add: dwrite_fill_def)
next
  case (Some f)
  then have f: "f m (pa AND NOT 0x3ff) 0x400 = wblk (pa AND NOT 0x3ff)"
    using con by (simp add: ram_write_contract_def)
  show ?thesis
  proof (cases "wblk (pa AND NOT 0x3ff)")
    case None
    then show ?thesis using inv Some f by (simp add: dwrite_fill_def)
  next
    case h: (Some h)
    let ?d = "dwrite_fill bus m c va pa priv"
    have d: "?d = c\<lparr>dwrite := (dwrite c)(dread_slot va priv :=
       \<lparr>hb_host = Some h, hb_tag = dread_tag va priv, hb_gen = tlb_gen c\<rparr>)\<rparr>"
      using Some f h by (simp add: dwrite_fill_def)
    have "mmu_inv rd ?d" using inv mmu_inv_cong [of ?d c rd] by (simp add: data_inv_def d)
    moreover have "blocks_bounded ?d (dread ?d) \<and> blocks_coherent ACCESS_READ rd blk ?d (dread ?d)"
      using inv blocks_cong [of ?d c] by (simp add: data_inv_def d)
    moreover have "blocks_coherent ACCESS_WRITE rd wblk ?d (dwrite ?d) \<and> blocks_bounded ?d (dwrite ?d)"
      using fill_coherent [of ACCESS_WRITE rd wblk c "dwrite c" va priv pa h ?d] inv w h
      by (simp add: data_inv_def d)
    ultimately show ?thesis by (simp add: data_inv_def)
  qed
qed

lemma dwrite_hit_sound:
  assumes inv: "data_inv rd blk wblk c" and h: "dwrite_hit bus c va n priv = (Some p, c')"
  obtains pa h where "walk_ram rd c va ACCESS_WRITE priv = (0, Some pa)" "wblk (pa AND NOT 0x3ff) = Some h"
    "p = h + unat (va AND 0x3ff)" "(va AND 0x3ff) + of_nat n \<le> 0x400" "c' = c\<lparr>dwrite_hits := dwrite_hits c + 1\<rparr>"
proof -
  let ?e = "dwrite c (dread_slot va priv)"
  obtain hh where e: "hb_host ?e = Some hh" "hb_tag ?e = dread_tag va priv" "hb_gen ?e = tlb_gen c"
    "p = hh + unat (va AND 0x3ff)" "(va AND 0x3ff) + of_nat n \<le> 0x400" "c' = c\<lparr>dwrite_hits := dwrite_hits c + 1\<rparr>"
    using h by (auto simp: dwrite_hit_def Let_def split: option.splits if_splits)
  moreover obtain pa where "walk_ram rd c va ACCESS_WRITE priv = (0, Some pa)" "wblk (pa AND NOT 0x3ff) = Some hh"
    using inv e unfolding data_inv_def blocks_coherent_def by blast
  ultimately show ?thesis using that by blast
qed

lemma dwrite_hit_none:
  "dwrite_hit bus c va n priv = (None, c') \<Longrightarrow> c' = c \<or> c' = c\<lparr>dwrite_misses := dwrite_misses c + 1\<rparr>"
  by (auto simp: dwrite_hit_def Let_def split: option.splits if_splits)

lemma dwrite_fill_frame:
  "regs (dwrite_fill bus m c va pa priv) = regs c" "cpsr (dwrite_fill bus m c va pa priv) = cpsr c"
  "abort_state (dwrite_fill bus m c va pa priv) = abort_state c"
  "cp15 (dwrite_fill bus m c va pa priv) = cp15 c"
  by (simp_all add: dwrite_fill_def abort_state_def split: option.splits)

lemma mem_write_single:
  assumes pure: "\<And>a. read32 bus a m = (rd a, m)" and inv: "data_inv rd blk wblk c"
    and con: "ram_write_contract bus wblk" and n: "n \<in> {1, 2, 4}"
    and al: "mem_align c original n = Some va" and nc: "\<not> mem_crosses_page va n"
    and r: "mem_w_as bus n m c original v priv = (c', m')"
    and s: "mem_write_spec rd bus n m c original v priv = (ab, m2)"
  shows "m' = m2 \<and> abort_state c' = abort_state (latched c ab) \<and>
    regs c' = regs c \<and> cpsr c' = cpsr c \<and> data_inv rd blk wblk c'"
proof (cases "dwrite_hit bus c va n priv")
  case (Pair hit c1)
  show ?thesis
  proof (cases hit)
    case (Some p)
    obtain pa h where w: "walk_ram rd c va ACCESS_WRITE priv = (0, Some pa)" and
      b: "wblk (pa AND NOT 0x3ff) = Some h" and p: "p = h + unat (va AND 0x3ff)" and
      le: "(va AND 0x3ff) + of_nat n \<le> 0x400" and c1: "c1 = c\<lparr>dwrite_hits := dwrite_hits c + 1\<rparr>"
      by (rule dwrite_hit_sound [OF inv Pair [unfolded Some]])
    have "pa AND 0x3ff = va AND 0x3ff" by (rule walk_low_bits [OF w])
    then have "bus_write bus n pa v m = host_put bus m p n v"
      using con b n le p by (simp add: ram_write_contract_def)
    moreover have "data_inv rd blk wblk c1" using inv data_inv_cong [of c1 c] by (simp add: c1)
    ultimately show ?thesis using r s Pair Some nc
      by (auto simp: mem_w_as_def mem_write_spec_def al w c1 latched_def abort_state_def Let_def)
  next
    case None
    have c1: "c1 = c \<or> c1 = c\<lparr>dwrite_misses := dwrite_misses c + 1\<rparr>" using dwrite_hit_none Pair None by simp
    have i1: "data_inv rd blk wblk c1" using inv c1 data_inv_cong [of c1 c] by auto
    have w1: "walk_ram rd c1 = walk_ram rd c" by (rule walk_ram_regs) (use c1 in auto)
    have a1: "abort_state c1 = abort_state c" "regs c1 = regs c" "cpsr c1 = cpsr c"
      using c1 by (auto simp: abort_state_def)
    obtain f pa c2 m1 where t: "arm_mmu_translate bus m c1 va ACCESS_WRITE priv = (f, pa, c2, m1)"
      by (cases "arm_mmu_translate bus m c1 va ACCESS_WRITE priv") auto
    note td = translate_data_inv [OF pure i1 t] translate_frame [OF t]
    have wd: "walk_ram rd c va ACCESS_WRITE priv = (f, pa)" using td w1 by simp
    have nn: "(pa = None) = (f \<noteq> 0)" using walk_ram_none [of rd c va ACCESS_WRITE priv] wd by simp
    show ?thesis
    proof (cases "f = 0")
      case True
      then obtain q where q: "pa = Some q" "walk_ram rd c va ACCESS_WRITE priv = (0, Some q)"
        using nn wd by (cases pa) auto
      have q2: "walk_ram rd c2 va ACCESS_WRITE priv = (0, Some q)"
        using q td walk_ram_regs [of c2 c1 rd] w1 by simp
      let ?m = "bus_write bus n q v m"
      have "c' = dwrite_fill bus ?m c2 va q priv" "m' = ?m"
        using r Pair None nc t q True td by (auto simp: mem_w_as_def al Let_def)
      moreover have "data_inv rd blk wblk (dwrite_fill bus ?m c2 va q priv)"
        by (rule dwrite_fill_inv [OF _ con q2]) (use td in simp)
      ultimately show ?thesis
        using s td q by (auto simp: mem_write_spec_def al Let_def dwrite_fill_frame latched_def a1)
    next
      case False
      then have q: "walk_ram rd c va ACCESS_WRITE priv = (f, None)"
        using nn wd by (cases pa) auto
      have "c' = note_abort c2 f va" "m' = m"
        using r Pair None nc t False td by (auto simp: mem_w_as_def al Let_def)
      moreover have "abort_state c2 = abort_state c" "regs c2 = regs c" "cpsr c2 = cpsr c" using td by (simp_all add: a1)
      ultimately show ?thesis
        using s td q abort_state_note_cong [of c2 c f va]
        by (auto simp: mem_write_spec_def al latched_def)
    qed
  qed
qed

text \<open>
  C7. The data-write path is exact in the same sense: a store that stays inside a page performs
  the bus write at the walked address or latches the walk's fault with the machine untouched.
\<close>

theorem mem_write_is_walk_and_bus:
  assumes "\<And>a. read32 bus a m = (rd a, m)" and "data_inv rd blk wblk c"
    and "ram_write_contract bus wblk" and "n \<in> {1, 2, 4}"
    and "\<And>va. mem_align c original n = Some va \<Longrightarrow> \<not> mem_crosses_page va n"
    and "mem_w_as bus n m c original v priv = (c', m')"
    and "mem_write_spec rd bus n m c original v priv = (ab, m2)"
  shows "m' = m2 \<and> abort_state c' = abort_state (latched c ab) \<and>
    regs c' = regs c \<and> cpsr c' = cpsr c \<and> data_inv rd blk wblk c'"
proof (cases "mem_align c original n")
  case None
  then show ?thesis
    using assms(2,6,7) by (auto simp: mem_w_as_def mem_write_spec_def note_alignment_abort_def latched_def)
next
  case (Some va)
  show ?thesis
    by (rule mem_write_single [OF assms(1-4) Some assms(5) [OF Some] assms(6,7)])
qed

subsection \<open>A RAM with host pointers\<close>

text \<open>
  A bus that is plain RAM seen through both interfaces, the physical address being the host
  address: the simplest machine that keeps both contracts.
\<close>

definition ram_bytes :: "nat \<Rightarrow> (nat \<Rightarrow> u8) \<Rightarrow> nat \<Rightarrow> u8 list" where
  "ram_bytes n m a = map (\<lambda>i. m (a + i)) [0..<n]"

definition ram_store :: "nat \<Rightarrow> nat \<Rightarrow> u32 \<Rightarrow> (nat \<Rightarrow> u8) \<Rightarrow> nat \<Rightarrow> u8" where
  "ram_store n a v m = fold (\<lambda>i m. m(a + i := ucast (drop_bit (8 * i) v))) [0..<n] m"

definition ram_bus :: "(nat \<Rightarrow> u8) arm_bus" where
  "ram_bus = \<lparr>
     read32 = (\<lambda>a m. (le_get (ram_bytes 4 m (unat a)), m)),
     read16 = (\<lambda>a m. (le_get (ram_bytes 2 m (unat a)), m)),
     read8 = (\<lambda>a m. (le_get (ram_bytes 1 m (unat a)), m)),
     write32 = (\<lambda>a v m. ram_store 4 (unat a) v m),
     write16 = (\<lambda>a v m. ram_store 2 (unat a) (ucast v) m),
     write8 = (\<lambda>a v m. ram_store 1 (unat a) (ucast v) m),
     host_ram = Some (\<lambda>m a len. Some (unat a)), host_ram_write = Some (\<lambda>m a len. Some (unat a)),
     wait_for_interrupt = None, privileged_svc_handler = None,
     host_load = (\<lambda>m p. m p), host_store = (\<lambda>m p b. m(p := b))\<rparr>"

lemma ucast_le_get: "length bs * 8 \<le> LENGTH('a) \<Longrightarrow> LENGTH('a) \<le> LENGTH('b) \<Longrightarrow>
   (ucast (le_get bs :: 'a::len word) :: 'b::len word) = le_get bs"
  by (rule bit_word_eqI) (auto simp: bit_ucast_iff bit_le_get)

lemma bus_read_ram: "n \<in> {1, 2, 4} \<Longrightarrow> bus_read ram_bus n a m = (le_get (ram_bytes n m (unat a)), m)"
  by (auto simp: bus_read_def ram_bus_def ucast_le_get ram_bytes_def)

lemma ucast_byte_ucast:
  "8 * i + 8 \<le> LENGTH('b) \<Longrightarrow> 8 * i + 8 \<le> 32 \<Longrightarrow>
   (ucast (drop_bit (8 * i) (ucast (ucast v :: 'b::len word) :: u32)) :: u8) = ucast (drop_bit (8 * i) v)"
  by (rule bit_word_eqI) (auto simp: bit_ucast_iff bit_drop_bit_eq)

lemma upt_sizes: "[0..<4] = [0, 1, 2, 3::nat]" "[0..<2] = [0, 1::nat]" "[0..<1] = [0::nat]"
  by (simp_all add: upt_rec)

lemma bus_write_ram: "n \<in> {1, 2, 4} \<Longrightarrow> bus_write ram_bus n a v m = ram_store n (unat a) v m"
  using ucast_byte_ucast [of 0 v, where 'b=16] ucast_byte_ucast [of 1 v, where 'b=16] 
    ucast_byte_ucast [of 0 v, where 'b=8]
  by (auto simp: bus_write_def ram_bus_def ram_store_def upt_sizes)

lemma host_get_ram: "host_get ram_bus m p n = le_get (ram_bytes n m p)"
  by (simp add: host_get_def ram_bus_def ram_bytes_def)

lemma host_put_ram: "host_put ram_bus m p n v = ram_store n p v m"
  by (simp add: host_put_def ram_bus_def ram_store_def)

lemma ram_bus_host:
  "host_ram ram_bus = Some (\<lambda>m a len. Some (unat a))" "host_ram_write ram_bus = Some (\<lambda>m a len. Some (unat a))"
  by (simp_all add: ram_bus_def)

lemma unat_block_1k: "unat (pa AND - 0x400 :: u32) + unat (pa AND 0x3ff) = unat pa"
  using unat_block [of pa "0x3ff"] by simp

lemma ram_bus_contract: "ram_contract ram_bus (\<lambda>a. Some (unat a))"
  by (auto simp: ram_contract_def ram_bus_host bus_read_ram host_get_ram unat_block_1k)

lemma ram_bus_write_contract: "ram_write_contract ram_bus (\<lambda>a. Some (unat a))"
  by (auto simp: ram_write_contract_def ram_bus_host bus_write_ram host_put_ram unat_block_1k)

lemma demo_data_inv: "data_inv rd blk wblk demo_cpu"
proof -
  have "blocks_dead demo_cpu (dread demo_cpu)" "blocks_dead demo_cpu (dwrite demo_cpu)"
    by (simp_all add: blocks_dead_def demo_cpu_def arm_reset_def block_zero_def)
  then show ?thesis using demo_inv by (simp add: data_inv_def blocks_dead_ok)
qed

text \<open>A memory whose page table at 0 maps everything one to one, with a word at \<open>0x2000\<close>.\<close>

definition demo_mem :: "nat \<Rightarrow> u8" where
  "demo_mem a = (if a = 0 then 0x02 else if a = 1 then 0x0c
     else if a = 0x2001 then 0x11 else if a = 0x2002 then 0x22 else 0)"

lemma demo_mem_pure: "read32 ram_bus a demo_mem = (le_get (ram_bytes 4 demo_mem (unat a)), demo_mem)"
  by (simp add: ram_bus_def)

lemma demo_desc: "le_get (ram_bytes 4 demo_mem 0) = (0xc02 :: u32)"
  by (simp add: ram_bytes_def upt_sizes demo_mem_def push_bit_eq_mult)

lemma demo_walk:
  assumes "drop_bit 20 a = 0"
  shows "walk_ram (\<lambda>a. le_get (ram_bytes 4 demo_mem (unat a))) demo_cpu a acc False = (0, Some a)"
proof -
  have "\<not> bit (drop_bit 20 a) j" for j using assms by simp
  then have "\<not> bit a (20 + j)" for j by (simp add: bit_drop_bit_eq)
  then have "bit a i \<Longrightarrow> i < 20" for i by (metis le_add_diff_inverse not_less)
  then have "a AND 0xfffff = a"
    by (intro bit_word_eqI) (auto simp: bit_and_iff bit_masks)
  moreover have "mmu_l1_addr demo_cpu a = 0"
    by (simp add: mmu_l1_addr_def mmu_use_ttbr0_def demo_cpu_def cp15_zero_def assms)
  ultimately show ?thesis
    by (cases acc) (simp_all add: walk_ram_eq demo_desc Let_def mmu_use_ttbr0_def mmu_walk_section_def
      access_flag_faults_def ap_permits_def xn_forbids_fetch_def demo_cpu_def cp15_zero_def drop_bit_eq_div)
qed

lemma demo_page: "drop_bit 20 (0x2000 :: u32) = 0"
  by (simp add: drop_bit_eq_div)

lemma demo_align: "mem_align demo_cpu 0x2000 4 = Some 0x2000"
  by (simp add: mem_align_def)

lemma demo_word: "bus_read ram_bus 4 0x2000 demo_mem = (0x221100, demo_mem)"
  by (simp add: bus_read_ram ram_bytes_def upt_sizes demo_mem_def push_bit_eq_mult)

theorem mem_read_is_walk_and_bus_witness:
  "fst (mem_r_as ram_bus 4 demo_mem demo_cpu 0x2000 False) = 0x221100"
proof -
  let ?rd = "\<lambda>a. le_get (ram_bytes 4 demo_mem (unat a))"
  obtain v c' m' where r: "mem_r_as ram_bus 4 demo_mem demo_cpu 0x2000 False = (v, c', m')"
    by (cases "mem_r_as ram_bus 4 demo_mem demo_cpu 0x2000 False") auto
  have s: "mem_read_spec ?rd ram_bus 4 demo_mem demo_cpu 0x2000 False = (0x221100, None, demo_mem)"
    by (simp add: mem_read_spec_def demo_align demo_walk [OF demo_page] demo_word)
  have "v = 0x221100"
    using mem_read_is_walk_and_bus [OF demo_mem_pure demo_data_inv ram_bus_contract _ _ r s]
    by (simp add: demo_align mem_crosses_page_def)
  then show ?thesis using r by simp
qed

theorem mem_write_is_walk_and_bus_witness:
  "snd (mem_w_as ram_bus 4 demo_mem demo_cpu 0x2000 0x44332211 False) 0x2003 = 0x44"
proof -
  let ?rd = "\<lambda>a. le_get (ram_bytes 4 demo_mem (unat a))"
  obtain c' m' where r: "mem_w_as ram_bus 4 demo_mem demo_cpu 0x2000 0x44332211 False = (c', m')"
    by (cases "mem_w_as ram_bus 4 demo_mem demo_cpu 0x2000 0x44332211 False") auto
  have s: "mem_write_spec ?rd ram_bus 4 demo_mem demo_cpu 0x2000 0x44332211 False =
      (None, ram_store 4 0x2000 0x44332211 demo_mem)"
    by (simp add: mem_write_spec_def demo_align demo_walk [OF demo_page] bus_write_ram)
  have "m' = ram_store 4 0x2000 0x44332211 demo_mem"
    using mem_write_is_walk_and_bus [OF demo_mem_pure demo_data_inv ram_bus_write_contract _ _ r s]
    by (simp add: demo_align mem_crosses_page_def)
  moreover have "ram_store 4 0x2000 0x44332211 demo_mem 0x2003 = 0x44"
    by (simp add: ram_store_def upt_sizes drop_bit_eq_div)
  ultimately show ?thesis using r by simp
qed

subsection \<open>Accesses that cross a page\<close>

text \<open>
  The reference for a split load: every byte is translated on its own. The first byte that faults
  is the one reported; \<open>None\<close> if none does.
\<close>

fun first_fault :: "(u32 \<Rightarrow> u32) \<Rightarrow> arm_cpu \<Rightarrow> u32 \<Rightarrow> bool \<Rightarrow> nat \<Rightarrow> nat \<Rightarrow> (u32 \<times> u32) option" where
  "first_fault rd c va priv i 0 = None"
| "first_fault rd c va priv i (Suc k) =
     (case walk_ram rd c (va + of_nat i) ACCESS_READ priv of
        (f, None) \<Rightarrow> Some (f, va + of_nat i)
      | (f, Some pa) \<Rightarrow> first_fault rd c va priv (Suc i) k)"

definition walked :: "(u32 \<Rightarrow> u32) \<Rightarrow> arm_cpu \<Rightarrow> bool \<Rightarrow> u32 \<Rightarrow> u32" where
  "walked rd c priv a = the (snd (walk_ram rd c a ACCESS_READ priv))"

lemma section_low12:
  "mmu_walk_section c va acc priv l1 ss d = (f, Some pa) \<Longrightarrow> pa AND 0xfff = va AND 0xfff"
  by (auto simp: mmu_walk_section_def Let_def bit_or_iff bit_and_iff bit_masks bit_high_masks
      intro!: bit_word_eqI split: if_splits)

lemma page_low12:
  "mmu_walk_page c va acc priv d l2 = (f, Some pa) \<Longrightarrow> pa AND 0xfff = va AND 0xfff"
  by (auto simp: mmu_walk_page_def Let_def bit_or_iff bit_and_iff bit_masks bit_high_masks
      intro!: bit_word_eqI split: if_splits prod.splits)

lemma walk_low12:
  "walk_ram rd c va acc priv = (f, Some pa) \<Longrightarrow> pa AND 0xfff = va AND 0xfff"
  unfolding walk_ram_eq by (auto simp: Let_def split: if_splits dest: section_low12 page_low12)

lemma page_of_walk:
  assumes "walk_ram rd c a0 acc priv = (0, Some pa0)" and "drop_bit 10 a0 = drop_bit 10 a"
  shows "walk_ram rd c a acc priv = (0, Some ((pa0 AND NOT 0xfff) OR (a AND 0xfff)))"
proof -
  let ?pa = "(pa0 AND NOT 0x3ff) OR (a AND 0x3ff)"
  have w: "walk_ram rd c a acc priv = (0, Some ?pa)"
    using walk_ram_block [OF assms(2), of rd c acc priv] assms(1) by simp
  have l: "?pa AND 0xfff = a AND 0xfff" using walk_low12 [OF w] .
  have "?pa = (?pa AND NOT 0xfff) OR (?pa AND 0xfff)"
    by (rule bit_word_eqI) (auto simp: bit_or_iff bit_and_iff bit_neg_masks bit_masks)
  also have "?pa AND NOT 0xfff = pa0 AND NOT 0xfff"
    by (rule bit_word_eqI) (auto simp: bit_or_iff bit_and_iff bit_neg_masks bit_masks)
  finally show ?thesis using w l by simp
qed

lemma low_mod: "unat (a AND 0x3ff :: u32) = unat a mod 1024" "unat (a AND 0xfff :: u32) = unat a mod 4096"
  using unsigned_take_bit_eq [where 'a=nat, of 10 a] unsigned_take_bit_eq [where 'a=nat, of 12 a]
  by (simp_all add: take_bit_eq_mask [where 'a=u32] mask_eq_exp_minus_1 take_bit_eq_mod)

lemma next_in_block:
  assumes "a AND 0x3ff \<noteq> (0x3ff :: u32)"
  shows "drop_bit 10 (a + 1) = drop_bit 10 a"
proof -
  have m: "unat a mod 1024 \<noteq> 1023"
    using assms low_mod(1) [of a] word_unat_eq_iff [of "a AND 0x3ff" "0x3ff"] by simp
  then have "unat a \<noteq> 4294967295" by auto
  then have "unat a + 1 < 2 ^ 32" using unsigned_less [where 'a=nat, of a] by simp
  then have "unat (a + 1) = unat a + 1" by (simp add: unat_plus_if')
  moreover have "(unat a + 1) div 1024 = unat a div 1024" using m by (simp add: div_Suc mod_Suc)
  ultimately have "unat (drop_bit 10 (a + 1)) = unat (drop_bit 10 a)"
    by (simp add: drop_bit_eq_div unat_div)
  then show ?thesis by (simp add: word_unat_eq_iff)
qed

lemma next_page:
  assumes "a AND 0xfff = (0xfff :: u32)"
  shows "(a + 1) AND 0xfff = 0"
proof -
  have m: "unat a mod 4096 = 4095" using assms low_mod(2) [of a] by simp
  have "unat (a + 1) mod 4096 = (unat a + 1) mod 4096"
    by (simp add: unat_word_ariths(1) mod_mod_cancel)
  then have "unat ((a + 1) AND 0xfff) = 0" using m low_mod(2) [of "a + 1"] by (simp add: mod_Suc)
  then show ?thesis by (simp add: unat_eq_0)
qed

definition near_edge :: "u32 \<Rightarrow> nat \<Rightarrow> bool" where
  "near_edge va n \<longleftrightarrow> (\<forall>j<n. (va + of_nat j) AND 0x3ff \<noteq> 0x3ff \<or> (va + of_nat j) AND 0xfff = 0xfff)"

lemma crossing_loop:
  assumes pure: "\<And>a. read32 bus a m = (rd a, m)" and r8: "\<And>a. read8 bus a m = (rb a, m)"
    and edge: "near_edge va n"
  shows "i + k = n \<Longrightarrow> data_inv rd blk wblk c \<Longrightarrow> cp15 c = p \<Longrightarrow>
    (i = 0 \<or> (va + of_nat i) AND 0xfff = 0 \<or>
      (\<exists>a0 pa0. walk_ram rd c a0 ACCESS_READ priv = (0, Some pa0) \<and>
         drop_bit 10 a0 = drop_bit 10 (va + of_nat i) \<and> page_pa = pa0 AND NOT 0xfff)) \<Longrightarrow>
    \<exists>c'. mem_read_crossing_loop bus va priv i k val page_pa c m =
        (case first_fault rd c va priv i k of
           Some (f, a) \<Rightarrow> (0, note_abort c' f a, m)
         | None \<Rightarrow> (val OR push_bit (8 * i) (le_get (map (\<lambda>j. rb (walked rd c priv (va + of_nat j))) [i..<i + k])), c', m)) \<and>
      data_inv rd blk wblk c' \<and> abort_state c' = abort_state c \<and> cp15 c' = p \<and>
      regs c' = regs c \<and> cpsr c' = cpsr c"
proof (induction k arbitrary: i val page_pa c)
  case 0
  then show ?case by auto
next
  case (Suc k)
  let ?a = "va + of_nat i"
  have step: "\<exists>c1. (if i = 0 \<or> ?a AND 0xfff = 0
             then (case arm_mmu_translate bus m c ?a ACCESS_READ priv of
                     (f, pa, c, m) \<Rightarrow> (f, the pa AND NOT 0xfff, c, m))
             else (0, page_pa, c, m)) = 
      (fst (walk_ram rd c ?a ACCESS_READ priv), walked rd c priv ?a AND NOT 0xfff, c1, m) \<and>
     data_inv rd blk wblk c1 \<and> abort_state c1 = abort_state c \<and> cp15 c1 = p \<and> regs c1 = regs c \<and> cpsr c1 = cpsr c"
  proof (cases "i = 0 \<or> ?a AND 0xfff = 0")
    case True
    obtain f pa c1 m1 where t: "arm_mmu_translate bus m c ?a ACCESS_READ priv = (f, pa, c1, m1)"
      by (cases "arm_mmu_translate bus m c ?a ACCESS_READ priv") auto
    have td: "(f, pa) = walk_ram rd c ?a ACCESS_READ priv" "m1 = m" "cp15 c1 = cp15 c" "data_inv rd blk wblk c1"
      using translate_data_inv [OF pure Suc.prems(2) t] by simp_all
    have "f = fst (walk_ram rd c ?a ACCESS_READ priv)" "pa = snd (walk_ram rd c ?a ACCESS_READ priv)"
      using td(1) by (metis fst_conv, metis snd_conv)
    then show ?thesis
      using True t td translate_frame [OF t] Suc.prems(3) by (auto simp: walked_def)
  next
    case False
    then obtain a0 pa0 where "walk_ram rd c a0 ACCESS_READ priv = (0, Some pa0)"
      "drop_bit 10 a0 = drop_bit 10 ?a" "page_pa = pa0 AND NOT 0xfff" using Suc.prems(4) by blast
    moreover from page_of_walk [OF this(1,2)]
    have w: "walk_ram rd c ?a ACCESS_READ priv = (0, Some ((pa0 AND NOT 0xfff) OR (?a AND 0xfff)))" .
    moreover have "((pa0 AND NOT 0xfff) OR (?a AND 0xfff)) AND NOT 0xfff = pa0 AND NOT 0xfff"
      by (rule bit_word_eqI) (auto simp: bit_or_iff bit_and_iff bit_neg_masks bit_masks)
    ultimately show ?thesis using False Suc.prems(2,3) by (auto simp: walked_def)
  qed
  then obtain c1 where s: "(if i = 0 \<or> ?a AND 0xfff = 0
             then (case arm_mmu_translate bus m c ?a ACCESS_READ priv of
                     (f, pa, c, m) \<Rightarrow> (f, the pa AND NOT 0xfff, c, m))
             else (0, page_pa, c, m)) = 
      (fst (walk_ram rd c ?a ACCESS_READ priv), walked rd c priv ?a AND NOT 0xfff, c1, m)"
    and c1: "data_inv rd blk wblk c1" "abort_state c1 = abort_state c" "cp15 c1 = p" "regs c1 = regs c" "cpsr c1 = cpsr c"
    by blast
  have wc: "walk_ram rd c1 = walk_ram rd c" by (rule walk_ram_regs) (simp_all add: c1(3) Suc.prems(3))
  have wk: "walked rd c1 = walked rd c" by (intro ext) (simp add: walked_def wc)
  have ff: "first_fault rd c1 va priv j l = first_fault rd c va priv j l" for j l
    by (induction l arbitrary: j) (auto simp: wc split: option.splits prod.splits)
  show ?case
  proof (cases "walk_ram rd c ?a ACCESS_READ priv")
    case (Pair f pa)
    have nn: "(pa = None) = (f \<noteq> 0)" using walk_ram_none [of rd c ?a ACCESS_READ priv] Pair by simp
    show ?thesis
    proof (cases pa)
      case None
      then have "mem_read_crossing_loop bus va priv i (Suc k) val page_pa c m = (0, note_abort c1 f ?a, m)"
        using nn by (simp add: s Pair Let_def del: of_nat_Suc)
      then show ?thesis using Pair None c1 by auto
    next
      case (Some q)
      then have f0: "f = 0" using nn by simp
      have wq: "walked rd c priv ?a = q" using Pair Some by (simp add: walked_def)
      have q: "(q AND NOT 0xfff) OR (?a AND 0xfff) = q"
        using page_of_walk [of rd c ?a ACCESS_READ priv q ?a] Pair Some f0 by simp
      let ?val = "val OR push_bit (8 * i) (ucast (rb q))"
      have nxt: "Suc i = 0 \<or> (va + of_nat (Suc i)) AND 0xfff = 0 \<or>
        (\<exists>a0 pa0. walk_ram rd c1 a0 ACCESS_READ priv = (0, Some pa0) \<and>
         drop_bit 10 a0 = drop_bit 10 (va + of_nat (Suc i)) \<and> (q AND NOT 0xfff) = pa0 AND NOT 0xfff)"
      proof -
        have sn: "va + of_nat (Suc i) = ?a + 1" by (simp add: add.commute add.left_commute)
        have "i < n" using Suc.prems(1) by simp
        then have "?a AND 0x3ff \<noteq> 0x3ff \<or> ?a AND 0xfff = 0xfff" using edge by (simp add: near_edge_def)
        then show ?thesis
        proof (cases "?a AND 0xfff = 0xfff")
          case True
          then show ?thesis unfolding sn using next_page by blast
        next
          case False
          with \<open>?a AND 0x3ff \<noteq> 0x3ff \<or> ?a AND 0xfff = 0xfff\<close> have "?a AND 0x3ff \<noteq> 0x3ff" by simp
          from next_in_block [OF this]
          have "walk_ram rd c1 ?a ACCESS_READ priv = (0, Some q) \<and> drop_bit 10 ?a = drop_bit 10 (?a + 1) \<and>
            (q AND NOT 0xfff) = q AND NOT 0xfff" using Pair Some f0 wc by simp
          then show ?thesis unfolding sn by blast
        qed
      qed
      obtain c' where ih: "mem_read_crossing_loop bus va priv (Suc i) k ?val (q AND NOT 0xfff) c1 m =
        (case first_fault rd c1 va priv (Suc i) k of
           Some (f, a) \<Rightarrow> (0, note_abort c' f a, m)
         | None \<Rightarrow> (?val OR push_bit (8 * Suc i) (le_get (map (\<lambda>j. rb (walked rd c1 priv (va + of_nat j))) [Suc i..<Suc i + k])), c', m))"
        "data_inv rd blk wblk c'" "abort_state c' = abort_state c1" "cp15 c' = p" "regs c' = regs c1" "cpsr c' = cpsr c1"
        using Suc.IH [OF _ c1(1) c1(3) nxt, of ?val] Suc.prems(1) by auto
      have "mem_read_crossing_loop bus va priv i (Suc k) val page_pa c m =
          mem_read_crossing_loop bus va priv (Suc i) k ?val (q AND NOT 0xfff) c1 m"
        using q by (simp add: s Pair f0 wq r8 Let_def del: of_nat_Suc)
      moreover have "[i..<i + Suc k] = i # [Suc i..<Suc i + k]" by (simp add: upt_conv_Cons)
      moreover have "push_bit (8 * i) (ucast (rb q) OR push_bit 8 x) = push_bit (8 * i) (ucast (rb q)) OR push_bit (8 * Suc i) x"
        for x :: u32 by (simp add: push_bit_or push_bit_push_bit add.commute)
      moreover have "first_fault rd c va priv i (Suc k) = first_fault rd c va priv (Suc i) k"
        using Pair Some by simp
      ultimately show ?thesis
        using ih c1 by (intro exI [of _ c']) (auto simp: wk wq ff or.assoc split: option.splits simp del: of_nat_Suc)
    qed
  qed
qed

lemma unat_add_small_mod: "d dvd 2 ^ 32 \<Longrightarrow> unat ((va :: u32) + of_nat j) mod d = (unat va + j) mod d"
proof -
  assume d: "d dvd 2 ^ 32"
  have "unat (va + of_nat j) = (unat va + j mod 2 ^ 32) mod 2 ^ 32"
    by (simp add: unat_word_ariths(1) unat_of_nat)
  then show ?thesis
    using d by (simp add: mod_mod_cancel mod_add_right_eq)
qed

lemma near_edge_crossing:
  assumes "mem_crosses_page va n" and "n \<le> 4"
  shows "near_edge va n"
proof -
  let ?x = "unat va mod 4096"
  have x: "?x + n > 4096"
  proof -
    have "unat ((va AND 0xfff) + of_nat n) = ?x + n"
      using assms(2) by (simp add: unat_word_ariths(1) unat_of_nat low_mod)
    then show ?thesis using assms(1) by (simp add: mem_crosses_page_def word_less_nat_alt)
  qed
  show ?thesis unfolding near_edge_def
  proof (intro allI impI)
    fix j assume j: "j < n"
    have a: "unat ((va + of_nat j) AND 0x3ff) = (unat va + j) mod 1024"
      "unat ((va + of_nat j) AND 0xfff) = (unat va + j) mod 4096"
      using unat_add_small_mod [of 1024 va j] unat_add_small_mod [of 4096 va j] by (simp_all add: low_mod)
    have "(unat va + j) mod 1024 = (?x + j) mod 1024" 
      using mod_mod_cancel [of 1024 4096 "unat va"] mod_add_left_eq [of "unat va" 1024 j]
        mod_add_left_eq [of ?x 1024 j] by simp
    moreover have "(unat va + j) mod 4096 = (?x + j) mod 4096" by (simp add: mod_add_left_eq)
    moreover have "(?x + j) mod 1024 = 1023 \<longrightarrow> ?x + j = 4095"
    proof -
      have "?x < 4096" by simp
      then have "?x + j \<in> {4093, 4094, 4095, 4096, 4097, 4098}" using x j assms(2) by auto
      then show ?thesis by auto
    qed
    ultimately have "(unat va + j) mod 1024 \<noteq> 1023 \<or> (unat va + j) mod 4096 = 4095" by fastforce
    then show "(va + of_nat j) AND 0x3ff \<noteq> 0x3ff \<or> (va + of_nat j) AND 0xfff = 0xfff"
      using a by (auto simp: word_unat_eq_iff)
  qed
qed

text \<open>
  A load that crosses a page is the byte-by-byte load it stands for: with both pages in plain
  memory, its value is assembled from bytes each translated on its own, and if one of them faults
  the load returns zero and latches exactly the fault and the address of the first byte that
  faults (on the second page, its first byte), although the code translates once per page.
\<close>

theorem crossing_read_bytewise:
  assumes "\<And>a. read32 bus a m = (rd a, m)" and "\<And>a. read8 bus a m = (rb a, m)"
    and "data_inv rd blk wblk c" and "mem_crosses_page va n" and "n \<le> 4"
    and "mem_read_crossing bus m c va n priv = (v, c', m')"
  shows "m' = m \<and> data_inv rd blk wblk c' \<and>
    (case first_fault rd c va priv 0 n of
       Some (f, a) \<Rightarrow> v = 0 \<and> abort_state c' = abort_state (note_abort c f a)
     | None \<Rightarrow> v = le_get (map (\<lambda>j. rb (walked rd c priv (va + of_nat j))) [0..<n]) \<and>
         abort_state c' = abort_state c)"
proof -
  obtain d where "mem_read_crossing_loop bus va priv 0 n 0 0 c m =
        (case first_fault rd c va priv 0 n of
           Some (f, a) \<Rightarrow> (0, note_abort d f a, m)
         | None \<Rightarrow> (0 OR push_bit (8 * 0) (le_get (map (\<lambda>j. rb (walked rd c priv (va + of_nat j))) [0..<0 + n])), d, m))"
    and d: "data_inv rd blk wblk d" "abort_state d = abort_state c"
    using crossing_loop [of bus m rd rb va n 0 n blk wblk c "cp15 c" priv 0 0, OF assms(1,2) near_edge_crossing [OF assms(4,5)]]
      assms(3) by auto
  then show ?thesis
    using assms(6) abort_state_note_cong [OF d(2)]
    by (auto simp: mem_read_crossing_def split: option.splits)
qed

theorem crossing_read_bytewise_witness:
  "fst (mem_read_crossing ram_bus demo_mem demo_cpu 0x1ffe 4 False) = 0x11000000"
proof -
  define rd :: "u32 \<Rightarrow> u32" where "rd = (\<lambda>a. le_get (ram_bytes 4 demo_mem (unat a)))"
  define rb :: "u32 \<Rightarrow> u8" where "rb = (\<lambda>a. le_get (ram_bytes 1 demo_mem (unat a)))"
  obtain v c' m' where r: "mem_read_crossing ram_bus demo_mem demo_cpu 0x1ffe 4 False = (v, c', m')"
    by (cases "mem_read_crossing ram_bus demo_mem demo_cpu 0x1ffe 4 False") auto
  have p: "read32 ram_bus a demo_mem = (rd a, demo_mem)" "read8 ram_bus a demo_mem = (rb a, demo_mem)" for a
    by (simp_all add: ram_bus_def rd_def rb_def)
  have w: "walk_ram rd demo_cpu a ACCESS_READ False = (0, Some a)" if "a \<in> {0x1ffe, 0x1fff, 0x2000, 0x2001}" for a
    using that unfolding rd_def by (auto intro!: demo_walk simp: drop_bit_eq_div)
  have f: "first_fault rd demo_cpu 0x1ffe False 0 4 = None"
    by (simp add: numeral_eq_Suc w)
  have k: "mem_crosses_page 0x1ffe 4" by (simp add: mem_crosses_page_def)
  have "v = le_get (map (\<lambda>j. rb (walked rd demo_cpu False (0x1ffe + of_nat j))) [0..<4])"
    using crossing_read_bytewise [OF p demo_data_inv k _ r] f by simp
  also have "\<dots> = 0x11000000"
    by (simp add: upt_sizes walked_def w rb_def ram_bytes_def demo_mem_def push_bit_eq_mult)
  finally show ?thesis using r by simp
qed

end
