(* ===== verification/ArmAlu.thy ===== *)
theory ArmAlu
  imports ArmState
begin

unbundle bit_operations_syntax

text \<open>
  Condition codes, the barrel shifter, the adder and the data-processing group of
  \<open>core/src/arm/arm_interp.c\<close>, with the miscellaneous space that shares its encodings (BX, BLX,
  CLZ, saturating arithmetic, MRS, MSR). An instruction returns a status, the CPU and the address
  of the next instruction (\<open>next\<close>, which the caller has set to the following one).
\<close>

subsection \<open>Conditions\<close>

definition arm_cond_passed :: "arm_cpu \<Rightarrow> u32 \<Rightarrow> bool" where
  "arm_cond_passed c cond =
     (let n = get_flag c CPSR_N; z = get_flag c CPSR_Z;
          cf = get_flag c CPSR_C; v = get_flag c CPSR_V;
          k = cond AND 0xf
      in if k = 0x0 then z
         else if k = 0x1 then \<not> z
         else if k = 0x2 then cf
         else if k = 0x3 then \<not> cf
         else if k = 0x4 then n
         else if k = 0x5 then \<not> n
         else if k = 0x6 then v
         else if k = 0x7 then \<not> v
         else if k = 0x8 then cf \<and> \<not> z
         else if k = 0x9 then \<not> cf \<or> z
         else if k = 0xa then n = v
         else if k = 0xb then n \<noteq> v
         else if k = 0xc then \<not> z \<and> n = v
         else if k = 0xd then z \<or> n \<noteq> v
         else True)"

subsection \<open>Shifts\<close>

definition ror32 :: "u32 \<Rightarrow> nat \<Rightarrow> u32" where
  "ror32 v n0 = (let n = n0 mod 32 in if n \<noteq> 0 then drop_bit n v OR push_bit (32 - n) v else v)"

definition sign_extend8 :: "u32 \<Rightarrow> u32" where
  "sign_extend8 v = ((v AND 0xff) XOR 0x80) - 0x80"

definition sign_extend16 :: "u32 \<Rightarrow> u32" where
  "sign_extend16 v = ((v AND 0xffff) XOR 0x8000) - 0x8000"

text \<open>The shifted value and the carry-out, given the carry-in.\<close>

definition barrel_shift :: "u32 \<Rightarrow> nat \<Rightarrow> nat \<Rightarrow> bool \<Rightarrow> bool \<Rightarrow> u32 \<times> bool" where
  "barrel_shift val type amount reg_amount carry =
     (let t = type mod 4 in
      if t = 0 then
        (if amount = 0 then (val, carry)
         else if amount < 32 then (push_bit amount val, bit val (32 - amount))
         else if amount = 32 then (0, bit val 0)
         else (0, False))
      else if t = 1 then
        (if amount = 0 then
           (if reg_amount then (val, carry) else (0, bit val 31))
         else if amount < 32 then (drop_bit amount val, bit val (amount - 1))
         else if amount = 32 then (0, bit val 31)
         else (0, False))
      else if t = 2 then
        (if amount = 0 \<and> reg_amount then (val, carry)
         else if amount = 0 then (if val AND 0x80000000 \<noteq> 0 then 0xffffffff else 0, bit val 31)
         else if amount < 32 then (signed_drop_bit amount val, bit val (amount - 1))
         else (if val AND 0x80000000 \<noteq> 0 then 0xffffffff else 0, bit val 31))
      else
        (if amount = 0 then
           (if reg_amount then (val, carry)
            else (drop_bit 1 val OR push_bit 31 (if carry then 1 else 0), bit val 0))
         else
           let a = amount mod 32
           in if a = 0 then (val, bit val 31)
              else (ror32 val a, bit val (a - 1))))"

definition dp_operand2 :: "arm_cpu \<Rightarrow> u32 \<Rightarrow> u32 \<Rightarrow> bool \<Rightarrow> u32 \<times> bool" where
  "dp_operand2 c pc insn carry =
     (if bit insn 25 then
        (let imm = insn AND 0xff;
             rot = fld insn 8 0xf * 2;
             val = ror32 imm rot
         in (val, if rot \<noteq> 0 then bit val 31 else carry))
      else
        (let rm = fld insn 0 0xf;
             type = fld insn 5 3
         in if bit insn 4 then
              (let rs = fld insn 8 0xf;
                   amt = unat (reg_read c pc rs AND 0xff)
               in barrel_shift (reg_read c pc rm) type amt True carry)
            else
              barrel_shift (reg_read c pc rm) type (fld insn 7 0x1f) False carry))"

subsection \<open>The adder\<close>

definition alu_add :: "arm_cpu \<Rightarrow> u32 \<Rightarrow> u32 \<Rightarrow> u32 \<Rightarrow> bool \<Rightarrow> u32 \<times> arm_cpu" where
  "alu_add c a b cin sf =
     (let u = ucast a + ucast b + ucast cin :: u64;
          r = ucast u :: u32
      in (r, if sf then
               set_flag (set_flag (set_flag (set_flag c
                 CPSR_N (bit r 31))
                 CPSR_Z (r = 0))
                 CPSR_C (bit u 32))
                 CPSR_V (drop_bit 31 (NOT (a XOR b) AND (a XOR r)) \<noteq> 0)
             else c))"

definition alu_sub :: "arm_cpu \<Rightarrow> u32 \<Rightarrow> u32 \<Rightarrow> u32 \<Rightarrow> bool \<Rightarrow> u32 \<times> arm_cpu" where
  "alu_sub c a b cin sf = alu_add c a (NOT b) cin sf"

definition alu_logic_flags :: "arm_cpu \<Rightarrow> u32 \<Rightarrow> bool \<Rightarrow> bool \<Rightarrow> arm_cpu" where
  "alu_logic_flags c r carry sf =
     (if \<not> sf then c
      else set_flag (set_flag (set_flag c CPSR_N (bit r 31)) CPSR_Z (r = 0)) CPSR_C carry)"

subsection \<open>The miscellaneous space\<close>

text \<open>The counting loop of CLZ, at most \<open>k\<close> steps; 32 are enough for a word that is not zero.\<close>

fun clz_loop :: "nat \<Rightarrow> u32 \<Rightarrow> nat \<Rightarrow> nat" where
  "clz_loop 0 v n = n"
| "clz_loop (Suc k) v n = (if v AND 0x80000000 = 0 then clz_loop k (push_bit 1 v) (n + 1) else n)"

definition clz :: "u32 \<Rightarrow> nat" where
  "clz v = (if v = 0 then 32 else clz_loop 32 v 0)"

text \<open>QADD, QSUB, QDADD, QDSUB: the result and whether anything saturated.\<close>

definition INT32_MAX :: int where "INT32_MAX = 2 ^ 31 - 1"
definition INT32_MIN :: int where "INT32_MIN = - (2 ^ 31)"

definition sat32 :: "int \<Rightarrow> int \<times> bool" where
  "sat32 x = (if x > INT32_MAX then (INT32_MAX, True)
              else if x < INT32_MIN then (INT32_MIN, True) else (x, False))"

definition q_arith :: "nat \<Rightarrow> u32 \<Rightarrow> u32 \<Rightarrow> u32 \<times> bool" where
  "q_arith op mw nw =
     (let m = sint mw;
          (n, s1) = (if op = 2 \<or> op = 3 then sat32 (sint nw * 2) else (sint nw, False));
          (acc, s2) = sat32 (if op = 0 \<or> op = 2 then m + n else m - n)
      in (word_of_int acc, s1 \<or> s2))"

text \<open>The byte mask of an MSR field specifier.\<close>

definition psr_mask :: "u32 \<Rightarrow> u32" where
  "psr_mask fm =
     (if bit fm 0 then 0x000000ff else 0) OR (if bit fm 1 then 0x0000ff00 else 0) OR
     (if bit fm 2 then 0x00ff0000 else 0) OR (if bit fm 3 then 0xff000000 else 0)"

definition exec_mrs_msr :: "arm_cpu \<Rightarrow> u32 \<Rightarrow> u32 \<Rightarrow> arm_status \<times> arm_cpu" where
  "exec_mrs_msr c pc insn =
     (let rd = fld insn 12 0xf;
          use_spsr = bit insn 22;
          bank = arm_bank_of_mode (cpsr c);
          has_spsr = (bank \<noteq> BANK_USR)
      in if insn AND 0x0fbf0fff = 0x010f0000 then
           (if use_spsr \<and> \<not> has_spsr then (ARM_UNDEFINED, c)
            else (ARM_OK, c\<lparr>regs := (regs c)(rd := (if use_spsr then spsr c bank else cpsr c))\<rparr>))
         else if insn AND 0x0fb0fff0 = 0x0120f000 \<or> insn AND 0x0fb0f000 = 0x0320f000 then
           let fm = drop_bit 16 insn AND 0xf;
               val = (if bit insn 25 then ror32 (insn AND 0xff) (fld insn 8 0xf * 2)
                      else reg_read c pc (fld insn 0 0xf));
               k = psr_mask fm
           in if use_spsr then
                (if \<not> has_spsr then (ARM_UNDEFINED, c)
                 else (ARM_OK, c\<lparr>spsr := (spsr c)(bank := (spsr c bank AND NOT k) OR (val AND k))\<rparr>))
              else
                let k = (if \<not> has_spsr \<and> cpsr c AND CPSR_MODE_MASK = MODE_USR
                         then k AND 0xff000000 else k);
                    newcpsr = (cpsr c AND NOT k) OR (val AND k)
                in if k AND CPSR_MODE_MASK \<noteq> 0 \<and> \<not> arm_mode_is_valid newcpsr then (ARM_UNDEFINED, c)
                   else if k AND 0x1f \<noteq> 0 \<and>
                           newcpsr AND CPSR_MODE_MASK \<noteq> cpsr c AND CPSR_MODE_MASK
                   then (ARM_OK, restore_cpsr c newcpsr)
                   else (ARM_OK, c\<lparr>cpsr := newcpsr\<rparr>)
         else (ARM_UNDEFINED, c))"

definition exec_misc :: "arm_cpu \<Rightarrow> u32 \<Rightarrow> u32 \<Rightarrow> u32 \<Rightarrow> arm_status \<times> arm_cpu \<times> u32" where
  "exec_misc c pc insn next =
     (let rm = fld insn 0 0xf in
      if insn AND 0x0ffffff0 = 0x012fff10 then
        (let t = reg_read c pc rm
         in if t AND 3 = 2 then (ARM_UNDEFINED, c, next)
            else (ARM_OK, (if bit t 0 then c\<lparr>cpsr := cpsr c OR CPSR_T\<rparr> else c), t AND NOT 1))
      else if insn AND 0x0ffffff0 = 0x012fff30 then
        (if rm = 15 then (ARM_UNDEFINED, c, next)
         else
           let t = reg_read c pc rm
           in if t AND 3 = 2 then (ARM_UNDEFINED, c, next)
              else
                let c = c\<lparr>regs := (regs c)(14 := pc + 4)\<rparr>
                in (ARM_OK, (if bit t 0 then c\<lparr>cpsr := cpsr c OR CPSR_T\<rparr> else c), t AND NOT 1))
      else if insn AND 0x0fff0ff0 = 0x016f0f10 then
        (ARM_OK, c\<lparr>regs := (regs c)(fld insn 12 0xf := of_nat (clz (reg_read c pc rm)))\<rparr>, next)
      else if insn AND 0x0f900ff0 = 0x01000050 then
        (let (r, sat) = q_arith (fld insn 21 3) (reg_read c pc rm) (reg_read c pc (fld insn 16 0xf));
             c = c\<lparr>regs := (regs c)(fld insn 12 0xf := r)\<rparr>
         in (ARM_OK, (if sat then c\<lparr>cpsr := cpsr c OR CPSR_Q\<rparr> else c), next))
      else (case exec_mrs_msr c pc insn of (s, c) \<Rightarrow> (s, c, next)))"

subsection \<open>Data processing\<close>

text \<open>The ALU: the result, whether it is written, and the CPU with its flags set.\<close>

definition dp_alu :: "arm_cpu \<Rightarrow> nat \<Rightarrow> bool \<Rightarrow> u32 \<Rightarrow> u32 \<Rightarrow> bool \<Rightarrow> u32 \<times> bool \<times> arm_cpu" where
  "dp_alu c opcode s a op2 shifter_carry =
     (let cin = (if get_flag c CPSR_C then 1 else 0);
          logic = (\<lambda>r. (r, True, alu_logic_flags c r shifter_carry s));
          arith = (\<lambda>(r, c). (r, True, c))
      in if opcode = 0x0 then logic (a AND op2)
         else if opcode = 0x1 then logic (a XOR op2)
         else if opcode = 0x2 then arith (alu_sub c a op2 1 s)
         else if opcode = 0x3 then arith (alu_sub c op2 a 1 s)
         else if opcode = 0x4 then arith (alu_add c a op2 0 s)
         else if opcode = 0x5 then arith (alu_add c a op2 cin s)
         else if opcode = 0x6 then arith (alu_sub c a op2 cin s)
         else if opcode = 0x7 then arith (alu_sub c op2 a cin s)
         else if opcode = 0x8 then (0, False, alu_logic_flags c (a AND op2) shifter_carry True)
         else if opcode = 0x9 then (0, False, alu_logic_flags c (a XOR op2) shifter_carry True)
         else if opcode = 0xa then (0, False, snd (alu_sub c a op2 1 True))
         else if opcode = 0xb then (0, False, snd (alu_add c a op2 0 True))
         else if opcode = 0xc then logic (a OR op2)
         else if opcode = 0xd then logic op2
         else if opcode = 0xe then logic (a AND NOT op2)
         else logic (NOT op2))"

definition exec_data_processing ::
  "arm_cpu \<Rightarrow> u32 \<Rightarrow> u32 \<Rightarrow> u32 \<Rightarrow> arm_status \<times> arm_cpu \<times> u32" where
  "exec_data_processing c pc insn next =
     (let opcode = fld insn 21 0xf;
          s = bit insn 20;
          rn = fld insn 16 0xf;
          rd = fld insn 12 0xf
      in if arch c = V7_SWIFT \<and> insn AND 0x0fb00000 = 0x03000000 then
           (let imm16 = (drop_bit 4 insn AND 0xf000) OR (insn AND 0x0fff);
                movt = bit insn 22
            in if rd = 15 then (ARM_UNDEFINED, c, next)
               else (ARM_OK, c\<lparr>regs := (regs c)(rd :=
                       (if movt then (regs c rd AND 0x0000ffff) OR push_bit 16 imm16 else imm16))\<rparr>, next))
         else if opcode \<ge> 0x8 \<and> opcode \<le> 0xb \<and> \<not> s then exec_misc c pc insn next
         else if \<not> bit insn 25 \<and> bit insn 4 \<and>
                 (rd = 15 \<or> rn = 15 \<or> fld insn 0 0xf = 15 \<or> fld insn 8 0xf = 15)
         then (ARM_UNDEFINED, c, next)
         else if (opcode < 8 \<or> opcode \<ge> 12) \<and> rd = 15 \<and> s \<and>
                 (let b = arm_bank_of_mode (cpsr c)
                  in b = BANK_USR \<or> \<not> arm_mode_is_valid (spsr c b))
         then (ARM_UNDEFINED, c, next)
         else
           let (op2, shifter_carry) = dp_operand2 c pc insn (get_flag c CPSR_C);
               a = reg_read c pc rn;
               (res, writes, c) = dp_alu c opcode s a op2 shifter_carry
           in if writes then
                let c = c\<lparr>regs := (regs c)(rd := res)\<rparr>
                in if rd = 15 then
                     let b = arm_bank_of_mode (cpsr c);
                         c = (if s \<and> b \<noteq> BANK_USR then restore_cpsr c (spsr c b) else c)
                     in (ARM_OK, c, res AND (if cpsr c AND CPSR_T \<noteq> 0 then NOT 1 else NOT 3))
                   else (ARM_OK, c, next)
              else (ARM_OK, c, next))"

definition exec_branch :: "arm_cpu \<Rightarrow> u32 \<Rightarrow> u32 \<Rightarrow> arm_status \<times> arm_cpu \<times> u32" where
  "exec_branch c pc insn =
     (let off = signed_drop_bit 6 (push_bit 8 insn);
          c = (if bit insn 24 then c\<lparr>regs := (regs c)(14 := pc + 4)\<rparr> else c)
      in (ARM_OK, c, (pc + 8 + off) AND NOT 3))"

subsection \<open>Flags of the adder\<close>

text \<open>The condition flags as booleans: N, Z, C, V.\<close>

definition nzcv :: "arm_cpu \<Rightarrow> bool \<times> bool \<times> bool \<times> bool" where
  "nzcv c = (get_flag c CPSR_N, get_flag c CPSR_Z, get_flag c CPSR_C, get_flag c CPSR_V)"

lemma alu_add_nzcv:
  "nzcv (snd (alu_add c a b cin True)) =
     (bit (fst (alu_add c a b cin True)) 31, fst (alu_add c a b cin True) = 0,
      bit (ucast a + ucast b + ucast cin :: u64) 32,
      drop_bit 31 (NOT (a XOR b) AND (a XOR fst (alu_add c a b cin True))) \<noteq> 0)"
  by (simp add: nzcv_def alu_add_def Let_def)

lemma unat_less_32: "unat (a :: u32) < 4294967296"
  using unsigned_less [where 'a=nat, of a] by simp

lemma unat_ucast_up:
  assumes "LENGTH('a) \<le> LENGTH('b)"
  shows "unat (ucast (w :: 'a::len word) :: 'b::len word) = unat w"
proof -
  have "unat w < 2 ^ LENGTH('b)"
    by (rule less_le_trans [OF unsigned_less power_increasing [OF assms]]) simp
  then show ?thesis by (simp add: unsigned_ucast_eq take_bit_nat_eq_self)
qed

lemma unat_sum64:
  "unat (ucast (a :: u32) + ucast (b :: u32) + ucast (cin :: u32) :: u64) = unat a + unat b + unat cin"
proof -
  show ?thesis
    using unat_less_32 [of a] unat_less_32 [of b] unat_less_32 [of cin]
    by (simp add: unat_word_ariths(1) unat_ucast_up)
qed

lemma alu_add_result: "fst (alu_add c a b cin sf) = a + b + cin"
  using unat_less_32 [of a] unat_less_32 [of b] unat_less_32 [of cin]
  by (intro word_unat_eq_iff [THEN iffD2])
    (simp add: alu_add_def Let_def unsigned_ucast_eq take_bit_eq_mod unat_sum64 unat_word_ariths(1) mod_add_left_eq)

lemma alu_add_carry:
  "bit (ucast (a :: u32) + ucast (b :: u32) + ucast (cin :: u32) :: u64) 32 \<longleftrightarrow> 2 ^ 32 \<le> unat a + unat b + unat cin"
  if "cin \<le> 1"
proof -
  let ?u = "ucast a + ucast b + ucast cin :: u64"
  have "unat cin \<le> 1" using that by (simp add: word_le_nat_alt)
  moreover note unat_less_32 [of a] unat_less_32 [of b]
  ultimately have "unat ?u div 2 ^ 32 \<le> 1" and u: "unat ?u = unat a + unat b + unat cin"
    by (auto simp: unat_sum64)
  moreover have "bit ?u 32 \<longleftrightarrow> odd (unat ?u div 2 ^ 32)"
    using bit_unsigned_iff [where 'a=nat, of ?u 32] bit_iff_odd [of "unat ?u" 32] by simp
  ultimately show ?thesis by (auto simp: le_Suc_eq div_greater_zero_iff)
qed

lemma sint_bounds: "- (2 ^ 31) \<le> sint (a :: u32)" "sint (a :: u32) < 2 ^ 31"
  using sint_range_size [of a] by (simp_all add: size_word.rep_eq)

lemma bit31_neg: "bit (a :: u32) 31 \<longleftrightarrow> sint a < 0"
  using bit_last_iff [of a] by simp

lemma drop31: "drop_bit 31 (w :: u32) \<noteq> 0 \<longleftrightarrow> bit w 31"
proof -
  have "bit (drop_bit 31 w) i \<longleftrightarrow> i = 0 \<and> bit w 31" for i
    by (cases "i = 0") (auto simp: bit_drop_bit_eq dest: bit_imp_le_length)
  then show ?thesis by (metis bit_0_eq bit_eq_iff bot_apply bot_bool_def)
qed

lemma word_of_int_sint:
  assumes "(r :: u32) = word_of_int x"
  obtains k where "x = sint r + 2 ^ 32 * k"
proof -
  have "take_bit 32 x = take_bit 32 (sint r)"
    using assms uint_sint [of r] by (simp add: uint_word_of_int_eq)
  then have "2 ^ 32 dvd x - sint r"
    by (simp add: take_bit_eq_mod mod_eq_dvd_iff)
  then obtain k where "x - sint r = 2 ^ 32 * k" by (elim dvdE)
  then show ?thesis using that [of k] by simp
qed

lemma int_overflow:
  fixes a b c r k :: int
  assumes "a + b + c = r + 4294967296 * k" "0 \<le> c" "c \<le> 1"
    "- 2147483648 \<le> a" "a < 2147483648" "- 2147483648 \<le> b" "b < 2147483648"
    "- 2147483648 \<le> r" "r < 2147483648"
  shows "r \<noteq> a + b + c \<longleftrightarrow> (a < 0) = (b < 0) \<and> (r < 0) \<noteq> (a < 0)"
    and "r < 0 \<longleftrightarrow> (a + b + c < 0) \<noteq> (r \<noteq> a + b + c)"
proof -
  have "k < 2" using assms by linarith
  moreover have "- 2 < k" using assms by linarith
  ultimately have k: "k = -1 \<or> k = 0 \<or> k = 1" by linarith
  show "r \<noteq> a + b + c \<longleftrightarrow> (a < 0) = (b < 0) \<and> (r < 0) \<noteq> (a < 0)"
    using k by (elim disjE) (use assms in linarith)+
  show "r < 0 \<longleftrightarrow> (a + b + c < 0) \<noteq> (r \<noteq> a + b + c)"
    using k by (elim disjE) (use assms in linarith)+
qed

lemma sint_overflow:
  fixes a b r cin :: u32
  assumes "cin \<le> 1" and "r = a + b + cin"
  shows "drop_bit 31 (NOT (a XOR b) AND (a XOR r)) \<noteq> 0 \<longleftrightarrow> sint r \<noteq> sint a + sint b + uint cin"
    and "sint r < 0 \<longleftrightarrow> (sint a + sint b + uint cin < 0) \<noteq> (sint r \<noteq> sint a + sint b + uint cin)"
proof -
  let ?x = "sint a + sint b + uint cin"
  have c: "0 \<le> uint cin" "uint cin \<le> 1" using assms(1) by (simp_all add: word_le_def)
  have "r = word_of_int ?x" by (simp add: assms(2))
  then obtain k where k: "?x = sint r + 2 ^ 32 * k" by (rule word_of_int_sint)
  note ov = int_overflow [OF k [simplified] c sint_bounds [of a, simplified] sint_bounds [of b, simplified]
      sint_bounds [of r, simplified]]
  show "drop_bit 31 (NOT (a XOR b) AND (a XOR r)) \<noteq> 0 \<longleftrightarrow> sint r \<noteq> ?x"
    unfolding ov(1) drop31 bit_and_iff bit_not_iff bit_xor_iff unfolding bit31_neg by auto
  show "sint r < 0 \<longleftrightarrow> (?x < 0) \<noteq> (sint r \<noteq> ?x)" by (rule ov(2))
qed

lemma set_flag_keep: "b AND k = 0 \<Longrightarrow> cpsr (set_flag c b on) AND k = cpsr c AND k"
  by (auto simp: set_flag_def and_or_notand)

text \<open>
  The adder computes what the ARM architecture says: the 32-bit sum with carry-in, N and Z of
  the sum, C the carry out of bit 31, V the overflow of the signed sum; the other bits of the CPSR
  and the rest of the CPU stay.
\<close>

theorem alu_add_flags:
  assumes "cin \<le> 1" and "alu_add c a b cin True = (r, c')"
  shows "r = a + b + cin \<and>
    nzcv c' = (sint r < 0, r = 0, 2 ^ 32 \<le> unat a + unat b + unat cin,
               sint r \<noteq> sint a + sint b + uint cin) \<and>
    c' = c\<lparr>cpsr := cpsr c'\<rparr> \<and> cpsr c' AND 0x0fffffff = cpsr c AND 0x0fffffff"
proof -
  have r: "r = a + b + cin" using alu_add_result [of c a b cin True] assms(2) by simp
  have "nzcv c' = (bit r 31, r = 0, bit (ucast a + ucast b + ucast cin :: u64) 32,
     drop_bit 31 (NOT (a XOR b) AND (a XOR r)) \<noteq> 0)"
    using alu_add_nzcv [of c a b cin] assms(2) by simp
  moreover have c': "c' = snd (alu_add c a b cin True)" using assms(2) by simp
  moreover have "c' = c\<lparr>cpsr := cpsr c'\<rparr>"
    unfolding c' by (simp add: alu_add_def Let_def set_flag_def)
  moreover have "cpsr c' AND 0x0fffffff = cpsr c AND 0x0fffffff"
    unfolding c' alu_add_def Let_def snd_conv if_True by (simp add: set_flag_keep)
  ultimately show ?thesis
    using r sint_overflow(1) [OF assms(1) r] alu_add_carry [OF assms(1), of a b] by (simp add: bit31_neg)
qed

theorem alu_add_flags_witness:
  "nzcv (snd (alu_add cpu_zero 0x7fffffff 0 1 True)) = (True, False, False, True)"
proof -
  obtain r c' where s: "alu_add cpu_zero 0x7fffffff 0 1 True = (r, c')" by force
  then show ?thesis using alu_add_flags [OF _ s] by simp
qed

lemma sub_as_add:
  fixes a b :: u32
  shows "a + NOT b + 1 = a - b" "sint (NOT b) = - sint b - 1" "unat a + unat (NOT b) + 1 = unat a + 2 ^ 32 - unat b"
proof -
  show "a + NOT b + 1 = a - b" by (simp add: not_eq_complement)
  have "NOT b = word_of_int (- sint b - 1)" by (simp add: not_eq_complement)
  then obtain k where "- sint b - 1 = sint (NOT b) + 2 ^ 32 * k" by (rule word_of_int_sint)
  then show "sint (NOT b) = - sint b - 1"
    using sint_bounds [of b, simplified] sint_bounds [of "NOT b", simplified] by simp
  have "NOT b = - 1 - b" by (simp add: not_eq_complement algebra_simps)
  then have "unat (NOT b) = unat (- 1 - b)" by (simp only:)
  also have "\<dots> = unat (- 1 :: u32) - unat b" by (rule unat_sub) simp
  finally have "unat (NOT b) = 2 ^ 32 - 1 - unat b" by (simp add: unsigned_minus_1_eq_mask mask_eq_exp_minus_1)
  then show "unat a + unat (NOT b) + 1 = unat a + 2 ^ 32 - unat b"
    using unat_less_32 [of b] by simp
qed

text \<open>
  After a comparison the condition codes mean what their names say: for \<open>CMP a, b\<close>, EQ is
  equality, HS, LO, HI and LS the unsigned orders, GE, LT, GT and LE the signed orders, MI the sign
  of the difference and VS its overflow.
\<close>

theorem compare_conditions:
  assumes "alu_sub c a b 1 True = (r, c')"
  shows "(arm_cond_passed c' 0x0 \<longleftrightarrow> a = b) \<and> (arm_cond_passed c' 0x1 \<longleftrightarrow> a \<noteq> b) \<and>
    (arm_cond_passed c' 0x2 \<longleftrightarrow> b \<le> a) \<and> (arm_cond_passed c' 0x3 \<longleftrightarrow> a < b) \<and>
    (arm_cond_passed c' 0x8 \<longleftrightarrow> b < a) \<and> (arm_cond_passed c' 0x9 \<longleftrightarrow> a \<le> b) \<and>
    (arm_cond_passed c' 0xa \<longleftrightarrow> sint b \<le> sint a) \<and> (arm_cond_passed c' 0xb \<longleftrightarrow> sint a < sint b) \<and>
    (arm_cond_passed c' 0xc \<longleftrightarrow> sint b < sint a) \<and> (arm_cond_passed c' 0xd \<longleftrightarrow> sint a \<le> sint b) \<and>
    (arm_cond_passed c' 0x6 \<longleftrightarrow> sint (a - b) \<noteq> sint a - sint b)"
proof -
  have s: "alu_add c a (NOT b) 1 True = (r, c')" using assms by (simp add: alu_sub_def)
  have r: "r = a - b" using alu_add_result [of c a "NOT b" 1 True] s sub_as_add(1) [of a b] by simp
  have r': "r = a + NOT b + 1" using r sub_as_add(1) [of a b] by simp
  have one: "(1 :: u32) \<le> 1" by simp
  have f: "nzcv c' = (bit r 31, r = 0, 2 ^ 32 \<le> unat a + unat (NOT b) + unat (1 :: u32),
      drop_bit 31 (NOT (a XOR NOT b) AND (a XOR r)) \<noteq> 0)"
    using alu_add_nzcv [of c a "NOT b" 1] s alu_add_carry [OF one, of a "NOT b"] by simp
  have v: "get_flag c' CPSR_V \<longleftrightarrow> sint r \<noteq> sint a - sint b"
    using f sint_overflow(1) [OF one r'] sub_as_add(2) [of b] by (simp add: nzcv_def)
  have n: "get_flag c' CPSR_N \<longleftrightarrow> (sint a - sint b < 0) \<noteq> get_flag c' CPSR_V"
    using f sint_overflow(2) [OF one r'] v sub_as_add(2) [of b] by (simp add: nzcv_def bit31_neg)
  have z: "get_flag c' CPSR_Z \<longleftrightarrow> a = b" using f r by (simp add: nzcv_def)
  have cf: "get_flag c' CPSR_C \<longleftrightarrow> b \<le> a"
    using f sub_as_add(3) [of a b] unat_less_32 [of b] by (auto simp: nzcv_def word_le_nat_alt)
  have eq: "sint a = sint b \<longleftrightarrow> a = b" by (auto intro: signed_word_eqI)
  show ?thesis
    by (simp add: arm_cond_passed_def Let_def v n z cf r) (use eq in auto)
qed

theorem compare_conditions_witness:
  "let c = snd (alu_sub cpu_zero 0x80000000 1 1 True)
   in arm_cond_passed c 0x2 \<and> arm_cond_passed c 0xb \<and> arm_cond_passed c 0x6 \<and> \<not> arm_cond_passed c 0x0"
proof -
  obtain r c' where s: "alu_sub cpu_zero 0x80000000 1 1 True = (r, c')" by force
  have v: "sint (0x80000000 :: u32) = - 2147483648" "sint (0x80000000 - 1 :: u32) = 2147483647"
    by (simp_all add: signed_of_int signed_take_bit_int_eq_self)
  show ?thesis using compare_conditions [OF s] v s by (simp add: Let_def)
qed

subsection \<open>The barrel shifter against arithmetic\<close>

text \<open>
  The shift of the architecture manual, by an amount \<open>n\<close> that is any natural number: LSL is
  multiplication, LSR and ASR are unsigned and signed division by \<open>2 ^ n\<close>, ROR is rotation; the
  carry is the last bit shifted out.
\<close>

definition shift_reference :: "u32 \<Rightarrow> nat \<Rightarrow> nat \<Rightarrow> bool \<Rightarrow> u32 \<times> bool" where
  "shift_reference val t n carry =
     (if n = 0 then (val, carry)
      else if t = 0 then (of_nat (unat val * 2 ^ n), odd (unat val * 2 ^ n div 2 ^ 32))
      else if t = 1 then (of_nat (unat val div 2 ^ n), odd (unat val div 2 ^ (n - 1)))
      else if t = 2 then (word_of_int (sint val div 2 ^ n), odd (sint val div 2 ^ (n - 1)))
      else (word_rotr n val, bit (word_rotr n val) 31))"

lemma bit_unat: "bit (w :: u32) k \<longleftrightarrow> odd (unat w div 2 ^ k)"
  using bit_unsigned_iff [where 'a=nat, of w k] bit_iff_odd [of "unat w" k] by auto

lemma of_nat_unat: "of_nat (unat (w :: 'a::len word)) = w"
  by simp

lemma lsl_reference:
  "0 < n \<Longrightarrow> barrel_shift val t n r carry = shift_reference val 0 n carry" if "t mod 4 = 0"
proof -
  assume n: "0 < n"
  have v: "of_nat (unat val * 2 ^ n) = val * 2 ^ n" by simp
  consider "n < 32" | "n = 32" | "n > 32" by linarith
  then show ?thesis
  proof cases
    case 1
    have "unat val * 2 ^ n div 2 ^ 32 = unat val * 2 ^ n div (2 ^ (32 - n) * 2 ^ n)"
      using 1 by (simp add: power_add [symmetric])
    also have "\<dots> = unat val div 2 ^ (32 - n)" by simp
    finally show ?thesis using 1 n that v
      by (simp add: barrel_shift_def shift_reference_def push_bit_eq_mult bit_unat)
  next
    case 2
    have "(4294967296 :: u32) = 0" by simp
    then have "val * 4294967296 = 0" by (simp only: mult_zero_right)
    then show ?thesis using 2 that by (simp add: barrel_shift_def shift_reference_def bit_unat)
  next
    case 3
    then have k: "n = 33 + (n - 33)" by simp
    have z: "(2 :: u32) ^ n = 0" using 3 by (simp add: exp_eq_zero_iff)
    have "unat val * 2 ^ n = 2 ^ 32 * (2 * (unat val * 2 ^ (n - 33)))"
      by (subst k) (simp add: power_add)
    then have "unat val * 2 ^ n div 2 ^ 32 = 2 * (unat val * 2 ^ (n - 33))"
      by (simp only: nonzero_mult_div_cancel_left [OF power_not_zero])
    then have "even (unat val * 2 ^ n div 2 ^ 32)" by (simp only: dvd_triv_left)
    moreover have "val * 2 ^ n = 0" using z by (simp only: mult_zero_right)
    ultimately show ?thesis using 3 that by (simp add: barrel_shift_def shift_reference_def)
  qed
qed

lemma lsr_reference:
  "0 < n \<Longrightarrow> barrel_shift val t n r carry = shift_reference val 1 n carry" if "t mod 4 = 1"
proof -
  assume n: "0 < n"
  have d: "of_nat (unat val div 2 ^ k) = drop_bit k val" for k
  proof -
    have "unat (drop_bit k val) = drop_bit k (unat val)" by (rule unat_drop_bit_eq)
    then have "unat (drop_bit k val) = unat val div 2 ^ k" by (simp only: drop_bit_eq_div)
    then show ?thesis by (metis of_nat_unat)
  qed
  have z: "32 \<le> k \<Longrightarrow> unat val div 2 ^ k = 0" for k
    using unat_less_32 [of val] power_increasing [of 32 k "2::nat"] by simp
  have z': "32 \<le> k \<Longrightarrow> drop_bit k val = 0" for k
    using d [of k] z [of k] by simp
  show ?thesis
    using n that d z z' [of n] by (auto simp: barrel_shift_def shift_reference_def bit_unat)
qed

lemma asr_reference:
  "0 < n \<Longrightarrow> barrel_shift val t n r carry = shift_reference val 2 n carry" if "t mod 4 = 2"
proof -
  assume n: "0 < n"
  have s: "sint (signed_drop_bit k val) = sint val div 2 ^ k" for k
    unfolding drop_bit_eq_div [symmetric] by (rule sint_signed_drop_bit_eq)
  have s': "word_of_int (sint val div 2 ^ k) = signed_drop_bit k val" for k
    unfolding s [symmetric] by simp
  have big: "sint val div 2 ^ k = (if bit val 31 then -1 else 0)" if "31 \<le> k" for k
  proof -
    have p: "2 ^ 31 \<le> (2::int) ^ k" using that by (rule power_increasing) simp
    show ?thesis
    proof (cases "sint val < 0")
      case True
      have "sint val div 2 ^ k = - 1"
        using sint_bounds [of val] p True
        by (intro int_div_pos_eq [of _ _ _ "sint val + 2 ^ k"]) linarith+
      then show ?thesis using True by (simp add: bit31_neg)
    next
      case False
      then have "sint val div 2 ^ k = 0"
        using sint_bounds [of val] p by (intro div_pos_pos_trivial) linarith+
      then show ?thesis using False by (simp add: bit31_neg)
    qed
  qed
  have b: "k < 32 \<Longrightarrow> bit val k \<longleftrightarrow> odd (sint val div 2 ^ k)" for k
    using bit_sint_iff [of val k] bit_iff_odd [of "sint val" k] by (simp add: min_def)
  have v: "signed_drop_bit k val = (if bit val 31 then 0xffffffff else 0)" if "31 \<le> k" for k
  proof (cases "bit val 31")
    case True
    then have "signed_drop_bit k val = word_of_int (- 1)"
      unfolding s' [of k, symmetric] big [OF that] by (simp only: if_True)
    then show ?thesis using True by simp
  next
    case False
    then have "signed_drop_bit k val = word_of_int 0"
      unfolding s' [of k, symmetric] big [OF that] by (simp only: if_False)
    then show ?thesis using False by simp
  qed
  have m: "(val AND 0x80000000 \<noteq> 0) = bit val 31"
    using and_exp_eq_0_iff_not_bit [of val 31] by simp
  show ?thesis
  proof (cases "n < 32")
    case True
    then show ?thesis using n that s' [of n] b [of "n - 1"]
      by (simp add: barrel_shift_def shift_reference_def)
  next
    case False
    then show ?thesis using n that s' [of n] v [of n] big [of "n - 1"]
      by (simp add: barrel_shift_def shift_reference_def m split: if_splits)
  qed
qed

lemma ror_reference:
  "0 < n \<Longrightarrow> barrel_shift val t n r carry = shift_reference val 3 n carry" if "t mod 4 = 3"
proof -
  assume n: "0 < n"
  have rot: "bit (word_rotr n val) i \<longleftrightarrow> i < 32 \<and> bit val ((i + n) mod 32)" for i
    by (simp add: bit_word_rotr_iff)
  have v: "(if n mod 32 = 0 then val else ror32 val (n mod 32)) = word_rotr n val"
  proof (rule bit_word_eqI)
    fix i assume "i < LENGTH(32)"
    then have i: "i < 32" by simp
    let ?a = "n mod 32"
    have m: "(i + n) mod 32 = (i + ?a) mod 32" by (simp add: mod_add_right_eq)
    have a: "?a < 32" by simp
    have r: "bit (ror32 val ?a) i \<longleftrightarrow> (if ?a = 0 then bit val i
        else bit val (?a + i) \<or> 32 - ?a \<le> i \<and> bit val (i - (32 - ?a)))"
      using i by (simp add: ror32_def Let_def bit_or_iff bit_drop_bit_eq bit_push_bit_iff)
    show "bit (if n mod 32 = 0 then val else ror32 val ?a) i = bit (word_rotr n val) i"
    proof (cases "?a = 0")
      case True
      then show ?thesis using i unfolding rot m by simp
    next
      case nz: False
      show ?thesis
      proof (cases "i + ?a < 32")
        case True
        then have "\<not> 32 - ?a \<le> i" by simp
        then show ?thesis using i True nz r unfolding rot m by (simp add: add.commute)
      next
        case False
        then have "(i + ?a) mod 32 = (i - (32 - ?a) + 32) mod 32" using a by simp
        also have "\<dots> = i - (32 - ?a)" using i a by (simp only: mod_add_self2 mod_less)
        finally have "(i + ?a) mod 32 = i - (32 - ?a)" .
        moreover have "32 - ?a \<le> i" using False by linarith
        moreover have "\<not> bit val (?a + i)" using False bit_imp_le_length [of val "?a + i"] by auto
        ultimately show ?thesis using i False nz r unfolding rot m by simp
      qed
    qed
  qed
  have k: "bit (word_rotr n val) 31 = (if n mod 32 = 0 then bit val 31 else bit val (n mod 32 - 1))"
  proof -
    have "(31 + n) mod 32 = (31 + n mod 32) mod 32" by (simp add: mod_add_right_eq)
    also have "\<dots> = (if n mod 32 = 0 then 31 else n mod 32 - 1)"
    proof (cases "n mod 32 = 0")
      case False
      then have "31 + n mod 32 = (n mod 32 - 1) + 32" by simp
      then have "(31 + n mod 32) mod 32 = (n mod 32 - 1) mod 32" by (simp only: mod_add_self2)
      moreover have "n mod 32 - 1 < 32" by (rule le_less_trans [of _ "n mod 32"]) simp_all
      ultimately show ?thesis using False by simp
    qed simp
    finally show ?thesis by (simp add: rot)
  qed
  show ?thesis
    using n that v k by (simp add: barrel_shift_def shift_reference_def Let_def split: if_splits)
qed

text \<open>
  C8. The barrel shifter is the architecture's arithmetic: a register-specified amount shifts by
  exactly that amount, 32 and beyond included; an immediate amount of 0 means 32 for LSR and ASR,
  nothing for LSL, and the 33-bit rotation through the carry (RRX) for ROR.
\<close>

theorem barrel_shift_reference:
  "barrel_shift val t amount True carry = shift_reference val (t mod 4) amount carry \<and>
   barrel_shift val t amount False carry =
     (if amount = 0 \<and> t mod 4 = 3
      then (of_nat ((unat val + (if carry then 2 ^ 32 else 0)) div 2), odd (unat val))
      else shift_reference val (t mod 4) (if amount = 0 \<and> t mod 4 \<noteq> 0 then 32 else amount) carry)"
proof -
  have rrx: "of_nat ((unat val + (if carry then 2 ^ 32 else 0)) div 2) =
      drop_bit 1 val OR push_bit 31 (if carry then 1 else 0)"
  proof -
    have "(unat val + (if carry then 2 ^ 32 else 0)) div 2 = unat val div 2 + (if carry then 2 ^ 31 else 0)"
      using div_mult_self1 [of 2 "unat val" 2147483648] by simp
    moreover have "of_nat (unat val div 2) = drop_bit 1 val"
      using unat_drop_bit_eq [of 1 val] by (metis drop_bit_eq_div of_nat_unat power_one_right)
    moreover have "drop_bit 1 val OR push_bit 31 (if carry then 1 else 0) =
        drop_bit 1 val + push_bit 31 (if carry then 1 else 0)"
      by (rule disjunctive_add_eq_or [symmetric])
        (auto simp: bit_eq_iff bit_and_iff bit_drop_bit_eq bit_push_bit_iff bit_1_iff dest: bit_imp_le_length)
    ultimately show ?thesis by (simp add: push_bit_eq_mult)
  qed
  have b0: "bit val 0 = odd (unat val)" by (simp add: bit_unat)
  have "t mod 4 < 4" by simp
  then consider "t mod 4 = 0" | "t mod 4 = 1" | "t mod 4 = 2" | "t mod 4 = 3" by linarith
  then show ?thesis
  proof cases
    case 1 then show ?thesis using lsl_reference [OF 1]
      by (cases "amount = 0") (auto simp: barrel_shift_def shift_reference_def)
  next
    case 2
    then have "barrel_shift val t 0 False carry = barrel_shift val t 32 False carry"
      by (simp add: barrel_shift_def)
    then have z: "barrel_shift val t 0 False carry = shift_reference val 1 32 carry"
      using lsr_reference [OF 2, of 32] by simp
    have "barrel_shift val t 0 True carry = shift_reference val 1 0 carry"
      using 2 by (simp add: barrel_shift_def shift_reference_def)
    then show ?thesis using 2 lsr_reference [OF 2, of amount] z by (cases "amount = 0") simp_all
  next
    case 3
    then have "barrel_shift val t 0 False carry = barrel_shift val t 32 False carry"
      by (simp add: barrel_shift_def)
    then have z: "barrel_shift val t 0 False carry = shift_reference val 2 32 carry"
      using asr_reference [OF 3, of 32] by simp
    have "barrel_shift val t 0 True carry = shift_reference val 2 0 carry"
      using 3 by (simp add: barrel_shift_def shift_reference_def)
    then show ?thesis using 3 asr_reference [OF 3, of amount] z by (cases "amount = 0") simp_all
  next
    case 4 then show ?thesis using ror_reference [OF 4] rrx b0
      by (cases "amount = 0") (auto simp: barrel_shift_def shift_reference_def)
  qed
qed

subsection \<open>Count leading zeros and saturation\<close>

lemma top_bit_test: "v AND 0x80000000 = 0 \<longleftrightarrow> \<not> bit (v :: u32) 31"
  using and_exp_eq_0_iff_not_bit [of v 31] by simp

lemma clz_loop_top:
  assumes "bit v i" and "31 - i < k"
  shows "\<exists>j<k. clz_loop k v n = n + j \<and> bit v (31 - j) \<and> (\<forall>l. bit v l \<longrightarrow> l \<le> 31 - j) \<and> j \<le> 31"
  using assms
proof (induction k arbitrary: v n i)
  case 0
  then show ?case by simp
next
  case (Suc k)
  show ?case
  proof (cases "bit v 31")
    case True
    have "\<forall>l. bit v l \<longrightarrow> l \<le> 31" using bit_imp_le_length [of v] by fastforce
    then show ?thesis using True by (intro exI [of _ 0]) (simp add: top_bit_test)
  next
    case False
    have "i < 32" using bit_imp_le_length [OF Suc.prems(1)] by simp
    then have i: "i < 31" using False Suc.prems(1) by (cases "i = 31") auto
    have p: "bit (push_bit 1 v) l \<longleftrightarrow> 1 \<le> l \<and> l < 32 \<and> bit v (l - 1)" for l
      unfolding bit_push_bit_iff by auto
    have "bit (push_bit 1 v) (i + 1)" unfolding p using Suc.prems(1) i by simp
    moreover have "31 - (i + 1) < k" using Suc.prems(2) i by simp
    ultimately obtain j where j: "j < k" "clz_loop k (push_bit 1 v) (n + 1) = n + 1 + j"
      "bit (push_bit 1 v) (31 - j)" "\<forall>l. bit (push_bit 1 v) l \<longrightarrow> l \<le> 31 - j" "j \<le> 31"
      using Suc.IH [of "push_bit 1 v" "i + 1" "n + 1"] by blast
    have "1 \<le> 31 - j" and b: "bit v (31 - j - 1)" using j(3) unfolding p by auto
    moreover have "l \<le> 31 - (j + 1)" if "bit v l" for l
    proof -
      have "l < 32" using bit_imp_le_length [OF that] by simp
      moreover have "l \<noteq> 31" using that False by auto
      ultimately have "bit (push_bit 1 v) (l + 1)" unfolding p using that by simp
      then show ?thesis using j(4) by fastforce
    qed
    moreover have "clz_loop (Suc k) v n = n + (j + 1)" using False j(2) by (simp add: top_bit_test)
    ultimately show ?thesis using j(1) by (intro exI [of _ "j + 1"]) simp
  qed
qed

text \<open>
  CLZ counts exactly the zeros above the highest set bit: 32 for zero, and otherwise bit
  \<open>31 - clz v\<close> is set and none above it is; the loop always finds it within 32 steps.
\<close>

theorem clz_counts:
  "clz v \<le> 32 \<and> (clz v = 32 \<longleftrightarrow> v = 0) \<and> (v \<noteq> 0 \<longrightarrow> bit v (31 - clz v)) \<and>
   (\<forall>i. bit v i \<longrightarrow> i < 32 - clz v)"
proof (cases "v = 0")
  case True
  then show ?thesis by (simp add: clz_def)
next
  case False
  then obtain i where "bit v i" by (auto simp: bit_eq_iff)
  then have "\<exists>j<32. clz_loop 32 v 0 = 0 + j \<and> bit v (31 - j) \<and> (\<forall>l. bit v l \<longrightarrow> l \<le> 31 - j) \<and> j \<le> 31"
    by (rule clz_loop_top) simp
  then show ?thesis using False by (fastforce simp: clz_def)
qed

theorem clz_counts_witness: "clz 0x00010000 = 15"
proof -
  have b: "bit (0x00010000 :: u32) i \<longleftrightarrow> i = 16" for i
    using bit_exp_eq [of "0x00010000 :: u32" 16 i] by simp
  have "31 - clz 0x00010000 = 16" "clz 0x00010000 \<le> 32"
    using clz_counts [of "0x00010000"] by (simp_all add: b)
  then show ?thesis by linarith
qed

lemma sint_word_of_int_range: "- (2 ^ 31) \<le> x \<Longrightarrow> x < 2 ^ 31 \<Longrightarrow> sint (word_of_int x :: u32) = x"
  by (simp add: signed_of_int signed_take_bit_int_eq_self)

text \<open>
  The saturating instructions compute the exact signed sum or difference clamped to the
  32-bit range (QDADD and QDSUB double and clamp the second operand first), and raise the sticky
  flag exactly when something was clamped.
\<close>

theorem q_arith_clamps:
  "sint (fst (q_arith op mw nw)) =
     (let clamp = (\<lambda>x. max INT32_MIN (min INT32_MAX x));
          n = (if op = 2 \<or> op = 3 then clamp (2 * sint nw) else sint nw)
      in clamp (if op = 0 \<or> op = 2 then sint mw + n else sint mw - n)) \<and>
   (snd (q_arith op mw nw) \<longleftrightarrow>
     (let clamp = (\<lambda>x. max INT32_MIN (min INT32_MAX x));
          n = (if op = 2 \<or> op = 3 then clamp (2 * sint nw) else sint nw);
          r = (if op = 0 \<or> op = 2 then sint mw + n else sint mw - n)
      in clamp r \<noteq> r \<or> (op = 2 \<or> op = 3) \<and> clamp (2 * sint nw) \<noteq> 2 * sint nw))"
proof -
  define cl where "cl = (\<lambda>x. max INT32_MIN (min INT32_MAX x))"
  have s: "sat32 x = (cl x, cl x \<noteq> x)" for x
    by (auto simp: sat32_def cl_def INT32_MAX_def INT32_MIN_def)
  have r: "sint (word_of_int (cl x) :: u32) = cl x" for x
    by (rule sint_word_of_int_range) (auto simp: cl_def INT32_MAX_def INT32_MIN_def)
  show ?thesis
    unfolding q_arith_def Let_def s cl_def [symmetric]
    by (auto simp: r mult.commute split: prod.splits)
qed

theorem q_arith_clamps_witness:
  "sint (fst (q_arith 2 1 0x7fffffff)) = 2147483647 \<and> snd (q_arith 2 1 0x7fffffff)"
proof -
  have v: "sint (0x7fffffff :: u32) = 2147483647" by (simp add: signed_of_int signed_take_bit_int_eq_self)
  show ?thesis using q_arith_clamps [of 2 1 "0x7fffffff"]
    unfolding Let_def INT32_MAX_def INT32_MIN_def v by simp
qed

subsection \<open>What User mode can change\<close>

text \<open>All of the CPSR but the flag byte and the Thumb bit.\<close>

abbreviation "CPSR_GUARDED \<equiv> (0x00ffffdf :: u32)"

definition user_frame :: "arm_cpu \<Rightarrow> arm_cpu \<Rightarrow> bool" where
  "user_frame c d \<longleftrightarrow>
     d = c\<lparr>regs := regs d, cpsr := cpsr d\<rparr> \<and> cpsr d AND CPSR_GUARDED = cpsr c AND CPSR_GUARDED"

lemma user_frame_alt:
  "user_frame c d \<longleftrightarrow> (\<exists>r x. d = c\<lparr>regs := r, cpsr := x\<rparr> \<and> x AND CPSR_GUARDED = cpsr c AND CPSR_GUARDED)"
proof
  assume "user_frame c d"
  then show "\<exists>r x. d = c\<lparr>regs := r, cpsr := x\<rparr> \<and> x AND CPSR_GUARDED = cpsr c AND CPSR_GUARDED"
    unfolding user_frame_def by blast
next
  assume "\<exists>r x. d = c\<lparr>regs := r, cpsr := x\<rparr> \<and> x AND CPSR_GUARDED = cpsr c AND CPSR_GUARDED"
  then obtain r x where d: "d = c\<lparr>regs := r, cpsr := x\<rparr>" and x: "x AND CPSR_GUARDED = cpsr c AND CPSR_GUARDED" by blast
  show "user_frame c d" unfolding user_frame_def d by (simp add: x)
qed

lemma user_frameI: "x AND CPSR_GUARDED = cpsr c AND CPSR_GUARDED \<Longrightarrow> user_frame c (c\<lparr>regs := r, cpsr := x\<rparr>)"
  unfolding user_frame_alt by blast

lemma user_frame_refl [simp]: "user_frame c c"
  by (simp add: user_frame_def)

lemma user_frame_trans: "user_frame c d \<Longrightarrow> user_frame d e \<Longrightarrow> user_frame c e"
  unfolding user_frame_alt by (elim exE conjE) (simp, blast)

lemma user_frame_regs:
  assumes "user_frame c d" shows "user_frame c (d\<lparr>regs := r\<rparr>)"
proof -
  obtain r' x where d: "d = c\<lparr>regs := r', cpsr := x\<rparr>" and x: "x AND CPSR_GUARDED = cpsr c AND CPSR_GUARDED"
    using assms unfolding user_frame_alt by blast
  have "d\<lparr>regs := r\<rparr> = c\<lparr>regs := r, cpsr := x\<rparr>" unfolding d by (cases c) simp
  then show ?thesis using user_frameI [OF x] by simp
qed

lemma user_frame_cpsr:
  assumes "user_frame c d" and "x AND CPSR_GUARDED = cpsr d AND CPSR_GUARDED"
  shows "user_frame c (d\<lparr>cpsr := x\<rparr>)"
proof -
  obtain r' x' where "d = c\<lparr>regs := r', cpsr := x'\<rparr>" "x' AND CPSR_GUARDED = cpsr c AND CPSR_GUARDED"
    using assms(1) unfolding user_frame_alt by blast
  then show ?thesis using assms(2) user_frameI [of x c r'] by simp
qed

lemma user_frame_flag: "b AND CPSR_GUARDED = 0 \<Longrightarrow> user_frame c d \<Longrightarrow> user_frame c (set_flag d b on)"
  unfolding set_flag_def by (rule user_frame_cpsr) (auto simp: and_or_notand)

lemma user_frame_alu_add: "user_frame c (snd (alu_add c a b cin sf))"
  by (simp add: alu_add_def Let_def user_frame_flag)

lemma user_frame_alu_sub: "user_frame c (snd (alu_sub c a b cin sf))"
  by (simp add: alu_sub_def user_frame_alu_add)

lemma user_frame_logic: "user_frame c (alu_logic_flags c r carry sf)"
  by (simp add: alu_logic_flags_def Let_def user_frame_flag)

lemma user_frame_dp_alu:
  assumes "dp_alu c op s a b k = (r, w, d)" shows "user_frame c d"
proof -
  have "user_frame c (snd (snd (dp_alu c op s a b k)))"
    unfolding dp_alu_def Let_def
    by (simp add: user_frame_alu_add user_frame_alu_sub user_frame_logic case_prod_beta)
  then show ?thesis using assms by simp
qed

lemma and_zero_keep:
  fixes k g x v :: "'a::len word"
  assumes "k AND g = 0"
  shows "((x AND NOT k) OR (v AND k)) AND g = x AND g"
  using assms by (auto simp: bit_eq_iff bit_simps)

lemma user_mode_bank: "cpsr c AND CPSR_MODE_MASK = MODE_USR \<Longrightarrow> arm_bank_of_mode (cpsr c) = BANK_USR"
  by (simp add: arm_bank_of_mode_def)

lemma user_frame_msr:
  "user_frame c (c\<lparr>cpsr := (cpsr c AND NOT (m AND 0xff000000)) OR (v AND (m AND 0xff000000))\<rparr>)"
  by (rule user_frame_cpsr) (simp, rule and_zero_keep, simp add: and.assoc)

lemma user_frame_mrs_msr:
  assumes "cpsr c AND CPSR_MODE_MASK = MODE_USR" and "exec_mrs_msr c pc insn = (s, d)"
  shows "user_frame c d"
proof -
  have k: "(m AND 0xff000000) AND CPSR_GUARDED = 0" "(m AND 0xff000000) AND CPSR_MODE_MASK = 0" for m :: u32
    by (simp_all add: and.assoc)
  have "user_frame c (snd (exec_mrs_msr c pc insn))"
    unfolding exec_mrs_msr_def Let_def user_mode_bank [OF assms(1)]
    using assms(1) by (simp add: k user_frame_regs user_frame_msr [simplified])
  then show ?thesis using assms(2) by simp
qed

lemma user_frame_thumb: "user_frame c d \<Longrightarrow> user_frame c (d\<lparr>cpsr := cpsr d OR CPSR_T\<rparr>)"
  "user_frame c d \<Longrightarrow> user_frame c (d\<lparr>cpsr := cpsr d OR CPSR_Q\<rparr>)"
  by (rule user_frame_cpsr; simp add: and_or_notand)+

lemma user_frame_misc:
  assumes "cpsr c AND CPSR_MODE_MASK = MODE_USR" and "exec_misc c pc insn next = (s, d, n)"
  shows "user_frame c d"
  using assms(2) user_frame_mrs_msr [OF assms(1)]
  by (auto simp: exec_misc_def Let_def user_frame_regs and_or_notand intro!: user_frameI
      intro: user_frame_thumb split: if_splits prod.splits)

lemma user_frame_data_processing:
  assumes "cpsr c AND CPSR_MODE_MASK = MODE_USR"
    and "exec_data_processing c pc insn next = (s, d, n)"
  shows "user_frame c d"
proof (cases "fld insn 21 15 \<ge> 8 \<and> fld insn 21 15 \<le> 11 \<and> \<not> bit insn 20")
  case True
  then show ?thesis
    using assms(2) user_frame_misc [OF assms(1)]
    by (auto simp: exec_data_processing_def Let_def user_frame_regs split: if_splits)
next
  case False
  obtain op2 k where o: "dp_operand2 c pc insn (get_flag c CPSR_C) = (op2, k)" by force
  obtain r w e where e: "dp_alu c (fld insn 21 15) (bit insn 20) (reg_read c pc (fld insn 16 15)) op2 k = (r, w, e)"
    by (cases "dp_alu c (fld insn 21 15) (bit insn 20) (reg_read c pc (fld insn 16 15)) op2 k") auto
  have f: "user_frame c e" by (rule user_frame_dp_alu [OF e])
  have "cpsr e AND CPSR_MODE_MASK = (cpsr e AND CPSR_GUARDED) AND CPSR_MODE_MASK" by (simp add: and.assoc)
  also have "\<dots> = (cpsr c AND CPSR_GUARDED) AND CPSR_MODE_MASK" using f by (simp add: user_frame_def)
  finally have "cpsr e AND CPSR_MODE_MASK = MODE_USR" using assms(1) by (simp add: and.assoc)
  then have b: "arm_bank_of_mode (cpsr e) = BANK_USR" by (rule user_mode_bank)
  show ?thesis
    using assms(2) f b False unfolding exec_data_processing_def Let_def o prod.case e
    by (auto simp: user_frame_regs split: if_splits)
qed

text \<open>
  A data-processing instruction executed in User mode (MSR, MOVS pc and the undefined forms
  included) changes only general registers, the flag byte of the CPSR and its Thumb bit: the mode,
  the interrupt masks, the banked registers, the SPSRs, CP15 and the translation caches are exactly
  as before.
\<close>

theorem user_data_processing_confined:
  assumes "cpsr c AND CPSR_MODE_MASK = MODE_USR"
    and "exec_data_processing c pc insn next = (s, d, n)"
  shows "d = c\<lparr>regs := regs d, cpsr := cpsr d\<rparr> \<and> cpsr d AND CPSR_GUARDED = cpsr c AND CPSR_GUARDED"
  using user_frame_data_processing [OF assms] by (simp add: user_frame_def)

theorem user_data_processing_confined_witness:
  "cpsr (fst (snd (exec_data_processing cpu_zero 0 0xe329f01f 4))) AND CPSR_GUARDED = MODE_USR"
proof -
  obtain s d n where e: "exec_data_processing cpu_zero 0 0xe329f01f 4 = (s, d, n)"
    by (cases "exec_data_processing cpu_zero 0 0xe329f01f 4") auto
  have "cpsr cpu_zero = MODE_USR" by (simp add: cpu_zero_def)
  then show ?thesis using user_data_processing_confined [OF _ e] e by simp
qed

end
