(* ===== verification/ArmCp15.thy ===== *)
theory ArmCp15
  imports ArmMem
begin

unbundle bit_operations_syntax

text \<open>
  The coprocessor register transfers of \<open>core/src/arm/arm_interp.c\<close>: CP15 (identity registers,
  control, translation base, fault and thread registers, TLB maintenance, wait for interrupt), the
  absent CP14 debug unit, and the gate in front of the floating-point unit. The floating-point
  instructions themselves (\<open>core/src/arm/vfp.c\<close>) are the parameter \<open>vfp_execute\<close>: given the bus,
  the machine, the CPU, the address and the instruction, it returns a status, a CPU and a machine.
\<close>

type_synonym 'm vfp_unit = "'m arm_bus \<Rightarrow> 'm \<Rightarrow> arm_cpu \<Rightarrow> u32 \<Rightarrow> u32 \<Rightarrow> arm_status \<times> arm_cpu \<times> 'm"

subsection \<open>The floating-point gate\<close>

definition insn_is_vfp_space :: "u32 \<Rightarrow> bool" where
  "insn_is_vfp_space insn \<longleftrightarrow>
     insn AND 0xfe000000 = 0xf2000000 \<or>
     insn AND 0x0f000e10 = 0x0e000a00 \<or>
     insn AND 0x0e000e00 = 0x0c000a00 \<or>
     insn AND 0xff100000 = 0xf4000000 \<or>
     insn AND 0x0f000e10 = 0x0e000a10 \<or>
     insn AND 0x0fe00e00 = 0x0c400a00"

definition vfp_cpacr_permits :: "arm_cpu \<Rightarrow> bool" where
  "vfp_cpacr_permits c =
     (let cp10 = drop_bit 20 (cpacr (cp15 c)) AND 3;
          cp11 = drop_bit 22 (cpacr (cp15 c)) AND 3;
          acc = (if cp10 < cp11 then cp10 else cp11)
      in if acc = 3 then True
         else if acc = 1 then cpsr c AND CPSR_MODE_MASK \<noteq> MODE_USR
         else False)"

definition vfp_enabled :: "arm_cpu \<Rightarrow> bool" where
  "vfp_enabled c \<longleftrightarrow> vfp_fpexc c AND 0x40000000 \<noteq> 0"

definition vfp_lazy_enable_trap :: "arm_cpu \<Rightarrow> u32 \<Rightarrow> bool" where
  "vfp_lazy_enable_trap c insn =
     (if \<not> insn_is_vfp_space insn then False
      else \<not> vfp_cpacr_permits c \<or> \<not> vfp_enabled c)"

definition undefined_instruction :: "arm_cpu \<Rightarrow> u32 \<Rightarrow> u32 \<Rightarrow> arm_status \<times> arm_cpu" where
  "undefined_instruction c pc insn =
     (if \<not> vfp_lazy_enable_trap c insn then (ARM_UNDEFINED, c)
      else take_undefined_instruction c pc)"

subsection \<open>CP15 reads\<close>

definition id_crm1 :: "u32 list" where
  "id_crm1 = [0x00000111, 0x00000001, 0x00000000, 0x00000000,
              0x01130003, 0x10030302, 0x01222100, 0x00000000]"

definition id_crm2 :: "u32 list" where
  "id_crm2 = [0x00140011, 0x12002111, 0x11231121, 0x01102131,
              0x00000141, 0x00000000, 0, 0]"

definition cp15_read :: "arm_cp15 \<Rightarrow> nat \<Rightarrow> nat \<Rightarrow> nat \<Rightarrow> u32" where
  "cp15_read p crn crm opc2 =
     (if crn = 0 then
        (if crm = 0 then (if opc2 = 0 then 0x410fb767 else if opc2 = 1 then 0x1d152152 else 0)
         else if crm = 1 then id_crm1 ! opc2
         else if crm = 2 then id_crm2 ! opc2
         else 0)
      else if crn = 1 then
        (if crm = 0 then
           (if opc2 = 0 then sctlr p else if opc2 = 1 then actlr p
            else if opc2 = 2 then cpacr p else 0)
         else 0)
      else if crn = 2 then
        (if crm = 0 then
           (if opc2 = 0 then ttbr0 p else if opc2 = 1 then ttbr1 p
            else if opc2 = 2 then ttbcr p else 0)
         else 0)
      else if crn = 3 then dacr p
      else if crn = 5 then (if opc2 = 1 then ifsr p else dfsr p)
      else if crn = 6 then (if opc2 = 2 then ifar p else dfar p)
      else if crn = 13 then
        (if opc2 = 1 then context_id p else if opc2 = 2 then tpidrurw p
         else if opc2 = 3 then tpidruro p else if opc2 = 4 then tpidrprw p
         else fcse_pid p)
      else 0)"

subsection \<open>CP15 writes\<close>

definition cp15_set :: "arm_cpu \<Rightarrow> (arm_cp15 \<Rightarrow> arm_cp15) \<Rightarrow> arm_cpu" where
  "cp15_set c f = c\<lparr>cp15 := f (cp15 c)\<rparr>"

definition cp15_write :: "arm_cpu \<Rightarrow> nat \<Rightarrow> nat \<Rightarrow> nat \<Rightarrow> u32 \<Rightarrow> arm_cpu" where
  "cp15_write c crn crm opc2 v =
     (if crn = 1 then
        (if crm = 0 then
           (if opc2 = 0 then arm_mmu_tlb_flush (cp15_set c (sctlr_update (\<lambda>_. v)))
            else if opc2 = 1 then cp15_set c (actlr_update (\<lambda>_. v))
            else if opc2 = 2 then cp15_set c (cpacr_update (\<lambda>_. v))
            else c)
         else c)
      else if crn = 2 then
        (if crm = 0 then
           arm_mmu_tlb_flush
             (if opc2 = 0 then cp15_set c (ttbr0_update (\<lambda>_. v))
              else if opc2 = 1 then cp15_set c (ttbr1_update (\<lambda>_. v))
              else if opc2 = 2 then cp15_set c (ttbcr_update (\<lambda>_. v AND 0x37))
              else c)
         else c)
      else if crn = 3 then arm_mmu_tlb_flush (cp15_set c (dacr_update (\<lambda>_. v)))
      else if crn = 5 then
        (if opc2 = 1 then cp15_set c (ifsr_update (\<lambda>_. v)) else cp15_set c (dfsr_update (\<lambda>_. v)))
      else if crn = 6 then
        (if opc2 = 2 then cp15_set c (ifar_update (\<lambda>_. v)) else cp15_set c (dfar_update (\<lambda>_. v)))
      else if crn = 8 then arm_mmu_tlb_flush c
      else if crn = 13 then
        (if opc2 = 1 then arm_mmu_tlb_flush (cp15_set c (context_id_update (\<lambda>_. v)))
         else if opc2 = 2 then cp15_set c (tpidrurw_update (\<lambda>_. v))
         else if opc2 = 3 then cp15_set c (tpidruro_update (\<lambda>_. v))
         else if opc2 = 4 then cp15_set c (tpidrprw_update (\<lambda>_. v))
         else cp15_set c (fcse_pid_update (\<lambda>_. v)))
      else c)"

subsection \<open>The instruction\<close>

definition exec_coprocessor ::
  "'m vfp_unit \<Rightarrow> 'm arm_bus \<Rightarrow> 'm \<Rightarrow> arm_cpu \<Rightarrow> u32 \<Rightarrow> u32 \<Rightarrow> arm_status \<times> arm_cpu \<times> 'm" where
  "exec_coprocessor vfp_execute bus m c pc insn =
     (let cp = fld insn 8 0xf;
          load = bit insn 20;
          opc1 = fld insn 21 7;
          crn = fld insn 16 0xf;
          rd = fld insn 12 0xf;
          opc2 = fld insn 5 7;
          crm = fld insn 0 0xf
      in if cp = 14 then
           (if \<not> cpu_is_priv c then (ARM_UNDEFINED, c, m)
            else (ARM_OK, (if load then c\<lparr>regs := (regs c)(rd := 0)\<rparr> else c), m))
         else if cp = 10 \<or> cp = 11 then vfp_execute bus m c pc insn
         else if cp \<noteq> 15 then (ARM_UNDEFINED, c, m)
         else if \<not> load \<and> opc1 = 0 \<and> crn = 7 \<and> opc2 = 4 \<and> crm = 0 then
           (if \<not> cpu_is_priv c then (ARM_UNDEFINED, c, m)
            else if reg_read c pc rd \<noteq> 0 then (ARM_UNDEFINED, c, m)
            else
              case wait_for_interrupt bus of
                None \<Rightarrow> (ARM_OK, c, m)
              | Some w \<Rightarrow> (case w (c, m) of (_, c, m) \<Rightarrow> (ARM_OK, c, m)))
         else if \<not> cpu_is_priv c \<and>
                 \<not> (crn = 7 \<or> (crn = 13 \<and> crm = 0 \<and> opc2 = 2) \<or>
                    (crn = 13 \<and> crm = 0 \<and> opc2 = 3 \<and> load))
         then (ARM_UNDEFINED, c, m)
         else if load then
           (ARM_OK, c\<lparr>regs := (regs c)(rd := cp15_read (cp15 c) crn crm opc2)\<rparr>, m)
         else
           (ARM_OK, cp15_write c crn crm opc2 (reg_read c pc rd), m))"

subsection \<open>Protection and coherence\<close>

definition same_but_regs_cp15 :: "arm_cpu \<Rightarrow> arm_cpu \<Rightarrow> bool" where
  "same_but_regs_cp15 c d \<longleftrightarrow> d = c\<lparr>regs := regs d, cp15 := cp15 d\<rparr>"

text \<open>
  From User mode the coprocessor space (floating point apart) is closed: an MCR or MRC either
  is undefined or leaves every CP15 register except the user thread word TPIDRURW, the CPSR, the
  banks and the caches as they were. No page-table base, domain or control register can be reached.
\<close>

theorem user_coprocessor_confined:
  assumes "cpsr c AND CPSR_MODE_MASK = MODE_USR"
    and "fld insn 8 0xf \<noteq> 10" and "fld insn 8 0xf \<noteq> 11"
    and "exec_coprocessor vfp bus m c pc insn = (s, d, m')"
  shows "m' = m \<and> d = c\<lparr>regs := regs d, cp15 := (cp15 c)\<lparr>tpidrurw := tpidrurw (cp15 d)\<rparr>\<rparr>"
proof -
  have p: "\<not> cpu_is_priv c" using assms(1) by (simp add: cpu_is_priv_def)
  show ?thesis
    using assms(2-4) p unfolding exec_coprocessor_def Let_def
    by (auto simp: cp15_write_def cp15_set_def split: if_splits)
qed

theorem user_coprocessor_confined_witness:
  "fst (snd (exec_coprocessor (\<lambda>b m c p i. (ARM_UNDEFINED, c, m)) (rom_bus (\<lambda>_. 0)) ()
     (cpu_zero\<lparr>regs := (\<lambda>_. 7)\<rparr>) 0 0xee0d0f50)) =
   cpu_zero\<lparr>regs := (\<lambda>_. 7), cp15 := cp15_zero\<lparr>tpidrurw := 7\<rparr>\<rparr>"
proof -
  let ?v = "\<lambda>b m c p i. (ARM_UNDEFINED, c, m)"
  let ?c = "cpu_zero\<lparr>regs := (\<lambda>_. 7)\<rparr>"
  obtain s d m' where e: "exec_coprocessor ?v (rom_bus (\<lambda>_. 0)) () ?c 0 0xee0d0f50 = (s, d, m')"
    by (cases "exec_coprocessor ?v (rom_bus (\<lambda>_. 0)) () ?c 0 0xee0d0f50") auto
  have u: "cpsr ?c AND CPSR_MODE_MASK = MODE_USR" by (simp add: cpu_zero_def)
  have f: "fld (0xee0d0f50 :: u32) 8 0xf = 15" by (simp add: fld_def drop_bit_eq_div)
  have "d = ?c\<lparr>regs := regs d, cp15 := (cp15 ?c)\<lparr>tpidrurw := tpidrurw (cp15 d)\<rparr>\<rparr>"
    using user_coprocessor_confined [OF u _ _ e] f by simp
  moreover have "regs d = (\<lambda>_. 7) \<and> tpidrurw (cp15 d) = 7"
    using e by (auto simp: exec_coprocessor_def fld_def drop_bit_eq_div cpu_is_priv_def cpu_zero_def
      bit_iff_odd cp15_write_def cp15_set_def reg_read_def Let_def split: if_splits)
  ultimately show ?thesis using e by (simp add: cpu_zero_def)
qed

text \<open>The CP15 registers a translation depends on.\<close>

definition translation_regs :: "arm_cp15 \<Rightarrow> u32 \<times> u32 \<times> u32 \<times> u32 \<times> u32 \<times> u32" where
  "translation_regs p = (sctlr p, ttbr0 p, ttbr1 p, ttbcr p, dacr p, context_id p)"

lemma flush_data_inv:
  assumes "tlb_gens_bounded c" "blocks_bounded c (dread c)" "blocks_bounded c (dwrite c)"
  shows "data_inv rd blk wblk (arm_mmu_tlb_flush c)"
  using flush_mmu_inv [OF assms(1)] flush_blocks_dead [of c] assms(2,3)
  by (simp add: data_inv_def blocks_dead_ok)

lemma cp15_set_bounds:
  assumes "data_inv rd blk wblk c"
  shows "tlb_gens_bounded (cp15_set c f)" "blocks_bounded (cp15_set c f) (dread (cp15_set c f))"
    "blocks_bounded (cp15_set c f) (dwrite (cp15_set c f))"
  using assms by (simp_all add: cp15_set_def data_inv_def mmu_inv_def tlb_gens_bounded_def blocks_bounded_def)

lemma cp15_set_inv:
  assumes "data_inv rd blk wblk c" and "translation_regs (f (cp15 c)) = translation_regs (cp15 c)"
  shows "data_inv rd blk wblk (cp15_set c f)"
proof -
  let ?d = "cp15_set c f"
  have d: "tlb ?d = tlb c" "tlb_gen ?d = tlb_gen c" "tlb_stamp ?d = tlb_stamp c" "dread ?d = dread c" "dwrite ?d = dwrite c"
    by (simp_all add: cp15_set_def)
  have "walk_ram rd ?d = walk_ram rd c"
    by (rule walk_ram_regs) (use assms(2) in \<open>simp_all add: cp15_set_def translation_regs_def\<close>)
  then have "blocks_bounded ?d bs = blocks_bounded c bs" "blocks_coherent acc rd bl ?d bs = blocks_coherent acc rd bl c bs" for bs acc bl
    by (simp_all add: blocks_bounded_def blocks_coherent_def d)
  then show ?thesis using assms(1) mmu_inv_cong [of ?d c rd, OF d(1-3)] by (simp add: data_inv_def d)
qed

text \<open>
  C9. A CP15 write never leaves a stale translation behind: whatever register an MCR writes, the
  translation cache and both block caches agree afterwards with the walk under the new registers.
  (The block caches carry no copy of the registers, so this rests on the flush the write performs.)
\<close>

theorem cp15_write_coherent:
  assumes "data_inv rd blk wblk c"
  shows "data_inv rd blk wblk (cp15_write c crn crm opc2 v)"
proof -
  note fl = flush_data_inv [OF cp15_set_bounds [OF assms]]
  have f0: "data_inv rd blk wblk (arm_mmu_tlb_flush c)"
    using assms by (intro flush_data_inv) (simp_all add: data_inv_def mmu_inv_def)
  note st = cp15_set_inv [OF assms]
  show ?thesis
    unfolding cp15_write_def by (simp add: fl f0 st assms translation_regs_def)
qed

theorem cp15_write_coherent_witness:
  "data_inv (\<lambda>_. 0) (\<lambda>_. None) (\<lambda>_. None) (cp15_write demo_cpu 2 0 0 0x4000) \<and>
   ttbr0 (cp15 (cp15_write demo_cpu 2 0 0 0x4000)) = 0x4000"
  using cp15_write_coherent [OF demo_data_inv, of "\<lambda>_. 0" "\<lambda>_. None" "\<lambda>_. None" 2 0 0 "0x4000"]
  by (simp add: cp15_write_def cp15_set_def arm_mmu_tlb_flush_def Let_def)

end
