(* ===== verification/ArmXfer.thy ===== *)
theory ArmXfer
  imports ArmMem ArmAlu
begin

unbundle bit_operations_syntax

text \<open>
  The load and store instructions and the multiplies of \<open>core/src/arm/arm_interp.c\<close>: single
  transfers (LDR, STR and their byte and unprivileged forms), the halfword, sign-extending and
  doubleword forms, LDM and STM in all their variants, MUL and MLA, the long and the signed
  halfword multiplies. Memory goes through the accessors of \<open>ArmMem\<close>; an instruction that latches
  an abort returns with \<open>ARM_OK\<close> and the abort pending, as in the code, and \<open>arm_step\<close> turns it
  into the exception.
\<close>

definition set_reg :: "arm_cpu \<Rightarrow> nat \<Rightarrow> u32 \<Rightarrow> arm_cpu" where
  "set_reg c n v = c\<lparr>regs := (regs c)(n := v)\<rparr>"

text \<open>Interworking: bit 0 of a loaded PC selects the instruction set.\<close>

definition interwork :: "arm_cpu \<Rightarrow> u32 \<Rightarrow> arm_cpu \<times> u32" where
  "interwork c val =
     (set_flag c CPSR_T (bit val 0), val AND (if bit val 0 then NOT 1 else NOT 3))"

subsection \<open>LDR and STR\<close>

definition exec_single_transfer ::
  "'m arm_bus \<Rightarrow> 'm \<Rightarrow> arm_cpu \<Rightarrow> u32 \<Rightarrow> u32 \<Rightarrow> u32 \<Rightarrow> arm_status \<times> arm_cpu \<times> 'm \<times> u32" where
  "exec_single_transfer bus m c pc insn next =
     (let i = bit insn 25; p = bit insn 24; u = bit insn 23;
          b = bit insn 22; w = bit insn 21; l = bit insn 20;
          rn = fld insn 16 0xf; rd = fld insn 12 0xf;
          writeback = (\<not> p \<or> w);
          undefined_form =
            (writeback \<and> (rn = 15 \<or> rn = rd) \<or> i \<and> fld insn 0 0xf = 15 \<or> b \<and> rd = 15 \<or>
             l \<and> \<not> p \<and> w \<and> rd = 15)
      in if undefined_form then (ARM_UNDEFINED, c, m, next)
         else
           let offset = (if \<not> i then insn AND 0xfff
                         else fst (barrel_shift (reg_read c pc (fld insn 0 0xf)) (fld insn 5 3)
                                     (fld insn 7 0x1f) False (get_flag c CPSR_C)));
               base = reg_read c pc rn;
               moved = (if u then base + offset else base - offset);
               addr = (if p then moved else base);
               priv = (if \<not> p \<and> w then False else cpu_is_priv c);
               finish = (\<lambda>c. if \<not> p then set_reg c rn moved
                             else if w then set_reg c rn addr else c)
           in if l then
                (if rd = 15 \<and> addr AND 3 \<noteq> 0 then
                   (if sctlr (cp15 c) AND SCTLR_A \<noteq> 0
                    then (ARM_OK, note_alignment_abort c addr False, m, next)
                    else (ARM_UNDEFINED, c, m, next))
                 else
                   case mem_r_as bus (if b then 1 else 4) m c addr priv of
                     (val, c, m) \<Rightarrow>
                       if abort_pending c then (ARM_OK, c, m, next)
                       else if rd = 15 \<and> val AND 3 = 2 then (ARM_UNDEFINED, c, m, next)
                       else
                         let c = set_reg c rd val;
                             (c, next) = (if rd = 15 then interwork c val else (c, next))
                         in (ARM_OK, finish c, m, next))
              else
                (let val = (if rd = 15 then pc + 12 else regs c rd) in
                 case mem_w_as bus (if b then 1 else 4) m c addr val priv of
                   (c, m) \<Rightarrow>
                     if abort_pending c then (ARM_OK, c, m, next)
                     else (ARM_OK, finish c, m, next)))"

subsection \<open>Halfwords and doublewords\<close>

definition exec_extra_transfer ::
  "'m arm_bus \<Rightarrow> 'm \<Rightarrow> arm_cpu \<Rightarrow> u32 \<Rightarrow> u32 \<Rightarrow> u32 \<Rightarrow> arm_status \<times> arm_cpu \<times> 'm \<times> u32" where
  "exec_extra_transfer bus m c pc insn next =
     (let p = bit insn 24; u = bit insn 23; i = bit insn 22; w = bit insn 21; l = bit insn 20;
          rn = fld insn 16 0xf; rd = fld insn 12 0xf; sh = fld insn 5 3;
          writeback = (\<not> p \<or> w);
          doubleword = (\<not> l \<and> sh \<noteq> 1);
          undefined_form =
            (rd = 15 \<or> \<not> p \<and> w \<or> writeback \<and> (rn = 15 \<or> rn = rd) \<or>
             \<not> i \<and> (fld insn 8 0xf \<noteq> 0 \<or> fld insn 0 0xf = 15) \<or>
             doubleword \<and> (odd rd \<or> rd = 14 \<or> writeback \<and> rn = rd + 1))
      in if undefined_form then (ARM_UNDEFINED, c, m, next)
         else
           let offset = (if i then push_bit 4 (drop_bit 8 insn AND 0xf) OR (insn AND 0xf)
                         else reg_read c pc (fld insn 0 0xf));
               base = reg_read c pc rn;
               moved = (if u then base + offset else base - offset);
               addr = (if p then moved else base);
               finish = (\<lambda>c. if \<not> p then set_reg c rn moved
                             else if w then set_reg c rn addr else c)
           in if (sh = 1 \<or> l \<and> sh = 3) \<and> legacy_halfword_unpredictable c addr
              then (ARM_UNDEFINED, c, m, next)
              else if doubleword then
                (case prepare_multiword_address c addr 4 (sh = 3) of
                   (ok, c, xfer) \<Rightarrow>
                     if \<not> ok then (ARM_OK, c, m, next)
                     else if sh = 3 then
                       (case mem_w bus 4 m c xfer (reg_read c pc rd) of (c, m) \<Rightarrow>
                        if abort_pending c then (ARM_OK, c, m, next)
                        else
                          case mem_w bus 4 m c (xfer + 4) (reg_read c pc (rd + 1)) of (c, m) \<Rightarrow>
                          if abort_pending c then (ARM_OK, c, m, next)
                          else (ARM_OK, finish c, m, next))
                     else
                       (case mem_r bus 4 m c xfer of (lo, c, m) \<Rightarrow>
                        if abort_pending c then (ARM_OK, c, m, next)
                        else
                          case mem_r bus 4 m c (xfer + 4) of (hi, c, m) \<Rightarrow>
                          if abort_pending c then (ARM_OK, c, m, next)
                          else (ARM_OK, finish (set_reg (set_reg c rd lo) (rd + 1) hi), m, next)))
              else if l then
                (if sh = 0 then (ARM_UNDEFINED, c, m, next)
                 else
                   case mem_r bus (if sh = 2 then 1 else 2) m c addr of (raw, c, m) \<Rightarrow>
                     if abort_pending c then (ARM_OK, c, m, next)
                     else
                       let val = (if sh = 1 then raw
                                  else if sh = 2 then scast (ucast raw :: u8)
                                  else scast (ucast raw :: u16));
                           next = (if rd = 15 then val AND NOT 3 else next)
                       in (ARM_OK, finish (set_reg c rd val), m, next))
              else
                (case mem_w bus 2 m c addr (reg_read c pc rd) of (c, m) \<Rightarrow>
                 if abort_pending c then (ARM_OK, c, m, next)
                 else (ARM_OK, finish c, m, next)))"

subsection \<open>LDM and STM\<close>

text \<open>The registers a list names, in the order they are transferred.\<close>

definition reg_list :: "u32 \<Rightarrow> nat list" where
  "reg_list l = filter (\<lambda>i. bit l i) [0..<16]"

text \<open>The transfer loop: stops at the first access that latches an abort.\<close>

fun block_loop ::
  "'m arm_bus \<Rightarrow> bool \<Rightarrow> bool \<Rightarrow> u32 \<Rightarrow> nat list \<Rightarrow> u32 \<Rightarrow> (nat \<Rightarrow> u32) \<Rightarrow> arm_cpu \<Rightarrow> 'm \<Rightarrow>
   (nat \<Rightarrow> u32) \<times> arm_cpu \<times> 'm" where
  "block_loop bus l user_bank pc [] addr loaded c m = (loaded, c, m)"
| "block_loop bus l user_bank pc (i # is) addr loaded c m =
     (let (loaded, c, m) =
        (if l then (case mem_r bus 4 m c addr of (v, c, m) \<Rightarrow> (loaded(i := v), c, m))
         else
           let v = (if i = 15 then pc + 12
                    else if user_bank then reg_read_user c pc i else regs c i)
           in (case mem_w bus 4 m c addr v of (c, m) \<Rightarrow> (loaded, c, m)))
      in if abort_pending c then (loaded, c, m)
         else block_loop bus l user_bank pc is (addr + 4) loaded c m)"

text \<open>The commit loop of a load.\<close>

fun block_commit ::
  "bool \<Rightarrow> bool \<Rightarrow> nat list \<Rightarrow> (nat \<Rightarrow> u32) \<Rightarrow> arm_cpu \<Rightarrow> u32 \<Rightarrow> arm_cpu \<times> u32" where
  "block_commit user_bank restore [] loaded c next = (c, next)"
| "block_commit user_bank restore (i # is) loaded c next =
     (if user_bank then block_commit user_bank restore is loaded (reg_write_user c i (loaded i)) next
      else
        let c = set_reg c i (loaded i);
            (c, next) = (if i = 15 \<and> \<not> restore then interwork c (loaded i) else (c, next))
        in block_commit user_bank restore is loaded c next)"

definition exec_block_transfer ::
  "'m arm_bus \<Rightarrow> 'm \<Rightarrow> arm_cpu \<Rightarrow> u32 \<Rightarrow> u32 \<Rightarrow> u32 \<Rightarrow> arm_status \<times> arm_cpu \<times> 'm \<times> u32" where
  "exec_block_transfer bus m c pc insn next =
     (let p = bit insn 24; u = bit insn 23; s = bit insn 22; w = bit insn 21; l = bit insn 20;
          rn = fld insn 16 0xf;
          lst = insn AND 0xffff;
          restore = (s \<and> l \<and> bit lst 15);
          user_bank = (s \<and> \<not> (l \<and> bit lst 15));
          b = arm_bank_of_mode (cpsr c);
          mode = cpsr c AND CPSR_MODE_MASK;
          undefined_form =
            (lst = 0 \<or> rn = 15 \<or>
             restore \<and> (b = BANK_USR \<or> \<not> arm_mode_is_valid (spsr c b)) \<or>
             user_bank \<and> (mode = MODE_USR \<or> mode = MODE_SYS) \<or>
             user_bank \<and> w \<or>
             w \<and> bit lst rn \<and> (l \<or> lst AND (push_bit rn 1 - 1) \<noteq> 0))
      in if undefined_form then (ARM_UNDEFINED, c, m, next)
         else
           let is = reg_list lst;
               n = of_nat (length is) :: u32;
               base = reg_read c pc rn;
               addr0 = (if u then (if p then base + 4 else base)
                        else (if p then base - 4 * n else base - 4 * n + 4));
               wb = (if u then base + 4 * n else base - 4 * n)
           in case prepare_multiword_address c addr0 4 (\<not> l) of
                (ok, c, addr) \<Rightarrow>
                if \<not> ok then (ARM_OK, c, m, next)
                else
                  case block_loop bus l user_bank pc is addr (\<lambda>_. 0) c m of
                    (loaded, c, m) \<Rightarrow>
                    if abort_pending c then (ARM_OK, c, m, next)
                    else if l \<and> \<not> restore \<and> bit lst 15 \<and> loaded 15 AND 3 = 2
                    then (ARM_UNDEFINED, c, m, next)
                    else if l \<and> restore \<and>
                            spsr c (arm_bank_of_mode (cpsr c)) AND CPSR_T = 0 \<and> loaded 15 AND 2 \<noteq> 0
                    then (ARM_UNDEFINED, c, m, next)
                    else
                      let (c, next) = (if l then block_commit user_bank restore is loaded c next
                                       else (c, next));
                          c = (if w \<and> \<not> (l \<and> bit lst rn) then set_reg c rn wb else c)
                      in if restore then
                           let c = restore_cpsr c (spsr c (arm_bank_of_mode (cpsr c)))
                           in (ARM_OK, c, m,
                               loaded 15 AND (if cpsr c AND CPSR_T \<noteq> 0 then NOT 1 else NOT 3))
                         else (ARM_OK, c, m, next))"

subsection \<open>Multiplication\<close>

definition exec_multiply :: "arm_cpu \<Rightarrow> u32 \<Rightarrow> u32 \<Rightarrow> arm_status \<times> arm_cpu" where
  "exec_multiply c pc insn =
     (let a = bit insn 21; s = bit insn 20;
          rd = fld insn 16 0xf; rn = fld insn 12 0xf; rs = fld insn 8 0xf; rm = fld insn 0 0xf;
          res = reg_read c pc rm * reg_read c pc rs + (if a then reg_read c pc rn else 0);
          c = set_reg c rd res
      in (ARM_OK, if s then set_flag (set_flag c CPSR_N (bit res 31)) CPSR_Z (res = 0) else c))"

definition exec_multiply_long :: "arm_cpu \<Rightarrow> u32 \<Rightarrow> u32 \<Rightarrow> arm_status \<times> arm_cpu" where
  "exec_multiply_long c pc insn =
     (let is_signed = bit insn 22; a = bit insn 21; s = bit insn 20;
          rdhi = fld insn 16 0xf; rdlo = fld insn 12 0xf; rs = fld insn 8 0xf; rm = fld insn 0 0xf
      in if rdhi = 15 \<or> rdlo = 15 \<or> rs = 15 \<or> rm = 15 \<or> rdhi = rdlo then (ARM_UNDEFINED, c)
         else
           let x = reg_read c pc rm; y = reg_read c pc rs;
               prod = (if is_signed then scast x * scast y else ucast x * ucast y) :: u64;
               res = prod + (if a then push_bit 32 (ucast (regs c rdhi)) OR ucast (regs c rdlo) else 0);
               c = set_reg (set_reg c rdlo (ucast res)) rdhi (ucast (drop_bit 32 res))
           in (ARM_OK, if s then set_flag (set_flag c CPSR_N (bit res 63)) CPSR_Z (res = 0) else c))"

definition dsp_signed_half :: "u32 \<Rightarrow> bool \<Rightarrow> int" where
  "dsp_signed_half value hi_half =
     (let half = drop_bit (if hi_half then 16 else 0) value AND 0xffff
      in if half AND 0x8000 \<noteq> 0 then uint half - 65536 else uint half)"

definition dsp_signed_word :: "u32 \<Rightarrow> int" where
  "dsp_signed_word value =
     (if value AND 0x80000000 \<noteq> 0 then uint value - 4294967296 else uint value)"

definition dsp_accumulate_word :: "arm_cpu \<Rightarrow> int \<Rightarrow> u32 \<Rightarrow> u32 \<times> arm_cpu" where
  "dsp_accumulate_word c product accumulator =
     (let sum = product + dsp_signed_word accumulator
      in (word_of_int sum,
          if sum > INT32_MAX \<or> sum < INT32_MIN then c\<lparr>cpsr := cpsr c OR CPSR_Q\<rparr> else c))"

definition exec_dsp_multiply :: "arm_cpu \<Rightarrow> u32 \<Rightarrow> arm_status \<times> arm_cpu" where
  "exec_dsp_multiply c insn =
     (let rd = fld insn 16 0xf; rn = fld insn 12 0xf; rs = fld insn 8 0xf; rm = fld insn 0 0xf;
          x = bit insn 5; y = bit insn 6
      in if insn AND 0x0ff00090 = 0x01000080 then
           (if rd = 15 \<or> rn = 15 \<or> rs = 15 \<or> rm = 15 then (ARM_UNDEFINED, c)
            else
              let product = dsp_signed_half (regs c rm) x * dsp_signed_half (regs c rs) y;
                  (v, c) = dsp_accumulate_word c product (regs c rn)
              in (ARM_OK, set_reg c rd v))
         else if insn AND 0x0ff000b0 = 0x01200080 then
           (if rd = 15 \<or> rn = 15 \<or> rs = 15 \<or> rm = 15 then (ARM_UNDEFINED, c)
            else
              let product = dsp_signed_word (regs c rm) * dsp_signed_half (regs c rs) y;
                  upper = ucast (drop_bit 16 (word_of_int product :: u64)) :: u32;
                  (v, c) = dsp_accumulate_word c (dsp_signed_word upper) (regs c rn)
              in (ARM_OK, set_reg c rd v))
         else if insn AND 0x0ff0f0b0 = 0x012000a0 then
           (if rd = 15 \<or> rs = 15 \<or> rm = 15 then (ARM_UNDEFINED, c)
            else
              let product = dsp_signed_word (regs c rm) * dsp_signed_half (regs c rs) y
              in (ARM_OK, set_reg c rd (ucast (drop_bit 16 (word_of_int product :: u64)))))
         else if insn AND 0x0ff00090 = 0x01400080 then
           (if rd = 15 \<or> rn = 15 \<or> rs = 15 \<or> rm = 15 \<or> rd = rn then (ARM_UNDEFINED, c)
            else
              let accumulator = push_bit 32 (ucast (regs c rd)) OR ucast (regs c rn) :: u64;
                  product = dsp_signed_half (regs c rm) x * dsp_signed_half (regs c rs) y;
                  result = accumulator + word_of_int product
              in (ARM_OK, set_reg (set_reg c rn (ucast result)) rd (ucast (drop_bit 32 result))))
         else if insn AND 0x0ff0f090 = 0x01600080 then
           (if rd = 15 \<or> rs = 15 \<or> rm = 15 then (ARM_UNDEFINED, c)
            else
              let product = dsp_signed_half (regs c rm) x * dsp_signed_half (regs c rs) y
              in (ARM_OK, set_reg c rd (word_of_int product)))
         else (ARM_UNDEFINED, c))"

subsection \<open>Memory accesses leave the programmer's state alone\<close>

text \<open>Everything an instruction can observe of the CPU, apart from the abort it may have latched.\<close>

definition arch_view ::
  "arm_cpu \<Rightarrow> (nat \<Rightarrow> u32) \<times> u32 \<times> (arm_bank \<Rightarrow> u32) \<times> (arm_bank \<Rightarrow> u32) \<times> (arm_bank \<Rightarrow> u32) \<times>
     (nat \<Rightarrow> u32) \<times> (nat \<Rightarrow> u32) \<times> arm_cp15 \<times> bool \<times> u32 \<times> u32 \<times> u32 \<times> (nat \<Rightarrow> u32)" where
  "arch_view c = (regs c, cpsr c, spsr c, bank_r13 c, bank_r14 c, fiq_r8_12 c, usr_r8_12 c, cp15 c,
     excl_valid c, excl_addr c, vfp_fpexc c, vfp_fpscr c, vfp_s c)"

lemma view_note_abort: "arch_view (note_abort c f a) = arch_view c"
  by (simp add: arch_view_def note_abort_def)

lemma view_align_abort: "arch_view (note_alignment_abort c a w) = arch_view c"
  by (simp add: note_alignment_abort_def view_note_abort)

lemma view_flush: "arch_view (arm_mmu_tlb_flush c) = arch_view c"
  by (simp add: arch_view_def arm_mmu_tlb_flush_def Let_def)

lemma view_refresh: "arch_view (mmu_refresh c) = arch_view c"
proof -
  have s: "arch_view (c\<lparr>tlb_gen := 1\<rparr>) = arch_view c" "arch_view (d\<lparr>tlb_stamp := t\<rparr>) = arch_view d" for d t
    by (simp_all add: arch_view_def)
  show ?thesis by (simp add: mmu_refresh_def Let_def s view_flush)
qed

lemma view_translate:
  assumes "arm_mmu_translate bus m c va acc priv = (f, pa, c', m')"
  shows "arch_view c' = arch_view c"
proof -
  have s: "arch_view (d\<lparr>tlb_hits := k\<rparr>) = arch_view d" "arch_view (d\<lparr>tlb_misses := k, tlb := t\<rparr>) = arch_view d" for d k t
    by (simp_all add: arch_view_def)
  show ?thesis
    using assms view_refresh [of c]
    by (auto simp: arm_mmu_translate_def Let_def s split: if_splits prod.splits)
qed

lemma view_dread_hit: "dread_hit c va n priv = (h, c') \<Longrightarrow> arch_view c' = arch_view c"
  by (auto simp: dread_hit_def Let_def arch_view_def split: option.splits if_splits)

lemma view_dwrite_hit: "dwrite_hit bus c va n priv = (h, c') \<Longrightarrow> arch_view c' = arch_view c"
  by (auto simp: dwrite_hit_def Let_def arch_view_def split: option.splits if_splits)

lemma view_dread_fill: "arch_view (dread_fill bus m c va pa priv) = arch_view c"
  by (simp add: dread_fill_def arch_view_def split: option.splits)

lemma view_dwrite_fill: "arch_view (dwrite_fill bus m c va pa priv) = arch_view c"
  by (simp add: dwrite_fill_def arch_view_def split: option.splits)

lemma view_read_crossing:
  "mem_read_crossing_loop bus va priv i k val page c m = (v, c', m') \<Longrightarrow> arch_view c' = arch_view c"
proof (induction k arbitrary: i val page c m)
  case 0
  then show ?case by simp
next
  case (Suc k)
  obtain f pa d md where t: "arm_mmu_translate bus m c (va + of_nat i) ACCESS_READ priv = (f, pa, d, md)"
    by (cases "arm_mmu_translate bus m c (va + of_nat i) ACCESS_READ priv") auto
  show ?case
    using Suc.prems Suc.IH view_translate [OF t]
    by (auto simp: t Let_def view_note_abort split: if_splits prod.splits simp del: of_nat_Suc)
qed

lemma view_write_crossing:
  "mem_write_crossing_loop bus va v priv i k page c m = (c', m') \<Longrightarrow> arch_view c' = arch_view c"
proof (induction k arbitrary: i page c m)
  case 0
  then show ?case by simp
next
  case (Suc k)
  obtain f pa d md where t: "arm_mmu_translate bus m c (va + of_nat i) ACCESS_WRITE priv = (f, pa, d, md)"
    by (cases "arm_mmu_translate bus m c (va + of_nat i) ACCESS_WRITE priv") auto
  show ?case
    using Suc.prems Suc.IH view_translate [OF t]
    by (auto simp: t Let_def view_note_abort split: if_splits prod.splits simp del: of_nat_Suc)
qed

lemma view_mem_r_as:
  assumes "mem_r_as bus n m c va priv = (v, c', m')"
  shows "arch_view c' = arch_view c"
  using assms
  by (auto dest!: view_dread_hit view_translate view_read_crossing simp: mem_r_as_def mem_read_crossing_def view_align_abort view_note_abort view_dread_fill Let_def
      split: option.splits if_splits prod.splits)

lemma view_mem_w_as:
  assumes "mem_w_as bus n m c va v priv = (c', m')"
  shows "arch_view c' = arch_view c"
  using assms
  by (auto dest!: view_dwrite_hit view_translate view_write_crossing simp: mem_w_as_def mem_write_crossing_def view_align_abort view_note_abort view_dwrite_fill Let_def
      split: option.splits if_splits prod.splits)


lemma view_mem_r: "mem_r bus n m c va = (v, c', m') \<Longrightarrow> arch_view c' = arch_view c"
  unfolding mem_r_def by (rule view_mem_r_as)

lemma view_mem_w: "mem_w bus n m c va v = (c', m') \<Longrightarrow> arch_view c' = arch_view c"
  unfolding mem_w_def by (rule view_mem_w_as)

lemma view_prepare:
  "prepare_multiword_address c va al w = (ok, c', va') \<Longrightarrow> arch_view c' = arch_view c \<and> (ok \<longrightarrow> c' = c)"
  by (auto simp: prepare_multiword_address_def Let_def view_align_abort split: if_splits)

lemma view_block_loop:
  "block_loop bus l ub pc is addr ld c m = (ld', c', m') \<Longrightarrow> arch_view c' = arch_view c"
proof (induction "is" arbitrary: addr ld c m)
  case Nil
  then show ?case by simp
next
  case (Cons i "is")
  show ?case
    using Cons.prems Cons.IH
    by (auto simp: Let_def dest!: view_mem_r view_mem_w split: if_splits prod.splits)
qed

subsection \<open>The base-restored abort model\<close>

lemma abort_set_reg [simp]: "abort_pending (set_reg c r v) = abort_pending c"
  by (simp add: set_reg_def)

lemma abort_interwork: "interwork c v = (d, n) \<Longrightarrow> abort_pending d = abort_pending c"
  by (auto simp: interwork_def set_flag_def)

lemma abort_block_commit:
  "block_commit ub restore is ld c next = (d, n) \<Longrightarrow> abort_pending d = abort_pending c"
proof (induction "is" arbitrary: c "next")
  case Nil
  then show ?case by simp
next
  case (Cons i "is")
  have w: "abort_pending (reg_write_user c i v) = abort_pending c" for v
    by (simp add: reg_write_user_def Let_def)
  show ?case
    using Cons.prems Cons.IH w
    by (auto simp: Let_def dest!: abort_interwork split: if_splits prod.splits)
qed

lemma single_transfer_abort:
  assumes "exec_single_transfer bus m c pc insn next = (s, d, m', n)" and "abort_pending d" "\<not> abort_pending c"
  shows "arch_view d = arch_view c \<and> n = next \<and> s = ARM_OK"
  using assms
  by (auto simp: exec_single_transfer_def Let_def view_align_abort
      dest: view_mem_r_as view_mem_w_as dest!: abort_interwork split: if_splits prod.splits)

lemma extra_transfer_abort:
  assumes "exec_extra_transfer bus m c pc insn next = (s, d, m', n)" and "abort_pending d" "\<not> abort_pending c"
  shows "arch_view d = arch_view c \<and> n = next \<and> s = ARM_OK"
  using assms
  by (auto simp: exec_extra_transfer_def Let_def view_align_abort
      dest!: view_mem_r view_mem_w view_prepare split: if_splits prod.splits)

lemma block_transfer_abort:
  assumes "exec_block_transfer bus m c pc insn next = (s, d, m', n)" and "abort_pending d" "\<not> abort_pending c"
  shows "arch_view d = arch_view c \<and> n = next \<and> s = ARM_OK"
proof -
  have r: "abort_pending (restore_cpsr e k) = abort_pending e" for e k
    by (simp add: restore_cpsr_def Let_def)
  show ?thesis
    using assms unfolding exec_block_transfer_def Let_def
    by (auto simp: r dest!: view_block_loop view_prepare abort_block_commit split: if_splits prod.splits)
qed

lemma sint_as_uint32: "sint (w :: u32) = uint w - (if bit w 31 then 2 ^ 32 else 0)"
proof -
  have "uint w mod 2 ^ 32 = uint w" using unsigned_less [where 'a=int, of w] by (simp add: mod_pos_pos_trivial)
  then show ?thesis
    unfolding sint_uint by (simp add: signed_take_bit_eq_take_bit_minus bit_uint_iff take_bit_eq_mod)
qed

lemma sint_as_uint64: "sint (w :: u64) = uint w - (if bit w 63 then 2 ^ 64 else 0)"
proof -
  have "uint w mod 2 ^ 64 = uint w" using unsigned_less [where 'a=int, of w] by (simp add: mod_pos_pos_trivial)
  then show ?thesis
    unfolding sint_uint by (simp add: signed_take_bit_eq_take_bit_minus bit_uint_iff take_bit_eq_mod)
qed

lemma uint_low_half: "uint (ucast (r :: u64) :: u32) = uint r mod 2 ^ 32"
  by (simp add: unsigned_ucast_eq take_bit_eq_mod)

lemma uint_high_half: "uint (ucast (drop_bit 32 (r :: u64)) :: u32) = uint r div 2 ^ 32"
proof -
  have "uint r < 2 ^ 64" "0 \<le> uint r" using unsigned_less [where 'a=int, of r] by simp_all
  then have "uint r div 2 ^ 32 < 2 ^ 32" "0 \<le> uint r div 2 ^ 32"
    by (simp_all add: pos_imp_zdiv_nonneg_iff)
  then have "uint r div 2 ^ 32 mod 2 ^ 32 = uint r div 2 ^ 32" by (simp add: mod_pos_pos_trivial)
  moreover have "uint (r div 2 ^ 32) = uint r div 2 ^ 32" by (simp add: uint_div)
  ultimately show ?thesis
    unfolding unsigned_ucast_eq take_bit_eq_mod drop_bit_eq_div by simp
qed

lemma halves_value:
  "uint (ucast (drop_bit 32 (r :: u64)) :: u32) * 2 ^ 32 + uint (ucast r :: u32) = uint r"
  "sint (ucast (drop_bit 32 (r :: u64)) :: u32) * 2 ^ 32 + uint (ucast r :: u32) = sint r"
proof -
  show u: "uint (ucast (drop_bit 32 r) :: u32) * 2 ^ 32 + uint (ucast r :: u32) = uint r"
    unfolding uint_high_half unfolding uint_low_half by (rule div_mult_mod_eq)
  have b: "bit (ucast (drop_bit 32 r) :: u32) 31 = bit r 63"
    by (simp add: bit_ucast_iff bit_drop_bit_eq)
  show "sint (ucast (drop_bit 32 r) :: u32) * 2 ^ 32 + uint (ucast r :: u32) = sint r"
    unfolding sint_as_uint32 sint_as_uint64 b left_diff_distrib using u
    by (cases "bit r 63") simp_all
qed

lemma uint_product: "uint (ucast (x :: u32) * ucast (y :: u32) :: u64) = uint x * uint y"
proof -
  have "uint x * uint y < 2 ^ 32 * 2 ^ 32"
    using unsigned_less [where 'a=int, of x] unsigned_less [where 'a=int, of y]
    by (intro mult_strict_mono) simp_all
  moreover have "uint (ucast z :: u64) = uint z" for z :: u32
    using unsigned_less [where 'a=int, of z] by (simp add: unsigned_ucast_eq take_bit_int_eq_self)
  ultimately show ?thesis by (simp add: uint_word_ariths(3))
qed

lemma sint_product: "sint (scast (x :: u32) * scast (y :: u32) :: u64) = sint x * sint y"
proof -
  have b: "\<bar>sint z\<bar> \<le> 2 ^ 31" for z :: u32 using sint_bounds [of z] by (simp add: abs_le_iff)
  have "\<bar>sint x * sint y\<bar> \<le> 2 ^ 31 * 2 ^ 31"
    unfolding abs_mult by (rule mult_mono [OF b b]) simp_all
  then have r: "- (2 ^ 63) \<le> sint x * sint y" "sint x * sint y < 2 ^ 63" by (simp_all add: abs_le_iff)
  have "scast x * scast y = (word_of_int (sint x * sint y) :: u64)" by simp
  then show ?thesis using r by (simp add: signed_of_int signed_take_bit_int_eq_self del: of_int_mult)
qed

text \<open>
  UMULL and SMULL deliver the exact 64-bit product: the two destination registers, read as one
  number (unsigned or signed), are the product of the source registers, with N the sign and Z the
  zeroness of the whole product when flags are asked for.
\<close>

theorem long_multiply_exact:
  assumes "\<not> bit insn 21" and "exec_multiply_long c pc insn = (ARM_OK, d)"
  shows "let hi = regs d (fld insn 16 0xf); lo = regs d (fld insn 12 0xf);
             x = reg_read c pc (fld insn 0 0xf); y = reg_read c pc (fld insn 8 0xf);
             p = (if bit insn 22 then sint x * sint y else uint x * uint y)
         in (if bit insn 22 then sint hi else uint hi) * 2 ^ 32 + uint lo = p \<and>
            (bit insn 20 \<longrightarrow> get_flag d CPSR_Z = (p = 0) \<and> get_flag d CPSR_N = bit hi 31)"
proof -
  let ?x = "reg_read c pc (fld insn 0 0xf)" and ?y = "reg_read c pc (fld insn 8 0xf)"
  define r :: u64 where "r = (if bit insn 22 then scast ?x * scast ?y else ucast ?x * ucast ?y)"
  have ne: "fld insn 16 0xf \<noteq> fld insn 12 0xf"
    using assms(2) by (auto simp: exec_multiply_long_def Let_def split: if_splits)
  have d: "d = (if bit insn 20 then set_flag (set_flag
      (set_reg (set_reg c (fld insn 12 0xf) (ucast r)) (fld insn 16 0xf) (ucast (drop_bit 32 r)))
        CPSR_N (bit r 63)) CPSR_Z (r = 0)
      else set_reg (set_reg c (fld insn 12 0xf) (ucast r)) (fld insn 16 0xf) (ucast (drop_bit 32 r)))"
    using assms by (simp add: exec_multiply_long_def Let_def r_def split: if_splits)
  have regs: "regs d (fld insn 16 0xf) = ucast (drop_bit 32 r)" "regs d (fld insn 12 0xf) = ucast r"
    using ne unfolding d by (simp_all add: set_reg_def)
  have z: "r = 0 \<longleftrightarrow> (if bit insn 22 then sint r else uint r) = 0"
    by (simp add: signed_word_eqI [of r 0] word_uint_eq_iff signed_eq_0_iff)
  have n: "bit (ucast (drop_bit 32 r) :: u32) 31 = bit r 63"
    by (simp add: bit_ucast_iff bit_drop_bit_eq)
  have p: "(if bit insn 22 then sint r else uint r) = (if bit insn 22 then sint ?x * sint ?y else uint ?x * uint ?y)"
    by (simp add: r_def uint_product sint_product)
  have zd: "bit insn 20 \<longrightarrow> get_flag d CPSR_Z = (r = 0) \<and> get_flag d CPSR_N = bit r 63"
    unfolding d by simp
  show ?thesis
    unfolding Let_def regs p [symmetric] using halves_value [of r] zd n z
    by (cases "bit insn 22") simp_all
qed

theorem long_multiply_exact_witness:
  "let c = cpu_zero\<lparr>regs := (\<lambda>_. 0xffffffff)\<rparr>; d = snd (exec_multiply_long c 0 0xe0810392)
   in uint (regs d 1) * 2 ^ 32 + uint (regs d 0) = 0xffffffff * 0xffffffff"
proof -
  let ?c = "cpu_zero\<lparr>regs := (\<lambda>_. 0xffffffff)\<rparr>"
  have "exec_multiply_long ?c 0 0xe0810392 = (ARM_OK, snd (exec_multiply_long ?c 0 0xe0810392))"
    by (simp add: exec_multiply_long_def Let_def fld_def cpu_zero_def)
  from long_multiply_exact [OF _ this]
  show ?thesis by (simp add: bit_numeral_word_iff Let_def fld_def reg_read_def)
qed

text \<open>
  C10. An instruction whose transfer faults can be restarted: when LDR/STR, the halfword and
  doubleword forms or LDM/STM latch an abort, they return with every architectural register, bank,
  status register and coprocessor register unchanged (no write-back, no partially loaded list) and
  the next PC where it was, so the abort handler sees the state before the instruction.
\<close>

theorem aborted_transfer_restores:
  assumes "f = exec_single_transfer \<or> f = exec_extra_transfer \<or> f = exec_block_transfer"
    and "f bus m c pc insn next = (s, d, m', n)" and "abort_pending d" "\<not> abort_pending c"
  shows "arch_view d = arch_view c \<and> n = next \<and> s = ARM_OK"
  using assms single_transfer_abort extra_transfer_abort block_transfer_abort by metis

theorem aborted_transfer_restores_witness:
  "let c = cpu_zero\<lparr>cp15 := cp15_zero\<lparr>sctlr := 2\<rparr>, regs := (\<lambda>_. 1)\<rparr>;
       r = exec_single_transfer (rom_bus (\<lambda>_. 7)) () c 0 0xe5b10004 4
   in abort_pending (fst (snd r)) \<and> regs (fst (snd r)) = regs c"
proof -
  let ?c = "cpu_zero\<lparr>cp15 := cp15_zero\<lparr>sctlr := 2\<rparr>, regs := (\<lambda>_. 1)\<rparr>"
  obtain s d m' n where r: "exec_single_transfer (rom_bus (\<lambda>_. 7)) () ?c 0 0xe5b10004 4 = (s, d, m', n)"
    by (cases "exec_single_transfer (rom_bus (\<lambda>_. 7)) () ?c 0 0xe5b10004 4")
  have a: "abort_pending d"
    using r by (clarsimp simp: exec_single_transfer_def Let_def fld_def bit_numeral_word_iff reg_read_def mem_r_as_def
        mem_align_def cpu_zero_def cp15_zero_def note_alignment_abort_def note_abort_def)
  have p: "\<not> abort_pending ?c" by (simp add: cpu_zero_def)
  have "arch_view d = arch_view ?c" using aborted_transfer_restores [where f=exec_single_transfer, OF _ r a p] by simp
  then show ?thesis using a r by (simp add: Let_def arch_view_def)
qed

end
