(* ===== verification/ArmMedia.thy ===== *)
theory ArmMedia
  imports ArmXfer
begin

unbundle bit_operations_syntax

text \<open>
  The ARMv6 media instructions, \<open>exec_media\<close> of \<open>core/src/arm/arm_interp.c\<close>: one definition per
  family, in the order the decoder tests them. An operand that names the program counter is refused
  by every family, so the registers are read directly where the code calls \<open>reg_read\<close>. Products
  and sums the code forms in \<open>int64_t\<close> are integers here; they are narrowed where the code
  narrows them, and the additions that can leave the 64-bit range wrap.
\<close>

subsection \<open>Extension and byte reversal\<close>

definition media_extend :: "arm_cpu \<Rightarrow> u32 \<Rightarrow> u32 \<Rightarrow> arm_status \<times> arm_cpu" where
  "media_extend c pc insn =
     (let op = fld insn 20 0xf; rn = fld insn 16 0xf; rd = fld insn 12 0xf; rm = fld insn 0 0xf;
          rot = fld insn 10 3
      in if rd = 15 \<or> rm = 15 then (ARM_UNDEFINED, c)
         else
           let v = ror32 (reg_read c pc rm) (rot * 8) in
           if op = 0x8 \<or> op = 0xc then
             let lo_ext = (if op = 0x8 then ucast (sign_extend8 v) else ucast v AND 0xff) :: u16;
                 hi_ext = (if op = 0x8 then ucast (sign_extend8 (drop_bit 16 v))
                           else ucast (drop_bit 16 v) AND 0xff) :: u16;
                 base = (if rn \<noteq> 15 then reg_read c pc rn else 0);
                 lo = ucast base + lo_ext;
                 hi = ucast (drop_bit 16 base) + hi_ext
             in (ARM_OK, set_reg c rd (ucast lo OR push_bit 16 (ucast hi)))
           else
             let value = (if op = 0xa then Some (sign_extend8 v)
                          else if op = 0xb then Some (sign_extend16 v)
                          else if op = 0xe then Some (v AND 0xff)
                          else if op = 0xf then Some (v AND 0xffff)
                          else None)
             in case value of
                  None \<Rightarrow> (ARM_UNDEFINED, c)
                | Some res \<Rightarrow>
                    (ARM_OK, set_reg c rd (if rn \<noteq> 15 then res + reg_read c pc rn else res)))"

definition rev_word :: "u32 \<Rightarrow> u32" where
  "rev_word v = push_bit 24 (v AND 0xff) OR push_bit 8 (v AND 0xff00)
     OR (drop_bit 8 v AND 0xff00) OR (drop_bit 24 v AND 0xff)"

definition rev16_word :: "u32 \<Rightarrow> u32" where
  "rev16_word v = push_bit 8 (v AND 0x00ff) OR drop_bit 8 (v AND 0xff00)
     OR push_bit 8 (v AND 0x00ff0000) OR drop_bit 8 (v AND 0xff000000)"

definition revsh_word :: "u32 \<Rightarrow> u32" where
  "revsh_word v = sign_extend16 (ucast (ucast (push_bit 8 (v AND 0xff) OR (drop_bit 8 v AND 0xff)) :: u16))"

definition media_reverse :: "(u32 \<Rightarrow> u32) \<Rightarrow> arm_cpu \<Rightarrow> u32 \<Rightarrow> u32 \<Rightarrow> arm_status \<times> arm_cpu" where
  "media_reverse f c pc insn =
     (let rd = fld insn 12 0xf; rm = fld insn 0 0xf
      in if rd = 15 \<or> rm = 15 then (ARM_UNDEFINED, c)
         else (ARM_OK, set_reg c rd (f (reg_read c pc rm))))"

subsection \<open>Parallel addition and subtraction\<close>

text \<open>
  One lane: the operands are the masked lane values. The result is the lane value before it is
  masked, and whether the lane sets its GE bit.
\<close>

definition par_lane :: "bool \<Rightarrow> bool \<Rightarrow> bool \<Rightarrow> bool \<Rightarrow> bool \<Rightarrow> u32 \<Rightarrow> u32 \<Rightarrow> u32 \<times> bool" where
  "par_lane byte is_signed sat halve sub am bm =
     (let as = (if is_signed then (if byte then sint (ucast am :: u8) else sint (ucast am :: u16))
                else uint am);
          bs = (if is_signed then (if byte then sint (ucast bm :: u8) else sint (ucast bm :: u16))
                else uint bm);
          sv = (if sub then as - bs else as + bs);
          uv = (if sub then uint am - uint bm else uint am + uint bm);
          k = (if byte then 255 else 65535 :: int);
          clamped =
            (if is_signed then
               (let lo = (if byte then - 128 else - 32768); hi = (if byte then 127 else 32767)
                in if sv < lo then lo else if sv > hi then hi else sv)
             else if uv < 0 then 0 else if uv > k then k else uv);
          lane = word_of_int
            (if halve then (if is_signed then drop_bit 1 sv else drop_bit 1 uv)
             else if sat then clamped
             else if is_signed then sv else uv);
          ge = (if is_signed then (if sat \<and> \<not> halve then clamped else sv) \<ge> 0
                else if sub then am \<ge> bm
                else uv > k)
      in (lane, ge))"

fun par_loop ::
  "nat list \<Rightarrow> nat \<Rightarrow> (nat \<Rightarrow> u32 \<times> bool) \<Rightarrow> u32 \<Rightarrow> u32 \<Rightarrow> u32 \<times> u32" where
  "par_loop [] width f result ge = (result, ge)"
| "par_loop (i # is) width f result ge =
     (let (lane, on) = f i;
          result = result OR push_bit (i * width) (lane AND (if width = 8 then 0xff else 0xffff));
          ge = (if \<not> on then ge
                else if width = 8 then ge OR push_bit i 1 else ge OR push_bit (i * 2) 3)
      in par_loop is width f result ge)"

definition media_parallel :: "arm_cpu \<Rightarrow> u32 \<Rightarrow> u32 \<Rightarrow> arm_status \<times> arm_cpu" where
  "media_parallel c pc insn =
     (let cls = fld insn 20 7; op = fld insn 5 7;
          rn = fld insn 16 0xf; rd = fld insn 12 0xf; rm = fld insn 0 0xf
      in if cls = 0 \<or> cls = 4 then (ARM_UNDEFINED, c)
         else if op = 5 \<or> op = 6 then (ARM_UNDEFINED, c)
         else if rd = 15 \<or> rn = 15 \<or> rm = 15 then (ARM_UNDEFINED, c)
         else
           let a = reg_read c pc rn; b = reg_read c pc rm;
               byte = (op = 4 \<or> op = 7); is_sub = (op = 3 \<or> op = 7);
               exch_as = (op = 1); exch_sa = (op = 2);
               is_signed = (cls = 1 \<or> cls = 2 \<or> cls = 3);
               sat = (cls = 2 \<or> cls = 6); halve = (cls = 3 \<or> cls = 7);
               writes_ge = (cls = 1 \<or> cls = 5);
               lanes = (if byte then 4 else 2); width = (if byte then 8 else 16 :: nat);
               k = (if byte then 0xff else 0xffff :: u32);
               one = (\<lambda>i.
                 let bi = (if \<not> byte \<and> (exch_as \<or> exch_sa) then 1 - i else i);
                     am = drop_bit (i * width) a AND k;
                     bm = drop_bit (bi * width) b AND k;
                     sub = (if exch_sa then i = 1 else if exch_as then i = 0 else is_sub)
                 in par_lane byte is_signed sat halve sub am bm);
               (result, ge) = par_loop [0..<lanes] width one 0 0;
               c = set_reg c rd result
           in (ARM_OK,
               if writes_ge then c\<lparr>cpsr := (cpsr c AND NOT (push_bit 16 0xf)) OR push_bit 16 (ge AND 0xf)\<rparr>
               else c))"

subsection \<open>Division\<close>

text \<open>C division truncates towards zero.\<close>

definition c_div :: "int \<Rightarrow> int \<Rightarrow> int" where
  "c_div a b = sgn a * sgn b * (\<bar>a\<bar> div \<bar>b\<bar>)"

definition media_divide :: "arm_cpu \<Rightarrow> u32 \<Rightarrow> arm_status \<times> arm_cpu" where
  "media_divide c insn =
     (let rd = fld insn 16 0xf; rm = fld insn 8 0xf; rn = fld insn 0 0xf;
          is_unsigned = bit insn 21
      in if arch c = V6_ARM1176 then (ARM_UNDEFINED, c)
         else if rd = 15 \<or> rn = 15 \<or> rm = 15 then (ARM_UNDEFINED, c)
         else
           let n = regs c rn; m = regs c rm
           in (ARM_OK, set_reg c rd
                 (if m = 0 then 0
                  else if is_unsigned then n div m
                  else if n = 0x80000000 \<and> m = 0xffffffff then 0x80000000
                  else word_of_int (c_div (sint n) (sint m)))))"

subsection \<open>Packing and selection\<close>

definition media_pack :: "arm_cpu \<Rightarrow> u32 \<Rightarrow> u32 \<Rightarrow> arm_status \<times> arm_cpu" where
  "media_pack c pc insn =
     (let rn = fld insn 16 0xf; rd = fld insn 12 0xf; rm = fld insn 0 0xf;
          imm5 = fld insn 7 0x1f; tb = bit insn 6
      in if rd = 15 \<or> rn = 15 \<or> rm = 15 then (ARM_UNDEFINED, c)
         else
           let n = reg_read c pc rn; m = reg_read c pc rm
           in if tb then
                let shifted = (if imm5 \<noteq> 0 then signed_drop_bit imm5 m else signed_drop_bit 31 m)
                in (ARM_OK, set_reg c rd ((n AND 0xffff0000) OR (shifted AND 0x0000ffff)))
              else
                let shifted = (if imm5 \<noteq> 0 then push_bit imm5 m else m)
                in (ARM_OK, set_reg c rd ((n AND 0x0000ffff) OR (shifted AND 0xffff0000))))"

fun sel_loop :: "nat list \<Rightarrow> u32 \<Rightarrow> u32 \<Rightarrow> u32 \<Rightarrow> u32 \<Rightarrow> u32" where
  "sel_loop [] ge n m out = out"
| "sel_loop (lane # ls) ge n m out =
     (let k = push_bit (lane * 8) 0xff
      in sel_loop ls ge n m (out OR (if bit ge lane then n AND k else m AND k)))"

definition media_select :: "arm_cpu \<Rightarrow> u32 \<Rightarrow> u32 \<Rightarrow> arm_status \<times> arm_cpu" where
  "media_select c pc insn =
     (let rn = fld insn 16 0xf; rd = fld insn 12 0xf; rm = fld insn 0 0xf
      in if rd = 15 \<or> rn = 15 \<or> rm = 15 then (ARM_UNDEFINED, c)
         else
           let n = reg_read c pc rn; m = reg_read c pc rm; ge = drop_bit 16 (cpsr c) AND 0xf
           in (ARM_OK, set_reg c rd (sel_loop [0..<4] ge n m 0)))"

subsection \<open>Dual multiplies and sums of differences\<close>

definition lane16 :: "u32 \<Rightarrow> bool \<Rightarrow> int" where
  "lane16 v high = sint (ucast (if high then drop_bit 16 v else v AND 0xffff) :: u16)"

definition dual_products :: "u32 \<Rightarrow> u32 \<Rightarrow> bool \<Rightarrow> int \<times> int" where
  "dual_products n m0 swap =
     (let m = (if swap then drop_bit 16 m0 OR push_bit 16 m0 else m0)
      in (lane16 n False * lane16 m False, lane16 n True * lane16 m True))"

definition media_dual :: "arm_cpu \<Rightarrow> u32 \<Rightarrow> u32 \<Rightarrow> arm_status \<times> arm_cpu" where
  "media_dual c pc insn =
     (let rd = fld insn 16 0xf; ra = fld insn 12 0xf; rm = fld insn 8 0xf; rn = fld insn 0 0xf;
          sub = bit insn 6; swap = bit insn 5
      in if rd = 15 \<or> rm = 15 \<or> rn = 15 then (ARM_UNDEFINED, c)
         else
           let (p1, p2) = dual_products (reg_read c pc rn) (reg_read c pc rm) swap;
               acc = (if sub then p1 - p2 else p1 + p2)
                     + (if ra \<noteq> 15 then sint (reg_read c pc ra) else 0);
               c = (if acc \<noteq> sint (word_of_int acc :: u32) then c\<lparr>cpsr := cpsr c OR CPSR_Q\<rparr> else c)
           in (ARM_OK, set_reg c rd (word_of_int acc)))"

definition media_dual_long :: "arm_cpu \<Rightarrow> u32 \<Rightarrow> u32 \<Rightarrow> arm_status \<times> arm_cpu" where
  "media_dual_long c pc insn =
     (let rdhi = fld insn 16 0xf; rdlo = fld insn 12 0xf; rm = fld insn 8 0xf; rn = fld insn 0 0xf;
          sub = bit insn 6; swap = bit insn 5
      in if rdhi = 15 \<or> rdlo = 15 \<or> rm = 15 \<or> rn = 15 \<or> rdhi = rdlo then (ARM_UNDEFINED, c)
         else
           let (p1, p2) = dual_products (reg_read c pc rn) (reg_read c pc rm) swap;
               wide = push_bit 32 (ucast (reg_read c pc rdhi)) OR ucast (reg_read c pc rdlo) :: u64;
               acc = wide + word_of_int (if sub then p1 - p2 else p1 + p2)
           in (ARM_OK, set_reg (set_reg c rdlo (ucast (acc AND 0xffffffff))) rdhi (ucast (drop_bit 32 acc))))"

definition media_top :: "arm_cpu \<Rightarrow> u32 \<Rightarrow> u32 \<Rightarrow> arm_status \<times> arm_cpu" where
  "media_top c pc insn =
     (let sel = fld insn 6 3
      in if sel \<noteq> 0 \<and> sel \<noteq> 3 then (ARM_UNDEFINED, c)
         else
           let rd = fld insn 16 0xf; ra = fld insn 12 0xf; rm = fld insn 8 0xf; rn = fld insn 0 0xf;
               sub = (sel = 3); round = bit insn 5
           in if rd = 15 \<or> rm = 15 \<or> rn = 15 then (ARM_UNDEFINED, c)
              else if sub \<and> ra = 15 then (ARM_UNDEFINED, c)
              else
                let prod = word_of_int (sint (reg_read c pc rn) * sint (reg_read c pc rm)) :: u64;
                    acc = (if ra = 15 then 0 else push_bit 32 (scast (reg_read c pc ra))) :: u64;
                    res = (if sub then acc - prod else acc + prod);
                    res = (if round then res + 0x80000000 else res)
                in (ARM_OK, set_reg c rd (ucast (drop_bit 32 res))))"

fun usad_loop :: "nat list \<Rightarrow> u32 \<Rightarrow> u32 \<Rightarrow> u32 \<Rightarrow> u32" where
  "usad_loop [] n m acc = acc"
| "usad_loop (lane # ls) n m acc =
     (let a = drop_bit (lane * 8) n AND 0xff; b = drop_bit (lane * 8) m AND 0xff
      in usad_loop ls n m (acc + (if a > b then a - b else b - a)))"

definition media_usad :: "arm_cpu \<Rightarrow> u32 \<Rightarrow> u32 \<Rightarrow> arm_status \<times> arm_cpu" where
  "media_usad c pc insn =
     (let rd = fld insn 16 0xf; ra = fld insn 12 0xf; rm = fld insn 8 0xf; rn = fld insn 0 0xf
      in if rd = 15 \<or> rm = 15 \<or> rn = 15 then (ARM_UNDEFINED, c)
         else
           let n = reg_read c pc rn; m = reg_read c pc rm;
               acc = (if ra = 15 then 0 else reg_read c pc ra)
           in (ARM_OK, set_reg c rd (usad_loop [0..<4] n m acc)))"

subsection \<open>The decoder\<close>

definition exec_media :: "arm_cpu \<Rightarrow> u32 \<Rightarrow> u32 \<Rightarrow> arm_status \<times> arm_cpu" where
  "exec_media c pc insn =
     (if insn AND 0x0f8003f0 = 0x06800070 then media_extend c pc insn
      else if insn AND 0x0fff0ff0 = 0x06bf0f30 then media_reverse rev_word c pc insn
      else if insn AND 0x0fff0ff0 = 0x06bf0fb0 then media_reverse rev16_word c pc insn
      else if insn AND 0x0fff0ff0 = 0x06ff0fb0 then media_reverse revsh_word c pc insn
      else if insn AND 0x0f800f10 = 0x06000f10 then media_parallel c pc insn
      else if insn AND 0x0fd0f0f0 = 0x0710f010 then media_divide c insn
      else if insn AND 0x0ff00030 = 0x06800010 then media_pack c pc insn
      else if insn AND 0x0ff00ff0 = 0x06800fb0 then media_select c pc insn
      else if insn AND 0x0ff00090 = 0x07000010 then media_dual c pc insn
      else if insn AND 0x0ff00090 = 0x07400010 then media_dual_long c pc insn
      else if insn AND 0x0ff00010 = 0x07500010 then media_top c pc insn
      else if insn AND 0x0ff000f0 = 0x07800010 then media_usad c pc insn
      else (ARM_UNDEFINED, c))"

end
