(* ===== verification/ArmThumb.thy ===== *)
theory ArmThumb
  imports ArmMedia
begin

unbundle bit_operations_syntax

text \<open>
  The Thumb instruction set: \<open>thumb_step\<close> of \<open>core/src/arm/arm_interp.c\<close>, one definition per arm of
  its switch on the top four bits, and the privileged SVC hook \<open>privileged_svc_result\<close> that both
  instruction sets use. The r15 a Thumb instruction reads is \<open>pc4 = pc + 4\<close>.
\<close>

type_synonym 'm thumb_result = "arm_status \<times> arm_cpu \<times> 'm \<times> u32"

subsection \<open>The privileged SVC hook\<close>

text \<open>
  The handler sees the CPU and may change it; only \<open>HANDLED\<close> and \<open>REDIRECTED\<close> keep the changes, and
  \<open>ERROR\<close> takes the cycle of the instruction back.
\<close>

definition privileged_svc_result ::
  "'m arm_bus \<Rightarrow> 'm \<Rightarrow> arm_cpu \<Rightarrow> u32 \<Rightarrow> u32 \<Rightarrow> arm_svc_result \<times> arm_cpu \<times> 'm" where
  "privileged_svc_result bus m c pc encoding =
     (if \<not> cpu_is_priv c then (SVC_UNHANDLED, c, m)
      else case privileged_svc_handler bus of
        None \<Rightarrow> (SVC_UNHANDLED, c, m)
      | Some h \<Rightarrow>
        (case h (c, m) pc encoding of (result, c', m) \<Rightarrow>
           if result = SVC_HANDLED \<or> result = SVC_REDIRECTED then (result, c', m)
           else if result = SVC_ERROR then (SVC_ERROR, c\<lparr>cycles := cycles c - 1\<rparr>, m)
           else (SVC_UNHANDLED, c, m)))"

subsection \<open>Arithmetic and moves\<close>

definition thumb_shift_add :: "arm_cpu \<Rightarrow> u16 \<Rightarrow> arm_cpu" where
  "thumb_shift_add c insn =
     (let rd = fld insn 0 7; rs = fld insn 3 7 in
      if insn AND 0xf800 = 0x1800 then
        let op2 = (if bit insn 10 then of_nat (fld insn 6 7) else regs c (fld insn 6 7));
            (r, c) = (if bit insn 9 then alu_sub c (regs c rs) op2 1 True
                      else alu_add c (regs c rs) op2 0 True)
        in set_reg c rd r
      else
        let (res, carry) = barrel_shift (regs c rs) (fld insn 11 3) (fld insn 6 0x1f) False (get_flag c CPSR_C)
        in alu_logic_flags (set_reg c rd res) res carry True)"

definition thumb_imm8 :: "arm_cpu \<Rightarrow> u16 \<Rightarrow> arm_cpu" where
  "thumb_imm8 c insn =
     (let rd = fld insn 8 7; imm = ucast (insn AND 0xff); k = fld insn 11 3 in
      if k = 0 then alu_logic_flags (set_reg c rd imm) imm (get_flag c CPSR_C) True
      else if k = 1 then snd (alu_sub c (regs c rd) imm 1 True)
      else
        let (r, c) = (if k = 2 then alu_add c (regs c rd) imm 0 True
                      else alu_sub c (regs c rd) imm 1 True)
        in set_reg c rd r)"

definition thumb_alu :: "arm_cpu \<Rightarrow> u16 \<Rightarrow> arm_cpu" where
  "thumb_alu c insn =
     (let rd = fld insn 0 7; rs = fld insn 3 7; a = regs c rd; b = regs c rs;
          carry = get_flag c CPSR_C; cin = (if carry then 1 else 0); op = fld insn 6 0xf;
          logic = (\<lambda>r. alu_logic_flags (set_reg c rd r) r carry True);
          arith = (\<lambda>(r, c). set_reg c rd r);
          shift = (\<lambda>t. let (r, carry) = barrel_shift a t (unat (b AND 0xff)) True carry
                       in alu_logic_flags (set_reg c rd r) r carry True)
      in if op = 0x0 then logic (a AND b)
         else if op = 0x1 then logic (a XOR b)
         else if op = 0x2 then shift 0
         else if op = 0x3 then shift 1
         else if op = 0x4 then shift 2
         else if op = 0x5 then arith (alu_add c a b cin True)
         else if op = 0x6 then arith (alu_sub c a b cin True)
         else if op = 0x7 then shift 3
         else if op = 0x8 then alu_logic_flags c (a AND b) carry True
         else if op = 0x9 then arith (alu_sub c 0 b 1 True)
         else if op = 0xa then snd (alu_sub c a b 1 True)
         else if op = 0xb then snd (alu_add c a b 0 True)
         else if op = 0xc then logic (a OR b)
         else if op = 0xd then
           let r = a * b in set_flag (set_flag (set_reg c rd r) CPSR_N (bit r 31)) CPSR_Z (r = 0)
         else if op = 0xe then logic (a AND NOT b)
         else logic (NOT b))"

definition thumb_high :: "arm_cpu \<Rightarrow> u32 \<Rightarrow> u16 \<Rightarrow> u32 \<Rightarrow> arm_status \<times> arm_cpu \<times> u32" where
  "thumb_high c pc insn next =
     (let pc4 = pc + 4;
          rd = unat ((insn AND 7) OR (drop_bit 4 insn AND 8));
          rs = unat ((drop_bit 3 insn AND 7) OR (drop_bit 3 insn AND 8));
          sv = (if rs = 15 then pc4 else regs c rs);
          k = fld insn 8 3
      in if k = 0 then
           (if rd = 15 then (ARM_OK, c, (pc4 + sv) AND NOT 1)
            else (ARM_OK, set_reg c rd (regs c rd + sv), next))
         else if k = 1 then
           (ARM_OK, snd (alu_sub c (if rd = 15 then pc4 else regs c rd) sv 1 True), next)
         else if k = 2 then
           (if rd = 15 then (ARM_OK, c, sv AND NOT 1) else (ARM_OK, set_reg c rd sv, next))
         else if bit insn 7 \<and> rs = 15 then (ARM_UNDEFINED, c, next)
         else if sv AND 3 = 2 then (ARM_UNDEFINED, c, next)
         else
           let c = (if bit insn 7 then set_reg c 14 ((pc + 2) OR 1) else c);
               c = (if \<not> bit sv 0 then c\<lparr>cpsr := cpsr c AND NOT CPSR_T\<rparr> else c)
           in (ARM_OK, c, sv AND NOT 1))"

subsection \<open>Loads and stores\<close>

text \<open>A load that writes its register unless it latched an abort, and a store.\<close>

definition thumb_load ::
  "'m arm_bus \<Rightarrow> nat \<Rightarrow> (u32 \<Rightarrow> u32) \<Rightarrow> 'm \<Rightarrow> arm_cpu \<Rightarrow> u32 \<Rightarrow> nat \<Rightarrow> arm_cpu \<times> 'm" where
  "thumb_load bus n ext m c addr rd =
     (case mem_r bus n m c addr of (v, c, m) \<Rightarrow>
        (if abort_pending c then c else set_reg c rd (ext v), m))"

definition thumb_reg_offset ::
  "'m arm_bus \<Rightarrow> 'm \<Rightarrow> arm_cpu \<Rightarrow> u16 \<Rightarrow> arm_status \<times> arm_cpu \<times> 'm" where
  "thumb_reg_offset bus m c insn =
     (let rd = fld insn 0 7; rb = fld insn 3 7; ro = fld insn 6 7;
          addr = regs c rb + regs c ro
      in if bit insn 9 then
           let op = fld insn 10 3 in
           if op \<noteq> 1 \<and> legacy_halfword_unpredictable c addr then (ARM_UNDEFINED, c, m)
           else if op = 0 then (ARM_OK, mem_w bus 2 m c addr (regs c rd))
           else if op = 1 then (ARM_OK, thumb_load bus 1 (\<lambda>v. scast (ucast v :: u8)) m c addr rd)
           else if op = 2 then (ARM_OK, thumb_load bus 2 (\<lambda>v. v) m c addr rd)
           else (ARM_OK, thumb_load bus 2 (\<lambda>v. scast (ucast v :: u16)) m c addr rd)
         else
           let load = bit insn 11; n = (if bit insn 10 then 1 else 4) in
           if load then (ARM_OK, thumb_load bus n (\<lambda>v. v) m c addr rd)
           else (ARM_OK, mem_w bus n m c addr (regs c rd)))"

definition thumb_imm_offset ::
  "'m arm_bus \<Rightarrow> 'm \<Rightarrow> arm_cpu \<Rightarrow> u16 \<Rightarrow> arm_status \<times> arm_cpu \<times> 'm" where
  "thumb_imm_offset bus m c insn =
     (let rd = fld insn 0 7; rb = fld insn 3 7; off = fld insn 6 0x1f;
          byte = bit insn 12; load = bit insn 11; n = (if byte then 1 else 4);
          addr = regs c rb + of_nat (if byte then off else off * 4)
      in if load then (ARM_OK, thumb_load bus n (\<lambda>v. v) m c addr rd)
         else (ARM_OK, mem_w bus n m c addr (regs c rd)))"

definition thumb_half_offset ::
  "'m arm_bus \<Rightarrow> 'm \<Rightarrow> arm_cpu \<Rightarrow> u16 \<Rightarrow> arm_status \<times> arm_cpu \<times> 'm" where
  "thumb_half_offset bus m c insn =
     (let rd = fld insn 0 7; rb = fld insn 3 7;
          addr = regs c rb + of_nat (fld insn 6 0x1f * 2)
      in if legacy_halfword_unpredictable c addr then (ARM_UNDEFINED, c, m)
         else if bit insn 11 then (ARM_OK, thumb_load bus 2 (\<lambda>v. v) m c addr rd)
         else (ARM_OK, mem_w bus 2 m c addr (regs c rd)))"

definition thumb_sp_offset ::
  "'m arm_bus \<Rightarrow> 'm \<Rightarrow> arm_cpu \<Rightarrow> u16 \<Rightarrow> arm_status \<times> arm_cpu \<times> 'm" where
  "thumb_sp_offset bus m c insn =
     (let rd = fld insn 8 7; addr = regs c 13 + push_bit 2 (ucast (insn AND 0xff))
      in if bit insn 11 then (ARM_OK, thumb_load bus 4 (\<lambda>v. v) m c addr rd)
         else (ARM_OK, mem_w bus 4 m c addr (regs c rd)))"

text \<open>The transfer loops of PUSH, POP, STMIA and LDMIA: \<open>False\<close> when an access latched an abort.\<close>

fun thumb_load_loop ::
  "'m arm_bus \<Rightarrow> nat list \<Rightarrow> u32 \<Rightarrow> (nat \<Rightarrow> u32) \<Rightarrow> arm_cpu \<Rightarrow> 'm \<Rightarrow>
   bool \<times> (nat \<Rightarrow> u32) \<times> u32 \<times> arm_cpu \<times> 'm" where
  "thumb_load_loop bus [] addr loaded c m = (True, loaded, addr, c, m)"
| "thumb_load_loop bus (i # is) addr loaded c m =
     (case mem_r bus 4 m c addr of (v, c, m) \<Rightarrow>
        if abort_pending c then (False, loaded(i := v), addr, c, m)
        else thumb_load_loop bus is (addr + 4) (loaded(i := v)) c m)"

fun thumb_store_loop ::
  "'m arm_bus \<Rightarrow> nat list \<Rightarrow> u32 \<Rightarrow> arm_cpu \<Rightarrow> 'm \<Rightarrow> bool \<times> u32 \<times> arm_cpu \<times> 'm" where
  "thumb_store_loop bus [] addr c m = (True, addr, c, m)"
| "thumb_store_loop bus (i # is) addr c m =
     (case mem_w bus 4 m c addr (regs c i) of (c, m) \<Rightarrow>
        if abort_pending c then (False, addr, c, m)
        else thumb_store_loop bus is (addr + 4) c m)"

text \<open>The commit loop of a load.\<close>

fun thumb_commit :: "nat list \<Rightarrow> (nat \<Rightarrow> u32) \<Rightarrow> arm_cpu \<Rightarrow> arm_cpu" where
  "thumb_commit [] loaded c = c"
| "thumb_commit (i # is) loaded c = thumb_commit is loaded (set_reg c i (loaded i))"

definition low_regs :: "u16 \<Rightarrow> nat list" where
  "low_regs l = filter (\<lambda>i. bit l i) [0..<8]"

definition thumb_pop ::
  "'m arm_bus \<Rightarrow> 'm \<Rightarrow> arm_cpu \<Rightarrow> u16 \<Rightarrow> u32 \<Rightarrow> 'm thumb_result" where
  "thumb_pop bus m c insn next =
     (let is = low_regs (insn AND 0xff); extra = bit insn 8;
          n = of_nat (length is) + (if extra then 1 else 0);
          old_sp = regs c 13
      in case prepare_multiword_address c old_sp 4 False of (ok, c, addr) \<Rightarrow>
         if \<not> ok then (ARM_OK, c, m, next)
         else case thumb_load_loop bus is addr (\<lambda>_. 0) c m of (fine, loaded, addr, c, m) \<Rightarrow>
         if \<not> fine then (ARM_OK, c, m, next)
         else
           let (pcv, c, m) = (if extra then mem_r bus 4 m c addr else (0, c, m)) in
           if extra \<and> abort_pending c then (ARM_OK, c, m, next)
           else if extra \<and> pcv AND 3 = 2 then (ARM_UNDEFINED, c, m, next)
           else
             let c = set_reg (thumb_commit is loaded c) 13 (old_sp + 4 * n)
             in if extra then
                  (ARM_OK, (if \<not> bit pcv 0 then c\<lparr>cpsr := cpsr c AND NOT CPSR_T\<rparr> else c), m,
                   pcv AND NOT 1)
                else (ARM_OK, c, m, next))"

definition thumb_push ::
  "'m arm_bus \<Rightarrow> 'm \<Rightarrow> arm_cpu \<Rightarrow> u16 \<Rightarrow> arm_cpu \<times> 'm" where
  "thumb_push bus m c insn =
     (let is = low_regs (insn AND 0xff); extra = bit insn 8;
          n = of_nat (length is) + (if extra then 1 else 0);
          new_sp = regs c 13 - 4 * n
      in case prepare_multiword_address c new_sp 4 True of (ok, c, addr) \<Rightarrow>
         if \<not> ok then (c, m)
         else case thumb_store_loop bus is addr c m of (fine, addr, c, m) \<Rightarrow>
         if \<not> fine then (c, m)
         else
           let (c, m) = (if extra then mem_w bus 4 m c addr (regs c 14) else (c, m)) in
           if extra \<and> abort_pending c then (c, m)
           else (set_reg c 13 new_sp, m))"

definition thumb_multiple ::
  "'m arm_bus \<Rightarrow> 'm \<Rightarrow> arm_cpu \<Rightarrow> u16 \<Rightarrow> arm_status \<times> arm_cpu \<times> 'm" where
  "thumb_multiple bus m c insn =
     (let rb = fld insn 8 7; lst = insn AND 0xff; base = regs c rb; load = bit insn 11;
          is = low_regs lst; n = of_nat (length is) :: u32
      in if lst = 0 then (ARM_UNDEFINED, c, m)
         else if \<not> load \<and> bit lst rb \<and> lst AND (if rb = 0 then 0 else push_bit rb 1 - 1) \<noteq> 0
         then (ARM_UNDEFINED, c, m)
         else case prepare_multiword_address c base 4 (\<not> load) of (ok, c, addr) \<Rightarrow>
         if \<not> ok then (ARM_OK, c, m)
         else if load then
           (case thumb_load_loop bus is addr (\<lambda>_. 0) c m of (fine, loaded, addr, c, m) \<Rightarrow>
              if \<not> fine then (ARM_OK, c, m)
              else
                let c = thumb_commit is loaded c
                in (ARM_OK, (if \<not> bit lst rb then set_reg c rb (base + 4 * n) else c), m))
         else
           (case thumb_store_loop bus is addr c m of (fine, addr, c, m) \<Rightarrow>
              if \<not> fine then (ARM_OK, c, m)
              else (ARM_OK, set_reg c rb (base + 4 * n), m)))"

subsection \<open>Miscellaneous and branches\<close>

definition thumb_cps :: "arm_cpu \<Rightarrow> u16 \<Rightarrow> arm_cpu" where
  "thumb_cps c insn =
     (let disable = bit insn 4 in
      if \<not> cpu_is_priv c then c
      else
        let c = (if bit insn 2 then set_flag c CPSR_A disable else c);
            c = (if bit insn 1 then set_flag c CPSR_I disable else c)
        in if bit insn 0 then set_flag c CPSR_F disable else c)"

definition thumb_misc ::
  "'m arm_bus \<Rightarrow> 'm \<Rightarrow> arm_cpu \<Rightarrow> u16 \<Rightarrow> u32 \<Rightarrow> 'm thumb_result" where
  "thumb_misc bus m c insn next =
     (let rd = fld insn 0 7; v = regs c (fld insn 3 7); k = fld insn 6 3 in
      if insn AND 0xff00 = 0xb000 then
        let imm = push_bit 2 (ucast (insn AND 0x7f)) in
        (ARM_OK, set_reg c 13 (if bit insn 7 then regs c 13 - imm else regs c 13 + imm), m, next)
      else if insn AND 0xf600 = 0xb400 then
        (if insn AND 0xff = 0 \<and> \<not> bit insn 8 then (ARM_UNDEFINED, c, m, next)
         else if bit insn 11 then thumb_pop bus m c insn next
         else case thumb_push bus m c insn of (c, m) \<Rightarrow> (ARM_OK, c, m, next))
      else if insn AND 0xff00 = 0xb200 then
        (ARM_OK, set_reg c rd (if k = 0 then scast (ucast v :: u16)
                               else if k = 1 then scast (ucast v :: u8)
                               else if k = 2 then v AND 0xffff else v AND 0xff), m, next)
      else if insn AND 0xff00 = 0xba00 then
        (if k = 0 then (ARM_OK, set_reg c rd (rev_word v), m, next)
         else if k = 1 then (ARM_OK, set_reg c rd (rev16_word v), m, next)
         else if k = 3 then
           (ARM_OK, set_reg c rd
              (scast (ucast (push_bit 8 (v AND 0xff) OR (drop_bit 8 v AND 0xff)) :: u16)), m, next)
         else (ARM_UNDEFINED, c, m, next))
      else if insn AND 0xffe0 = 0xb660 then (ARM_OK, thumb_cps c insn, m, next)
      else if insn AND 0xfff7 = 0xb650 then
        (if bit insn 3 then (ARM_UNDEFINED, c, m, next) else (ARM_OK, c, m, next))
      else (ARM_UNDEFINED, c, m, next))"

definition thumb_cond_swi ::
  "'m arm_bus \<Rightarrow> 'm \<Rightarrow> arm_cpu \<Rightarrow> u32 \<Rightarrow> u16 \<Rightarrow> u32 \<Rightarrow> 'm thumb_result" where
  "thumb_cond_swi bus m c pc insn next =
     (let cond = fld insn 8 0xf in
      if cond = 0xf then
        (case privileged_svc_result bus m c pc (ucast insn) of (result, c, m) \<Rightarrow>
           if result = SVC_ERROR then (ARM_HALT, c, m, next)
           else if result = SVC_REDIRECTED then (ARM_OK, c, m, regs c 15)
           else if result \<noteq> SVC_HANDLED then
             (case take_exception c VEC_SWI MODE_SVC (pc + 2) False of (c, vec) \<Rightarrow> (ARM_OK, c, m, vec))
           else (ARM_OK, c, m, next))
      else if cond = 0xe then (ARM_UNDEFINED, c, m, next)
      else if arm_cond_passed c (of_nat cond) then
        (ARM_OK, c, m, pc + 4 + push_bit 1 (scast (ucast (insn AND 0xff) :: u8)))
      else (ARM_OK, c, m, next))"

definition thumb_branch :: "arm_cpu \<Rightarrow> u32 \<Rightarrow> u16 \<Rightarrow> arm_cpu \<times> u32" where
  "thumb_branch c pc insn =
     (let imm = ucast (insn AND 0x7ff) :: u32 in
      if bit insn 11 then
        let target = (regs c 14 + push_bit 1 imm) AND NOT 3;
            c = set_reg c 14 ((pc + 2) OR 1)
        in (c\<lparr>cpsr := cpsr c AND NOT CPSR_T\<rparr>, target)
      else (c, pc + 4 + signed_drop_bit 20 (push_bit 21 imm)))"

definition thumb_long_branch :: "arm_cpu \<Rightarrow> u32 \<Rightarrow> u16 \<Rightarrow> u32 \<Rightarrow> arm_cpu \<times> u32" where
  "thumb_long_branch c pc insn next =
     (let imm = ucast (insn AND 0x7ff) :: u32 in
      if \<not> bit insn 11 then
        (set_reg c 14 (pc + 4 + signed_drop_bit 9 (push_bit 21 imm)), next)
      else
        let target = regs c 14 + push_bit 1 imm
        in (set_reg c 14 ((pc + 2) OR 1), target AND NOT 1))"

subsection \<open>The decoder\<close>

definition thumb_step ::
  "'m arm_bus \<Rightarrow> 'm \<Rightarrow> arm_cpu \<Rightarrow> u32 \<Rightarrow> u16 \<Rightarrow> u32 \<Rightarrow> 'm thumb_result" where
  "thumb_step bus m c pc insn next =
     (let op = fld insn 12 0xf; pc4 = pc + 4; rd = fld insn 8 7;
          pure = (\<lambda>c. (ARM_OK, c, m, next));
          keep = (\<lambda>(s, c, m). (s, c, m, next))
      in if op = 0x0 \<or> op = 0x1 then pure (thumb_shift_add c insn)
         else if op = 0x2 \<or> op = 0x3 then pure (thumb_imm8 c insn)
         else if op = 0x4 then
           (if insn AND 0xfc00 = 0x4000 then pure (thumb_alu c insn)
            else if insn AND 0xfc00 = 0x4400 then
              (case thumb_high c pc insn next of (s, c, next) \<Rightarrow> (s, c, m, next))
            else
              keep (ARM_OK, thumb_load bus 4 (\<lambda>v. v) m c
                ((pc4 AND NOT 3) + push_bit 2 (ucast (insn AND 0xff))) rd))
         else if op = 0x5 then keep (thumb_reg_offset bus m c insn)
         else if op = 0x6 \<or> op = 0x7 then keep (thumb_imm_offset bus m c insn)
         else if op = 0x8 then keep (thumb_half_offset bus m c insn)
         else if op = 0x9 then keep (thumb_sp_offset bus m c insn)
         else if op = 0xa then
           (let imm = push_bit 2 (ucast (insn AND 0xff))
            in pure (set_reg c rd (if bit insn 11 then regs c 13 + imm else (pc4 AND NOT 3) + imm)))
         else if op = 0xb then thumb_misc bus m c insn next
         else if op = 0xc then keep (thumb_multiple bus m c insn)
         else if op = 0xd then thumb_cond_swi bus m c pc insn next
         else if op = 0xe then (case thumb_branch c pc insn of (c, next) \<Rightarrow> (ARM_OK, c, m, next))
         else (case thumb_long_branch c pc insn next of (c, next) \<Rightarrow> (ARM_OK, c, m, next)))"

end
