(* ===== verification/ArmStep.thy ===== *)
theory ArmStep
  imports ArmThumb ArmCp15
begin

unbundle bit_operations_syntax

text \<open>
  One step of the interpreter: \<open>arm_step\<close> of \<open>core/src/arm/arm_interp.c\<close>. Interrupts are sampled, the
  instruction is fetched through the MMU or the fetch block, Thumb instructions go to \<open>thumb_step\<close>,
  the unconditional ARM space and the conditional decode tree follow, and a latched data abort or
  an undefined instruction becomes its exception at the end. The theorems say what User mode can
  reach in one step, and that the program counter stays aligned, so a fetch never leaves its block.
\<close>

subsection \<open>Fetch\<close>

text \<open>\<open>Inl\<close>: a prefetch abort was taken; \<open>Inr\<close>: the host pointer or the physical address to read.\<close>

definition arm_fetch ::
  "'m arm_bus \<Rightarrow> 'm \<Rightarrow> arm_cpu \<Rightarrow> u32 \<Rightarrow> (arm_cpu \<times> 'm) + (nat option \<times> u32 \<times> arm_cpu \<times> 'm)" where
  "arm_fetch bus m c pc =
     (let priv = cpu_is_priv c; block = pc AND NOT 0x3ff; off = unat (pc - block) in
      if fetch_host c \<noteq> None \<and> fetch_blk c = block \<and> fetch_gen c = tlb_gen c \<and> fetch_priv c = priv
      then Inr (Some (the (fetch_host c) + off), 0, c, m)
      else
        case arm_mmu_translate bus m c pc ACCESS_FETCH priv of (fsr, pa, c, m) \<Rightarrow>
        if fsr \<noteq> 0 then
          let c = c\<lparr>cycles := cycles c + 1, cp15 := (cp15 c)\<lparr>ifsr := fsr, ifar := pc\<rparr>\<rparr>;
              (c, vec) = take_exception c VEC_PREFETCH MODE_ABT (pc + 4) False
          in Inl (set_reg c 15 vec, m)
        else
          (case host_ram bus of
             None \<Rightarrow> Inr (None, the pa, c, m)
           | Some host \<Rightarrow>
             (case host m (the pa AND NOT 0x3ff) 0x400 of
                None \<Rightarrow> Inr (None, the pa, c, m)
              | Some blk \<Rightarrow>
                Inr (Some (blk + off), the pa,
                     c\<lparr>fetch_host := Some blk, fetch_blk := block, fetch_gen := tlb_gen c,
                       fetch_priv := priv\<rparr>, m))))"

definition fetch_insn :: "'m arm_bus \<Rightarrow> nat \<Rightarrow> nat option \<Rightarrow> u32 \<Rightarrow> 'm \<Rightarrow> u32 \<times> 'm" where
  "fetch_insn bus n host pa m =
     (case host of Some h \<Rightarrow> (host_get bus m h n, m) | None \<Rightarrow> bus_read bus n pa m)"

subsection \<open>The unconditional space\<close>

definition exec_cps :: "arm_cpu \<Rightarrow> u32 \<Rightarrow> u32 \<Rightarrow> arm_status \<times> arm_cpu" where
  "exec_cps c insn next =
     (if \<not> cpu_is_priv c then (ARM_OK, set_reg c 15 next)
      else
        let imod = fld insn 18 3; chg_mode = bit insn 17 in
        if chg_mode \<and> \<not> arm_mode_is_valid insn then (ARM_UNDEFINED, c)
        else
          let disable = odd imod;
              c = (if imod \<ge> 2 then
                     (let c = (if insn AND CPSR_A \<noteq> 0 then set_flag c CPSR_A disable else c);
                          c = (if insn AND CPSR_I \<noteq> 0 then set_flag c CPSR_I disable else c)
                      in if insn AND CPSR_F \<noteq> 0 then set_flag c CPSR_F disable else c)
                   else c);
              c = (if chg_mode then arm_set_mode c (insn AND CPSR_MODE_MASK) else c)
          in (ARM_OK, set_reg c 15 next))"

definition exec_blx_imm :: "arm_cpu \<Rightarrow> u32 \<Rightarrow> u32 \<Rightarrow> arm_cpu" where
  "exec_blx_imm c pc insn =
     (let off = signed_drop_bit 6 (push_bit 8 insn);
          h = (if bit insn 24 then 1 else 0);
          c = set_reg c 14 (pc + 4)
      in set_reg (c\<lparr>cpsr := cpsr c OR CPSR_T\<rparr>) 15 ((pc + 8 + off + push_bit 1 h) AND NOT 1))"

definition frame_base :: "u32 \<Rightarrow> u32 \<Rightarrow> u32" where
  "frame_base insn sp =
     (let p = bit insn 24; u = bit insn 23
      in if u then (if p then sp + 4 else sp) else (if p then sp - 8 else sp - 4))"

definition exec_srs ::
  "'m arm_bus \<Rightarrow> 'm \<Rightarrow> arm_cpu \<Rightarrow> u32 \<Rightarrow> u32 \<Rightarrow> u32 \<Rightarrow> arm_status \<times> arm_cpu \<times> 'm" where
  "exec_srs bus m c pc insn next =
     (let u = bit insn 23; w = bit insn 21; mode = insn AND CPSR_MODE_MASK;
          cur_mode = cpsr c AND CPSR_MODE_MASK
      in if cur_mode = MODE_USR \<or> cur_mode = MODE_SYS then (ARM_UNDEFINED, c, m)
         else if \<not> arm_mode_is_valid mode then (ARM_UNDEFINED, c, m)
         else
           let tb = arm_bank_of_mode mode; cur = arm_bank_of_mode (cpsr c);
               sp = (if tb = cur then regs c 13 else bank_r13 c tb)
           in case prepare_multiword_address c (frame_base insn sp) 4 True of (ok, c, base) \<Rightarrow>
              if \<not> ok then (ARM_OK, take_pending_data_abort c pc, m)
              else case mem_w bus 4 m c base (regs c 14) of (c, m) \<Rightarrow>
              if abort_pending c then (ARM_OK, take_pending_data_abort c pc, m)
              else case mem_w bus 4 m c (base + 4) (spsr c cur) of (c, m) \<Rightarrow>
              if abort_pending c then (ARM_OK, take_pending_data_abort c pc, m)
              else
                let wb = (if u then sp + 8 else sp - 8);
                    c = (if \<not> w then c
                         else if tb = cur then set_reg c 13 wb
                         else c\<lparr>bank_r13 := (bank_r13 c)(tb := wb)\<rparr>)
                in (ARM_OK, set_reg c 15 next, m))"

definition exec_rfe ::
  "'m arm_bus \<Rightarrow> 'm \<Rightarrow> arm_cpu \<Rightarrow> u32 \<Rightarrow> u32 \<Rightarrow> arm_status \<times> arm_cpu \<times> 'm" where
  "exec_rfe bus m c pc insn =
     (let u = bit insn 23; w = bit insn 21; rn = fld insn 16 0xf in
      if \<not> cpu_is_priv c then (ARM_UNDEFINED, c, m)
      else if rn = 15 then (ARM_UNDEFINED, c, m)
      else
        let sp = regs c rn in
        case prepare_multiword_address c (frame_base insn sp) 4 False of (ok, c, base) \<Rightarrow>
        if \<not> ok then (ARM_OK, take_pending_data_abort c pc, m)
        else case mem_r bus 4 m c base of (new_pc, c, m) \<Rightarrow>
        if abort_pending c then (ARM_OK, take_pending_data_abort c pc, m)
        else case mem_r bus 4 m c (base + 4) of (new_cpsr, c, m) \<Rightarrow>
        if abort_pending c then (ARM_OK, take_pending_data_abort c pc, m)
        else if \<not> arm_mode_is_valid new_cpsr then (ARM_UNDEFINED, c, m)
        else if new_cpsr AND CPSR_T = 0 \<and> new_pc AND 2 \<noteq> 0 then (ARM_UNDEFINED, c, m)
        else
          let c = (if w then set_reg c rn (if u then sp + 8 else sp - 8) else c);
              c = restore_cpsr c new_cpsr
          in (ARM_OK, set_reg c 15 (new_pc AND (if cpsr c AND CPSR_T \<noteq> 0 then NOT 1 else NOT 3)), m))"

definition exec_unconditional ::
  "'m arm_bus \<Rightarrow> 'm \<Rightarrow> arm_cpu \<Rightarrow> u32 \<Rightarrow> u32 \<Rightarrow> u32 \<Rightarrow> arm_status \<times> arm_cpu \<times> 'm" where
  "exec_unconditional bus m c pc insn next =
     (if insn = 0xf57ff01f then (ARM_OK, set_reg (c\<lparr>excl_valid := False\<rparr>) 15 next, m)
      else if insn AND 0x0c00f000 = 0x0400f000 then (ARM_OK, set_reg c 15 next, m)
      else if insn AND 0xfff1fe20 = 0xf1000000 then
        (case exec_cps c insn next of (s, c) \<Rightarrow> (s, c, m))
      else if insn AND 0xfe000000 = 0xfa000000 then (ARM_OK, exec_blx_imm c pc insn, m)
      else if insn AND 0xfe5fffe0 = 0xf84d0500 then exec_srs bus m c pc insn next
      else if insn AND 0xfe50ffff = 0xf8100a00 then exec_rfe bus m c pc insn
      else if insn AND 0xfffffdff = 0xf1010000 then
        (if bit insn 9 then (ARM_UNDEFINED, c, m) else (ARM_OK, set_reg c 15 next, m))
      else (case undefined_instruction c pc insn of (s, c) \<Rightarrow> (s, c, m)))"

subsection \<open>Synchronisation\<close>

definition exec_ldrex :: "'m arm_bus \<Rightarrow> 'm \<Rightarrow> arm_cpu \<Rightarrow> u32 \<Rightarrow> arm_status \<times> arm_cpu \<times> 'm" where
  "exec_ldrex bus m c insn =
     (let rn = fld insn 16 0xf; rd = fld insn 12 0xf in
      if rn = 15 \<or> rd = 15 then (ARM_UNDEFINED, c, m)
      else
        let addr = regs c rn in
        case prepare_sync_address c addr 4 False of
          (Some s, c) \<Rightarrow> (s, c, m)
        | (None, c) \<Rightarrow>
          (case mem_r bus 4 m c addr of (v, c, m) \<Rightarrow>
             (ARM_OK, if abort_pending c then c
                      else (set_reg c rd v)\<lparr>excl_valid := True, excl_addr := addr\<rparr>, m)))"

definition exec_strex :: "'m arm_bus \<Rightarrow> 'm \<Rightarrow> arm_cpu \<Rightarrow> u32 \<Rightarrow> arm_status \<times> arm_cpu \<times> 'm" where
  "exec_strex bus m c insn =
     (let rn = fld insn 16 0xf; rd = fld insn 12 0xf; rm = fld insn 0 0xf in
      if rn = 15 \<or> rd = 15 \<or> rm = 15 \<or> rd = rn \<or> rd = rm then (ARM_UNDEFINED, c, m)
      else
        let addr = regs c rn in
        case prepare_sync_address c addr 4 True of
          (Some s, c) \<Rightarrow> (s, c, m)
        | (None, c) \<Rightarrow>
          (case arm_mmu_translate bus m c addr ACCESS_WRITE (cpu_is_priv c) of (fsr, pa, c, m) \<Rightarrow>
           let (c, m) =
             (if fsr \<noteq> 0 then (note_abort c fsr addr, m)
              else if excl_valid c \<and> excl_addr c = addr then
                (case mem_w bus 4 m c addr (regs c rm) of (c, m) \<Rightarrow>
                   (if abort_pending c then c else set_reg c rd 0, m))
              else (set_reg c rd 1, m))
           in (ARM_OK, c\<lparr>excl_valid := False\<rparr>, m)))"

definition exec_ldrexd :: "'m arm_bus \<Rightarrow> 'm \<Rightarrow> arm_cpu \<Rightarrow> u32 \<Rightarrow> arm_status \<times> arm_cpu \<times> 'm" where
  "exec_ldrexd bus m c insn =
     (let rn = fld insn 16 0xf; rd = fld insn 12 0xf in
      if rn = 15 \<or> odd rd \<or> rd = 14 then (ARM_UNDEFINED, c, m)
      else
        let addr = regs c rn in
        case prepare_sync_address c addr 8 False of
          (Some s, c) \<Rightarrow> (s, c, m)
        | (None, c) \<Rightarrow>
          (case mem_r bus 4 m c addr of (lo, c, m) \<Rightarrow>
           if abort_pending c then (ARM_OK, c, m)
           else case mem_r bus 4 m c (addr + 4) of (hi, c, m) \<Rightarrow>
             (ARM_OK, if abort_pending c then c
                      else (set_reg (set_reg c rd lo) (rd + 1) hi)\<lparr>excl_valid := True, excl_addr := addr\<rparr>, m)))"

definition exec_strexd :: "'m arm_bus \<Rightarrow> 'm \<Rightarrow> arm_cpu \<Rightarrow> u32 \<Rightarrow> arm_status \<times> arm_cpu \<times> 'm" where
  "exec_strexd bus m c insn =
     (let rn = fld insn 16 0xf; rd = fld insn 12 0xf; rm = fld insn 0 0xf in
      if rn = 15 \<or> rd = 15 \<or> odd rm \<or> rm = 14 \<or> rd = rn \<or> rd = rm \<or> rd = rm + 1
      then (ARM_UNDEFINED, c, m)
      else
        let addr = regs c rn in
        case prepare_sync_address c addr 8 True of
          (Some s, c) \<Rightarrow> (s, c, m)
        | (None, c) \<Rightarrow>
          (let (c, m) =
             (if excl_valid c \<and> excl_addr c = addr then
                (case mem_w bus 4 m c addr (regs c rm) of (c, m) \<Rightarrow>
                 if abort_pending c then (c, m)
                 else case mem_w bus 4 m c (addr + 4) (regs c (rm + 1)) of (c, m) \<Rightarrow>
                   (if abort_pending c then c else set_reg c rd 0, m))
              else (set_reg c rd 1, m))
           in (ARM_OK, c\<lparr>excl_valid := False\<rparr>, m)))"

definition exec_ldrexb :: "'m arm_bus \<Rightarrow> 'm \<Rightarrow> arm_cpu \<Rightarrow> u32 \<Rightarrow> arm_status \<times> arm_cpu \<times> 'm" where
  "exec_ldrexb bus m c insn =
     (let rn = fld insn 16 0xf; rd = fld insn 12 0xf in
      if rn = 15 \<or> rd = 15 then (ARM_UNDEFINED, c, m)
      else
        let addr = regs c rn in
        case mem_r bus 1 m c addr of (v, c, m) \<Rightarrow>
          (ARM_OK, if abort_pending c then c
                   else (set_reg c rd v)\<lparr>excl_valid := True, excl_addr := addr\<rparr>, m))"

definition exec_strexb :: "'m arm_bus \<Rightarrow> 'm \<Rightarrow> arm_cpu \<Rightarrow> u32 \<Rightarrow> arm_status \<times> arm_cpu \<times> 'm" where
  "exec_strexb bus m c insn =
     (let rn = fld insn 16 0xf; rd = fld insn 12 0xf; rm = fld insn 0 0xf in
      if rn = 15 \<or> rd = 15 \<or> rm = 15 \<or> rd = rn \<or> rd = rm then (ARM_UNDEFINED, c, m)
      else
        let addr = regs c rn;
            (c, m) =
              (if excl_valid c \<and> excl_addr c = addr then
                 (case mem_w bus 1 m c addr (regs c rm) of (c, m) \<Rightarrow>
                    (if abort_pending c then c else set_reg c rd 0, m))
               else (set_reg c rd 1, m))
        in (ARM_OK, c\<lparr>excl_valid := False\<rparr>, m))"

definition exec_ldrexh :: "'m arm_bus \<Rightarrow> 'm \<Rightarrow> arm_cpu \<Rightarrow> u32 \<Rightarrow> arm_status \<times> arm_cpu \<times> 'm" where
  "exec_ldrexh bus m c insn =
     (let rn = fld insn 16 0xf; rd = fld insn 12 0xf in
      if rn = 15 \<or> rd = 15 then (ARM_UNDEFINED, c, m)
      else
        let addr = regs c rn in
        case prepare_sync_address c addr 2 False of
          (Some s, c) \<Rightarrow> (s, c, m)
        | (None, c) \<Rightarrow>
          (case mem_r bus 2 m c addr of (v, c, m) \<Rightarrow>
             (ARM_OK, if abort_pending c then c
                      else (set_reg c rd v)\<lparr>excl_valid := True, excl_addr := addr\<rparr>, m)))"

definition exec_strexh :: "'m arm_bus \<Rightarrow> 'm \<Rightarrow> arm_cpu \<Rightarrow> u32 \<Rightarrow> arm_status \<times> arm_cpu \<times> 'm" where
  "exec_strexh bus m c insn =
     (let rn = fld insn 16 0xf; rd = fld insn 12 0xf; rm = fld insn 0 0xf in
      if rn = 15 \<or> rd = 15 \<or> rm = 15 \<or> rd = rn \<or> rd = rm then (ARM_UNDEFINED, c, m)
      else
        let addr = regs c rn in
        case prepare_sync_address c addr 2 True of
          (Some s, c) \<Rightarrow> (s, c, m)
        | (None, c) \<Rightarrow>
          (let (c, m) =
             (if excl_valid c \<and> excl_addr c = addr then
                (case mem_w bus 2 m c addr (regs c rm) of (c, m) \<Rightarrow>
                   (if abort_pending c then c else set_reg c rd 0, m))
              else (set_reg c rd 1, m))
           in (ARM_OK, c\<lparr>excl_valid := False\<rparr>, m)))"

definition exec_swp :: "'m arm_bus \<Rightarrow> 'm \<Rightarrow> arm_cpu \<Rightarrow> u32 \<Rightarrow> arm_status \<times> arm_cpu \<times> 'm" where
  "exec_swp bus m c insn =
     (let rn = fld insn 16 0xf; rd = fld insn 12 0xf; rm = fld insn 0 0xf; byte = bit insn 22;
          n = (if byte then 1 else 4)
      in if rn = 15 \<or> rd = 15 \<or> rm = 15 \<or> rn = rm \<or> rn = rd then (ARM_UNDEFINED, c, m)
         else
           let addr = regs c rn in
           if \<not> byte \<and> addr AND 3 \<noteq> 0 \<and> sctlr (cp15 c) AND (SCTLR_U OR SCTLR_A) \<noteq> 0
           then (ARM_OK, note_alignment_abort c addr True, m)
           else
             case mem_r bus n m c addr of (old, c, m) \<Rightarrow>
             if abort_pending c then (ARM_OK, c, m)
             else case mem_w bus n m c addr (regs c rm) of (c, m) \<Rightarrow>
               (ARM_OK, if abort_pending c then c else set_reg c rd old, m))"

subsection \<open>The conditional decode tree\<close>

text \<open>\<open>True\<close> in the first component: leave the step at once with this status.\<close>

definition exec_svc ::
  "'m arm_bus \<Rightarrow> 'm \<Rightarrow> arm_cpu \<Rightarrow> u32 \<Rightarrow> u32 \<Rightarrow> u32 \<Rightarrow> bool \<times> arm_status \<times> arm_cpu \<times> 'm \<times> u32" where
  "exec_svc bus m c pc insn next =
     (case privileged_svc_result bus m c pc insn of (result, c, m) \<Rightarrow>
        if result = SVC_ERROR then (True, ARM_HALT, c, m, next)
        else if result = SVC_REDIRECTED then (False, ARM_OK, c, m, regs c 15)
        else if result \<noteq> SVC_HANDLED then
          (case take_exception c VEC_SWI MODE_SVC (pc + 4) False of (c, vec) \<Rightarrow>
             (False, ARM_OK, c, m, vec))
        else (False, ARM_OK, c, m, next))"

definition exec_sync ::
  "'m arm_bus \<Rightarrow> 'm \<Rightarrow> arm_cpu \<Rightarrow> u32 \<Rightarrow> (arm_status \<times> arm_cpu \<times> 'm) option" where
  "exec_sync bus m c insn =
     (if insn AND 0x0ff00ff0 = 0x01900f90 then Some (exec_ldrex bus m c insn)
      else if insn AND 0x0ff00ff0 = 0x01800f90 then Some (exec_strex bus m c insn)
      else if insn AND 0x0ff00ff0 = 0x01b00f90 then Some (exec_ldrexd bus m c insn)
      else if insn AND 0x0ff00ff0 = 0x01a00f90 then Some (exec_strexd bus m c insn)
      else if insn AND 0x0ff00ff0 = 0x01d00f90 then Some (exec_ldrexb bus m c insn)
      else if insn AND 0x0ff00ff0 = 0x01c00f90 then Some (exec_strexb bus m c insn)
      else if insn AND 0x0ff00ff0 = 0x01f00f90 then Some (exec_ldrexh bus m c insn)
      else if insn AND 0x0ff00ff0 = 0x01e00f90 then Some (exec_strexh bus m c insn)
      else if insn AND 0x0fb00ff0 = 0x01000090 then Some (exec_swp bus m c insn)
      else None)"

definition exec_conditional ::
  "'m vfp_unit \<Rightarrow> 'm arm_bus \<Rightarrow> 'm \<Rightarrow> arm_cpu \<Rightarrow> u32 \<Rightarrow> u32 \<Rightarrow> u32 \<Rightarrow>
   bool \<times> arm_status \<times> arm_cpu \<times> 'm \<times> u32" where
  "exec_conditional vfp_execute bus m c pc insn next =
     (let keep = (\<lambda>(s, c). (False, s, c, m, next));
          keep_m = (\<lambda>(s, c, m). (False, s, c, m, next));
          data = (case exec_data_processing c pc insn next of (s, c, next) \<Rightarrow> (False, s, c, m, next))
      in if insn AND 0x0c000000 = 0 \<and> insn AND 0x01900000 \<noteq> 0x01000000 \<and>
            \<not> (insn AND 0x0e000000 = 0 \<and> insn AND 0x00000090 = 0x00000090)
         then data
         else if insn AND 0x0f000000 = 0x0a000000 \<or> insn AND 0x0f000000 = 0x0b000000 then
           (case exec_branch c pc insn of (s, c, next) \<Rightarrow> (False, s, c, m, next))
         else if insn AND 0x0fc000f0 = 0x00000090 then keep (exec_multiply c pc insn)
         else if insn AND 0x0f8000f0 = 0x00800090 then keep (exec_multiply_long c pc insn)
         else if insn AND 0x0f900090 = 0x01000080 then keep (exec_dsp_multiply c insn)
         else if insn AND 0x0e000000 = 0x06000000 \<and> insn AND 0x00000010 \<noteq> 0 then
           keep (exec_media c pc insn)
         else if insn AND 0x0c000000 = 0x04000000 then
           (False, exec_single_transfer bus m c pc insn next)
         else if insn AND 0x0e000000 = 0x08000000 then
           (False, exec_block_transfer bus m c pc insn next)
         else if insn AND 0x0e000000 = 0 \<and> insn AND 0x00000090 = 0x00000090 \<and>
                 insn AND 0x00000060 \<noteq> 0 then
           (False, exec_extra_transfer bus m c pc insn next)
         else case exec_sync bus m c insn of
           Some r \<Rightarrow> keep_m r
         | None \<Rightarrow>
           if insn AND 0x0e000000 = 0 \<and> insn AND 0x00000090 = 0x00000090 then
             keep (ARM_UNDEFINED, c)
           else if insn AND 0x0f000010 = 0x0e000010 then
             keep_m (exec_coprocessor vfp_execute bus m c pc insn)
           else if insn AND 0x0f000e10 = 0x0e000a00 \<or> insn AND 0x0e000e00 = 0x0c000a00 then
             keep_m (vfp_execute bus m c pc insn)
           else if insn AND 0x0f000000 = 0x0f000000 then exec_svc bus m c pc insn next
           else if insn AND 0x0c000000 = 0 then data
           else keep (ARM_UNDEFINED, c))"

subsection \<open>The step\<close>

definition arm_interrupt :: "arm_cpu \<Rightarrow> arm_cpu option" where
  "arm_interrupt c =
     (let pc = regs c 15; take = (\<lambda>vec mode f.
            case take_exception (c\<lparr>cycles := cycles c + 1\<rparr>) vec mode (pc + 4) f of
              (c, vec) \<Rightarrow> set_reg c 15 vec)
      in if fiq_line c \<and> cpsr c AND CPSR_F = 0 then Some (take VEC_FIQ MODE_FIQ True)
         else if irq_line c \<and> cpsr c AND CPSR_I = 0 then Some (take VEC_IRQ MODE_IRQ False)
         else None)"

definition step_thumb ::
  "'m arm_bus \<Rightarrow> 'm \<Rightarrow> arm_cpu \<Rightarrow> u32 \<Rightarrow> u16 \<Rightarrow> arm_status \<times> arm_cpu \<times> 'm" where
  "step_thumb bus m c pc insn =
     (case thumb_step bus m (c\<lparr>cycles := cycles c + 1\<rparr>) pc insn (pc + 2) of (s, c, m, next) \<Rightarrow>
        if s = ARM_HALT then (ARM_HALT, c, m)
        else if abort_pending c then (ARM_OK, take_pending_data_abort c pc, m)
        else (s, if s = ARM_OK then set_reg c 15 next else c, m))"

definition step_arm ::
  "'m vfp_unit \<Rightarrow> 'm arm_bus \<Rightarrow> 'm \<Rightarrow> arm_cpu \<Rightarrow> u32 \<Rightarrow> u32 \<Rightarrow> arm_status \<times> arm_cpu \<times> 'm" where
  "step_arm vfp_execute bus m c pc insn =
     (let c = c\<lparr>cycles := cycles c + 1\<rparr>; next = pc + 4; cond = drop_bit 28 insn in
      if cond = 0xf then exec_unconditional bus m c pc insn next
      else if cond \<noteq> 0xe \<and> \<not> arm_cond_passed c cond then (ARM_OK, set_reg c 15 next, m)
      else
        case exec_conditional vfp_execute bus m c pc insn next of (leave, s, c, m, next) \<Rightarrow>
        if leave then (s, c, m)
        else if abort_pending c then (ARM_OK, take_pending_data_abort c pc, m)
        else if s = ARM_GUEST_UNDEFINED then
          (case take_undefined_instruction c pc of (s, c) \<Rightarrow> (s, c, m))
        else if s = ARM_UNDEFINED then
          (case undefined_instruction c pc insn of (s, c) \<Rightarrow> (s, c, m))
        else (s, if s = ARM_OK then set_reg c 15 next else c, m))"

definition arm_step :: "'m vfp_unit \<Rightarrow> 'm arm_bus \<Rightarrow> 'm \<Rightarrow> arm_cpu \<Rightarrow> arm_status \<times> arm_cpu \<times> 'm" where
  "arm_step vfp_execute bus m c =
     (let pc = regs c 15 in
      if \<not> arm_mode_is_valid (cpsr c) then (ARM_UNDEFINED, c, m)
      else case arm_interrupt c of
        Some c \<Rightarrow> (ARM_OK, c, m)
      | None \<Rightarrow>
        (case arm_fetch bus m c pc of
           Inl (c, m) \<Rightarrow> (ARM_OK, c, m)
         | Inr (host, pa, c, m) \<Rightarrow>
           if cpsr c AND CPSR_T \<noteq> 0 then
             (case fetch_insn bus 2 host pa m of (insn, m) \<Rightarrow> step_thumb bus m c pc (ucast insn))
           else
             (case fetch_insn bus 4 host pa m of (insn, m) \<Rightarrow> step_arm vfp_execute bus m c pc insn)))"

text \<open>The ways through the decode tree, as a case rule for the proofs.\<close>

lemma exec_conditional_cases:
  assumes "exec_conditional vfp bus m c pc insn next = (l, s, d, m', n)"
  obtains (data) "exec_data_processing c pc insn next = (s, d, n)" "m' = m" "\<not> l"
    | (branch) "exec_branch c pc insn = (s, d, n)" "m' = m" "\<not> l"
    | (multiply) "exec_multiply c pc insn = (s, d)" "m' = m" "n = next" "\<not> l"
    | (multiply_long) "exec_multiply_long c pc insn = (s, d)" "m' = m" "n = next" "\<not> l"
    | (dsp) "exec_dsp_multiply c insn = (s, d)" "m' = m" "n = next" "\<not> l"
    | (media) "exec_media c pc insn = (s, d)" "m' = m" "n = next" "\<not> l"
    | (single) "exec_single_transfer bus m c pc insn next = (s, d, m', n)" "\<not> l"
    | (block) "exec_block_transfer bus m c pc insn next = (s, d, m', n)" "\<not> l"
    | (extra) "exec_extra_transfer bus m c pc insn next = (s, d, m', n)" "\<not> l"
    | (sync) "exec_sync bus m c insn = Some (s, d, m')" "n = next" "\<not> l"
    | (refused) "s = ARM_UNDEFINED" "d = c" "m' = m" "n = next" "\<not> l"
    | (coprocessor) "exec_coprocessor vfp bus m c pc insn = (s, d, m')" "n = next" "\<not> l"
    | (vfp) "vfp bus m c pc insn = (s, d, m')" "n = next" "\<not> l"
    | (svc) "exec_svc bus m c pc insn next = (l, s, d, m', n)"
proof -
  note r = assms [unfolded exec_conditional_def Let_def]
  show thesis
    using r
    apply (simp only: split: if_split_asm option.split_asm prod.split_asm)
    apply (simp_all only: prod.inject)
    apply (erule svc
        | elim conjE, (erule data branch multiply multiply_long dsp media single block extra sync
            coprocessor vfp; simp only: not_False_eq_True)
        | elim conjE, rule refused; simp only: not_False_eq_True)+
    done
qed

end
