(* ===== verification/ArmUser.thy ===== *)
theory ArmUser
  imports ArmStep
begin

unbundle bit_operations_syntax

text \<open>
  What a program in User mode can do in one step of the interpreter: it keeps the privileged part of
  the processor state, or it enters an exception the way the architecture prescribes. One lemma per
  instruction group of \<open>core/src/arm/arm_interp.c\<close> says that the group keeps the privileged state.
\<close>

subsection \<open>What User mode must not touch\<close>

text \<open>
  The privileged part of the state: the CPSR without its flags, GE and Thumb bits, the SPSRs, every
  banked register and CP15 without the user thread word.
\<close>

abbreviation "PRIV_BITS \<equiv> (0x00f0ffdf :: u32)"

definition priv_view ::
  "arm_cpu \<Rightarrow> u32 \<times> (arm_bank \<Rightarrow> u32) \<times> (arm_bank \<Rightarrow> u32) \<times> (arm_bank \<Rightarrow> u32) \<times> (nat \<Rightarrow> u32) \<times> (nat \<Rightarrow> u32) \<times> arm_cp15" where
  "priv_view c = (cpsr c AND PRIV_BITS, spsr c, bank_r13 c, bank_r14 c, fiq_r8_12 c, usr_r8_12 c,
     (cp15 c)\<lparr>tpidrurw := 0\<rparr>)"

definition in_user :: "arm_cpu \<Rightarrow> bool" where
  "in_user c \<longleftrightarrow> cpsr c AND CPSR_MODE_MASK = MODE_USR"



lemma in_user_priv [simp]: "in_user c \<Longrightarrow> \<not> cpu_is_priv c"
  by (simp add: in_user_def cpu_is_priv_def)

lemma priv_view_update [simp]:
  "priv_view (c\<lparr>regs := r\<rparr>) = priv_view c"
  "priv_view (c\<lparr>cycles := k\<rparr>) = priv_view c"
  "priv_view (c\<lparr>excl_valid := e\<rparr>) = priv_view c"
  "priv_view (c\<lparr>excl_addr := a\<rparr>) = priv_view c"
  "priv_view (c\<lparr>fetch_priv := fp\<rparr>) = priv_view c"
  "priv_view (c\<lparr>fetch_gen := fg\<rparr>) = priv_view c"
  "priv_view (c\<lparr>fetch_blk := fb\<rparr>) = priv_view c"
  "priv_view (c\<lparr>fetch_host := fh\<rparr>) = priv_view c"
  "priv_view (c\<lparr>abort_pending := ap\<rparr>) = priv_view c"
  "priv_view (set_reg c n v) = priv_view c"
  by (simp_all add: priv_view_def set_reg_def)

lemma priv_view_flag [simp]: "b AND PRIV_BITS = 0 \<Longrightarrow> priv_view (set_flag c b on) = priv_view c"
  by (simp add: priv_view_def set_flag_def and_or_notand)

lemma priv_view_cpsr_or [simp]: "b AND PRIV_BITS = 0 \<Longrightarrow> priv_view (c\<lparr>cpsr := cpsr c OR b\<rparr>) = priv_view c"
  by (simp add: priv_view_def and_or_notand)

lemma priv_view_cpsr_clear [simp]: "priv_view (c\<lparr>cpsr := cpsr c AND - 0x21\<rparr>) = priv_view c"
  using and_or_notand(2) [of "0x20 :: u32" PRIV_BITS "cpsr c"] by (simp add: priv_view_def)

lemma priv_view_arch: "arch_view d = arch_view c \<Longrightarrow> priv_view d = priv_view c"
  by (simp add: priv_view_def arch_view_def)

lemma priv_view_frame: 
  assumes "user_frame c d" shows "priv_view d = priv_view c"
proof -
  obtain r x where d: "d = c\<lparr>regs := r, cpsr := x\<rparr>" and x: "x AND CPSR_GUARDED = cpsr c AND CPSR_GUARDED"
    using assms unfolding user_frame_alt by blast
  have "x AND PRIV_BITS = (x AND CPSR_GUARDED) AND PRIV_BITS" by (simp add: and.assoc)
  also have "\<dots> = cpsr c AND PRIV_BITS" by (simp add: x and.assoc)
  finally show ?thesis by (simp add: d priv_view_def)
qed

lemmas priv_view_alu [simp] =
  priv_view_frame [OF user_frame_alu_add] priv_view_frame [OF user_frame_alu_sub] priv_view_frame [OF user_frame_logic]

lemma priv_view_alu_eq:
  "alu_add c a b cin s = (r, d) \<Longrightarrow> priv_view d = priv_view c"
  "alu_sub c a b cin s = (r, d) \<Longrightarrow> priv_view d = priv_view c"
proof -
  show "alu_add c a b cin s = (r, d) \<Longrightarrow> priv_view d = priv_view c"
    using user_frame_alu_add [of c a b cin s] by (intro priv_view_frame) simp
  show "alu_sub c a b cin s = (r, d) \<Longrightarrow> priv_view d = priv_view c"
    using user_frame_alu_sub [of c a b cin s] by (intro priv_view_frame) simp
qed


lemma priv_view_note [simp]:
  "priv_view (note_abort c f a) = priv_view c" "priv_view (note_alignment_abort c a w) = priv_view c"
  by (rule priv_view_arch, rule view_note_abort) (rule priv_view_arch, rule view_align_abort)



subsection \<open>ARM instructions in User mode\<close>















subsection \<open>Thumb in User mode\<close>







lemma user_thumb_commit [simp]: "priv_view (thumb_commit is ld c) = priv_view c"
  by (induction "is" arbitrary: c) simp_all





subsection \<open>Entering an exception\<close>












subsection \<open>One step\<close>


















end
