(* ===== verification/ArmAlign.thy ===== *)
theory ArmAlign
  imports ArmStep
begin

unbundle bit_operations_syntax

text \<open>
  The alignment of the program counter. Every way an instruction of
  \<open>core/src/arm/arm_interp.c\<close> can choose the next address, in both instruction sets, leaves it
  aligned for the state it selects; so the fetch path may read two or four bytes through the
  pointer to a 1 KB block without checking the end of the block.
\<close>

subsection \<open>Aligned addresses\<close>

definition pc_aligned :: "arm_cpu \<Rightarrow> u32 \<Rightarrow> bool" where
  "pc_aligned c n \<longleftrightarrow> n AND (if cpsr c AND CPSR_T \<noteq> 0 then 1 else 3) = 0"

definition thumb_state :: "arm_cpu \<Rightarrow> bool" where
  "thumb_state c \<longleftrightarrow> cpsr c AND CPSR_T \<noteq> 0"

lemma thumb_state_bit: "thumb_state c \<longleftrightarrow> bit (cpsr c) 5"
  using and_exp_eq_0_iff_not_bit [of "cpsr c" 5] by (simp add: thumb_state_def)

lemma and_1_bits: "(n :: u32) AND 1 = 0 \<longleftrightarrow> \<not> bit n 0"
  using and_exp_eq_0_iff_not_bit [of n 0] by simp

lemma and_3_take: "(n :: u32) AND 3 = take_bit 2 n"
  by (simp add: take_bit_eq_mask mask_eq_exp_minus_1)

lemma and_3_bits: "(n :: u32) AND 3 = 0 \<longleftrightarrow> \<not> bit n 0 \<and> \<not> bit n 1"
proof
  assume a: "n AND 3 = 0"
  have "bit (n AND 3) 0 = bit n 0" "bit (n AND 3) 1 = bit n 1" by (simp_all add: bit_and_iff bit_masks)
  then show "\<not> bit n 0 \<and> \<not> bit n 1" using a by simp
next
  assume "\<not> bit n 0 \<and> \<not> bit n 1"
  then show "n AND 3 = 0" by (intro bit_word_eqI) (auto simp: bit_and_iff bit_masks dest!: less_2_cases)
qed

lemma pc_aligned_bits: "pc_aligned c n \<longleftrightarrow> \<not> bit n 0 \<and> (thumb_state c \<or> \<not> bit n 1)"
  by (auto simp: pc_aligned_def thumb_state_def and_1_bits and_3_bits)

lemma bit_not_low: "bit (w AND NOT 1 :: u32) 0 = False" "bit (w AND NOT 3 :: u32) 0 = False"
    "bit (w AND NOT 3 :: u32) 1 = False" "bit (w AND NOT 1 :: u32) 1 = bit w 1"
  by (auto simp: bit_simps bit_numeral_word_iff numeral_2_eq_2)

lemma and_3_push: "(n :: u32) AND 3 = 0 \<longleftrightarrow> (\<exists>x. n = push_bit 2 x)"
proof
  assume "n AND 3 = 0"
  then have "bit n i = bit (push_bit 2 (drop_bit 2 n)) i" if "i < 32" for i
    using that le_add_diff_inverse [of 2 i]
    by (cases "i < 2") (auto simp: and_3_bits bit_push_bit_iff bit_drop_bit_eq dest!: less_2_cases)
  then have "n = push_bit 2 (drop_bit 2 n)" by (intro bit_word_eqI) simp
  then show "\<exists>x. n = push_bit 2 x" ..
next
  assume "\<exists>x. n = push_bit 2 x"
  then obtain x where n: "n = push_bit 2 x" ..
  show "n AND 3 = 0" unfolding and_3_bits n bit_push_bit_iff by simp
qed

lemma aligned_add: "a AND 3 = 0 \<Longrightarrow> b AND 3 = 0 \<Longrightarrow> (a + b :: u32) AND 3 = 0"
  unfolding and_3_push by (auto simp: push_bit_add [symmetric] simp del: push_bit_numeral)

lemma even_add: "\<not> bit a 0 \<Longrightarrow> \<not> bit b 0 \<Longrightarrow> \<not> bit (a + b :: u32) 0"
  by (simp add: bit_0)

subsection \<open>ARM state\<close>

lemma aligned_any: "n AND 3 = 0 \<Longrightarrow> pc_aligned d n"
  by (simp add: pc_aligned_bits and_3_bits)

lemma thumb_or_t [simp]: "thumb_state (c\<lparr>cpsr := x OR CPSR_T\<rparr>)"
  by (simp add: thumb_state_bit bit_or_iff bit_masks)

lemma thumb_state_regs [simp]: "thumb_state (c\<lparr>regs := r\<rparr>) = thumb_state c"
  by (simp add: thumb_state_def)

lemma aligned_masked: "pc_aligned d (n AND (if cpsr d AND CPSR_T \<noteq> 0 then NOT 1 else NOT 3))"
  unfolding pc_aligned_def by (simp add: and.assoc)

lemma low_masks:
  "(n AND - 2) AND 1 = (0 :: u32)" "(n AND - 4) AND 3 = (0 :: u32)" "(n AND - 4) AND 1 = (0 :: u32)"
  by (simp_all add: and.assoc)

lemma halfword_aligned: "thumb_state d \<Longrightarrow> pc_aligned d (t AND - 2)"
  by (simp add: pc_aligned_def thumb_state_def low_masks)

lemma bx_aligned:
  assumes "t AND 3 \<noteq> 2" "bit t 0 \<longrightarrow> thumb_state d"
  shows "pc_aligned d (t AND - 2)"
proof (cases "bit t 0")
  case True
  then show ?thesis using assms(2) by (simp add: halfword_aligned)
next
  case False
  have "t AND 3 = 2" if "bit t 1"
    by (rule bit_word_eqI) (use that False in \<open>auto simp: bit_and_iff bit_masks dest!: less_2_cases\<close>)
  then have "t AND 3 = 0" using False assms(1) by (auto simp: and_3_bits)
  then have "(t AND - 2) AND 3 = 0" by (simp add: and.assoc and.left_commute [of t] and.commute [of t])
  then show ?thesis by (rule aligned_any)
qed

lemma misc_aligned:
  assumes "exec_misc c pc insn next = (ARM_OK, d, n)" "next AND 3 = 0"
  shows "pc_aligned d n"
  using assms
  by (auto simp: exec_misc_def Let_def thumb_or_t bx_aligned aligned_any split: if_splits prod.splits)

lemma data_aligned:
  assumes "exec_data_processing c pc insn next = (ARM_OK, d, n)" "next AND 3 = 0"
  shows "pc_aligned d n"
proof (cases "fld insn 21 15 \<ge> 8 \<and> fld insn 21 15 \<le> 11 \<and> \<not> bit insn 20")
  case True
  then show ?thesis
    using assms misc_aligned [of c pc insn "next" d n]
    by (auto simp: exec_data_processing_def Let_def aligned_any split: if_splits)
next
  case False
  obtain op2 k where o: "dp_operand2 c pc insn (get_flag c CPSR_C) = (op2, k)" by force
  obtain r w e where e: "dp_alu c (fld insn 21 15) (bit insn 20) (reg_read c pc (fld insn 16 15)) op2 k = (r, w, e)"
    by (cases "dp_alu c (fld insn 21 15) (bit insn 20) (reg_read c pc (fld insn 16 15)) op2 k") auto
  have "n = next \<or> n = r AND (if cpsr d AND CPSR_T \<noteq> 0 then NOT 1 else NOT 3)"
    using assms(1) False unfolding exec_data_processing_def Let_def o prod.case e
    by (auto split: if_splits)
  then show ?thesis using aligned_masked [of d r] aligned_any [OF assms(2)] by metis
qed

lemma pc_aligned_reg [simp]: "pc_aligned (set_reg d r v) n = pc_aligned d n"
  by (simp add: pc_aligned_def set_reg_def)

lemma interwork_aligned:
  assumes "interwork c v = (d, n)" "v AND 3 \<noteq> 2" shows "pc_aligned d n"
proof (cases "bit v 0")
  case True
  then have "d = c\<lparr>cpsr := cpsr c OR CPSR_T\<rparr>" "n = v AND - 2"
    using assms(1) by (simp_all add: interwork_def set_flag_def)
  then show ?thesis by (simp add: halfword_aligned)
next
  case False
  then show ?thesis using assms(1) by (auto simp: interwork_def low_masks intro!: aligned_any)
qed

lemma single_aligned:
  assumes "exec_single_transfer bus m c pc insn next = (ARM_OK, d, m', n)" "next AND 3 = 0"
  shows "pc_aligned d n"
  using assms
  by (auto simp: exec_single_transfer_def Let_def aligned_any dest: interwork_aligned split: if_splits prod.splits)

lemma block_commit_aligned:
  "block_commit ub restore is ld c next = (d, n) \<Longrightarrow> next AND 3 = 0 \<Longrightarrow> sorted is \<Longrightarrow> set is \<subseteq> {..<16} \<Longrightarrow>
   distinct is \<Longrightarrow> restore \<or> ub \<or> 15 \<notin> set is \<or> ld 15 AND 3 \<noteq> 2 \<Longrightarrow> pc_aligned d n"
proof (induction "is" arbitrary: c "next")
  case Nil
  then show ?case by (simp add: aligned_any)
next
  case (Cons i "is")
  show ?case
  proof (cases "\<not> ub \<and> i = 15 \<and> \<not> restore")
    case True
    have "is = []"
    proof (rule ccontr)
      assume "is \<noteq> []"
      then obtain j where "j \<in> set is" by (cases "is") auto
      then have "15 \<le> j" "j < 16" "j \<noteq> 15" using Cons.prems True by auto
      then show False by simp
    qed
    then have "interwork (set_reg c 15 (ld 15)) (ld 15) = (d, n)" "ld 15 AND 3 \<noteq> 2"
      using Cons.prems True by (auto simp: Let_def split: prod.splits)
    then show ?thesis by (rule interwork_aligned)
  next
    case False
    then have "\<exists>e. block_commit ub restore is ld e next = (d, n)"
      using Cons.prems(1) by (cases ub) (auto simp: Let_def)
    then obtain e where "block_commit ub restore is ld e next = (d, n)" ..
    then show ?thesis using Cons.prems by (intro Cons.IH) auto
  qed
qed

lemma reg_list_facts: "sorted (reg_list l)" "set (reg_list l) \<subseteq> {..<16}" "distinct (reg_list l)"
  "15 \<in> set (reg_list l) \<longleftrightarrow> bit l 15"
  by (auto simp: reg_list_def sorted_wrt_filter)

lemma aligned_cases:
  "cpsr d AND CPSR_T \<noteq> 0 \<Longrightarrow> pc_aligned d (v AND NOT 1)" "cpsr d AND CPSR_T = 0 \<Longrightarrow> pc_aligned d (v AND NOT 3)"
  using aligned_masked [of d v] by simp_all

lemma block_aligned:
  assumes "exec_block_transfer bus m c pc insn next = (ARM_OK, d, m', n)" "next AND 3 = 0"
  shows "pc_aligned d n"
proof -
  note bc = block_commit_aligned [OF _ _ reg_list_facts(1-3), unfolded reg_list_facts(4)]
  show ?thesis
    using assms unfolding exec_block_transfer_def Let_def
    apply (simp only: split: if_split_asm prod.split_asm)
    apply (simp_all only: prod.inject arm_status.distinct simp_thms)
    apply (elim conjE, hypsubst, (rule aligned_any, assumption | rule aligned_cases, assumption
      | (simp only: pc_aligned_reg)?, rule bc, assumption, assumption, blast))+
    done
qed

lemma extra_aligned:
  assumes "exec_extra_transfer bus m c pc insn next = (ARM_OK, d, m', n)" "next AND 3 = 0"
  shows "pc_aligned d n"
proof -
  have "n = next"
    using assms(1) unfolding exec_extra_transfer_def Let_def
    by (auto split: if_splits prod.splits)
  then show ?thesis using assms(2) aligned_any by simp
qed

lemma branch_aligned: "exec_branch c pc insn = (s, d, n) \<Longrightarrow> pc_aligned d n"
  by (auto simp: exec_branch_def Let_def low_masks intro!: aligned_any)

text \<open>What the host service behind a privileged SVC is relied on for.\<close>

definition svc_contract :: "'m arm_bus \<Rightarrow> bool" where
  "svc_contract bus \<longleftrightarrow> (\<forall>h. privileged_svc_handler bus = Some h \<longrightarrow>
     (\<forall>c m pc e r c' m'. h (c, m) pc e = (r, c', m') \<longrightarrow>
        (r = SVC_HANDLED \<longrightarrow> thumb_state c' = thumb_state c) \<and>
        (r = SVC_REDIRECTED \<longrightarrow> pc_aligned c' (regs c' 15))))"

lemma svc_result:
  assumes "svc_contract bus" "privileged_svc_result bus m c pc e = (r, d, m')"
  shows "(r \<noteq> SVC_REDIRECTED \<longrightarrow> thumb_state d = thumb_state c) \<and> (r = SVC_REDIRECTED \<longrightarrow> pc_aligned d (regs d 15))"
proof -
  have k: "thumb_state (c\<lparr>cycles := k\<rparr>) = thumb_state c" for k by (simp add: thumb_state_def)
  show ?thesis
    using assms k unfolding svc_contract_def privileged_svc_result_def
    by (fastforce split: if_splits option.splits prod.splits)
qed

text \<open>Exception entry is in ARM state at a word-aligned vector.\<close>

lemma exception_aligned:
  assumes "arm_mode_is_valid mode" "vec AND 3 = 0" "take_exception c vec mode ret mf = (d, a)"
  shows "a AND 3 = 0"
proof -
  have "a = (if sctlr (cp15 c) AND SCTLR_V \<noteq> 0 then 0xffff0000 else 0) + vec"
    using take_exception_parts(5) [OF assms(1), of c vec ret mf] assms(3) by simp
  then show ?thesis using assms(2) aligned_add [of "0xffff0000" vec] by (auto split: if_splits)
qed

lemma modes_valid: "arm_mode_is_valid MODE_SVC" "arm_mode_is_valid MODE_ABT" "arm_mode_is_valid MODE_UND"
  "arm_mode_is_valid MODE_IRQ" "arm_mode_is_valid MODE_FIQ"
  by (simp_all add: arm_mode_is_valid_def)

lemma data_abort_aligned: "pc_aligned (take_pending_data_abort c pc) (regs (take_pending_data_abort c pc) 15)"
proof -
  let ?c = "c\<lparr>abort_pending := False, cp15 := (cp15 c)\<lparr>dfsr := abort_fsr c, dfar := abort_far c\<rparr>\<rparr>"
  obtain d a where t: "take_exception ?c VEC_DATA_ABORT MODE_ABT (pc + 8) False = (d, a)" by force
  have "a AND 3 = 0" by (rule exception_aligned [OF modes_valid(2) _ t]) simp
  then show ?thesis using t by (simp add: take_pending_data_abort_def Let_def aligned_any)
qed

lemma undefined_aligned: "take_undefined_instruction c pc = (s, d) \<Longrightarrow> pc_aligned d (regs d 15)"
proof -
  obtain e a where t: "take_exception c VEC_UNDEFINED MODE_UND (pc + 4) False = (e, a)" by force
  have "a AND 3 = 0" by (rule exception_aligned [OF modes_valid(3) _ t]) simp
  then show "take_undefined_instruction c pc = (s, d) \<Longrightarrow> pc_aligned d (regs d 15)"
    using t by (auto simp: take_undefined_instruction_def Let_def aligned_any)
qed

lemma svc_aligned:
  assumes "svc_contract bus" "exec_svc bus m c pc insn next = (l, ARM_OK, d, m', n)" "next AND 3 = 0"
  shows "pc_aligned d n"
proof -
  obtain r e me where p: "privileged_svc_result bus m c pc insn = (r, e, me)"
    by (cases "privileged_svc_result bus m c pc insn") auto
  obtain f a where t: "take_exception e VEC_SWI MODE_SVC (pc + 4) False = (f, a)" by force
  have "a AND 3 = 0" by (rule exception_aligned [OF modes_valid(1) _ t]) simp
  then show ?thesis
    using assms(2,3) svc_result [OF assms(1) p] by (auto simp: exec_svc_def p t aligned_any split: if_splits)
qed

lemma conditional_aligned:
  assumes "svc_contract bus" "exec_conditional vfp bus m c pc insn next = (l, ARM_OK, d, m', n)" "next AND 3 = 0"
  shows "pc_aligned d n"
  using assms(2)
proof (cases rule: exec_conditional_cases)
  case data
  then show ?thesis using data_aligned assms(3) by simp
next
  case branch
  then show ?thesis using branch_aligned by simp
next
  case single
  then show ?thesis using single_aligned [OF single(1) assms(3)] by simp
next
  case block
  then show ?thesis using block_aligned [OF block(1) assms(3)] by simp
next
  case extra
  then show ?thesis using extra_aligned [OF extra(1) assms(3)] by simp
next
  case svc
  then show ?thesis using svc_aligned [OF assms(1) svc assms(3)] by simp
qed (use assms(3) aligned_any in simp_all)

lemma regs_set_reg [simp]: "regs (set_reg c n v) n = v"
  by (simp add: set_reg_def)

lemma undefined_instruction_aligned: "undefined_instruction c pc insn = (ARM_OK, d) \<Longrightarrow> pc_aligned d (regs d 15)"
  using undefined_aligned by (auto simp: undefined_instruction_def split: if_splits)

lemma rfe_aligned:
  assumes "exec_rfe bus m c pc insn = (ARM_OK, d, m')" shows "pc_aligned d (regs d 15)"
  using assms unfolding exec_rfe_def Let_def
  by (auto simp: data_abort_aligned aligned_cases [simplified] split: if_splits prod.splits)

lemma unconditional_aligned:
  assumes "exec_unconditional bus m c pc insn next = (ARM_OK, d, m')" "next AND 3 = 0"
  shows "pc_aligned d (regs d 15)"
proof -
  have srs: "exec_srs bus m c pc insn next = (ARM_OK, d, m') \<Longrightarrow> ?thesis"
    using data_abort_aligned aligned_any [OF assms(2)]
    by (auto simp: exec_srs_def Let_def split: if_splits prod.splits)
  have cps: "exec_cps c insn next = (ARM_OK, d) \<Longrightarrow> ?thesis"
    using aligned_any [OF assms(2)] by (auto simp: exec_cps_def Let_def split: if_splits)
  have blx: "pc_aligned (exec_blx_imm c pc insn) (regs (exec_blx_imm c pc insn) 15)"
    by (simp add: exec_blx_imm_def Let_def halfword_aligned)
  have setend: "pc_aligned (set_reg e 15 next) next" for e using aligned_any [OF assms(2)] by simp
  show ?thesis
    using assms(1) srs cps blx rfe_aligned [of bus m c pc insn d m'] undefined_instruction_aligned [of c pc insn d] setend
    unfolding exec_unconditional_def by (auto split: if_splits prod.splits)
qed

lemma step_arm_aligned:
  assumes "svc_contract bus" "step_arm vfp bus m c pc insn = (ARM_OK, d, m')" "pc AND 3 = 0"
  shows "pc_aligned d (regs d 15)"
proof -
  let ?c = "c\<lparr>cycles := cycles c + 1\<rparr>"
  have n: "(pc + 4) AND 3 = 0" using aligned_add [OF assms(3), of 4] by simp
  obtain l st f mf k where x: "exec_conditional vfp bus m ?c pc insn (pc + 4) = (l, st, f, mf, k)"
    by (cases "exec_conditional vfp bus m ?c pc insn (pc + 4)") auto
  have halt: "l \<Longrightarrow> st = ARM_HALT"
    using x by (cases rule: exec_conditional_cases) (auto simp: exec_svc_def split: if_splits prod.splits)
  have k: "st = ARM_OK \<Longrightarrow> pc_aligned f k"
    using conditional_aligned [OF assms(1) _ n] x by blast
  show ?thesis
    using assms(2) unconditional_aligned [OF _ n] aligned_any [OF n] k halt data_abort_aligned undefined_aligned
      undefined_instruction_aligned
    by (auto simp: step_arm_def Let_def x split: if_splits prod.splits)
qed

subsection \<open>Thumb state\<close>

lemma thumb_state_set_reg [simp]: "thumb_state (set_reg c n v) = thumb_state c"
  by (simp add: thumb_state_def set_reg_def)

lemma thumb_state_flag [simp]: "b AND CPSR_T = 0 \<Longrightarrow> thumb_state (set_flag c b on) = thumb_state c"
  by (simp add: thumb_state_def set_flag_def and_or_notand)

lemma thumb_state_alu [simp]:
  "thumb_state (snd (alu_add c a b cin sf)) = thumb_state c"
  "thumb_state (snd (alu_sub c a b cin sf)) = thumb_state c"
  "thumb_state (alu_logic_flags c r k sf) = thumb_state c"
  by (simp_all add: alu_sub_def alu_add_def alu_logic_flags_def Let_def)

lemma thumb_state_arch: "arch_view d = arch_view c \<Longrightarrow> thumb_state d = thumb_state c"
  by (simp add: thumb_state_def arch_view_def)

lemmas thumb_state_mem = view_mem_r [THEN thumb_state_arch] view_mem_w [THEN thumb_state_arch]

lemma thumb_state_prepare: "prepare_multiword_address c va al w = (ok, c', va') \<Longrightarrow> thumb_state c' = thumb_state c"
  using view_prepare thumb_state_arch by blast

lemma thumb_state_pure:
  "thumb_state (thumb_shift_add c insn) = thumb_state c"
  "thumb_state (thumb_imm8 c insn) = thumb_state c"
  "thumb_state (thumb_alu c insn) = thumb_state c"
  by (simp_all add: thumb_shift_add_def thumb_imm8_def thumb_alu_def Let_def case_prod_beta)

lemma thumb_state_load: "thumb_load bus n ext m c addr rd = (d, m') \<Longrightarrow> thumb_state d = thumb_state c"
  by (auto simp: thumb_load_def dest!: thumb_state_mem split: if_splits prod.splits)

lemma thumb_state_transfers:
  "thumb_reg_offset bus m c insn = (s, d, m') \<Longrightarrow> thumb_state d = thumb_state c"
  "thumb_imm_offset bus m c insn = (s, d, m') \<Longrightarrow> thumb_state d = thumb_state c"
  "thumb_half_offset bus m c insn = (s, d, m') \<Longrightarrow> thumb_state d = thumb_state c"
  "thumb_sp_offset bus m c insn = (s, d, m') \<Longrightarrow> thumb_state d = thumb_state c"
  by (auto simp: thumb_reg_offset_def thumb_imm_offset_def thumb_half_offset_def thumb_sp_offset_def Let_def
    dest: thumb_state_mem thumb_state_load split: if_splits)

lemma thumb_state_load_loop:
  "thumb_load_loop bus is addr ld c m = (ok, ld', addr', d, m') \<Longrightarrow> thumb_state d = thumb_state c"
  by (induction "is" arbitrary: addr ld c m) (auto dest!: thumb_state_mem split: if_splits prod.splits)

lemma thumb_state_store_loop:
  "thumb_store_loop bus is addr c m = (ok, addr', d, m') \<Longrightarrow> thumb_state d = thumb_state c"
  by (induction "is" arbitrary: addr c m) (auto dest!: thumb_state_mem split: if_splits prod.splits)

lemma thumb_state_commit [simp]: "thumb_state (thumb_commit is ld c) = thumb_state c"
  by (induction "is" arbitrary: c) simp_all

lemma thumb_state_multiple:
  "thumb_multiple bus m c insn = (s, d, m') \<Longrightarrow> thumb_state d = thumb_state c"
  by (auto simp: thumb_multiple_def Let_def
    dest!: thumb_state_prepare thumb_state_load_loop thumb_state_store_loop split: if_splits prod.splits)

lemma thumb_state_push: "thumb_push bus m c insn = (d, m') \<Longrightarrow> thumb_state d = thumb_state c"
  by (auto simp: thumb_push_def Let_def
    dest!: thumb_state_prepare thumb_state_store_loop thumb_state_mem split: if_splits prod.splits)

lemma thumb_state_cps: "thumb_state (thumb_cps c insn) = thumb_state c"
  by (simp add: thumb_cps_def Let_def)

lemma clear_thumb: "\<not> thumb_state (c\<lparr>cpsr := cpsr c AND - 0x21\<rparr>)"
  by (simp add: thumb_state_bit bit_and_iff bit_neg_masks)

lemma thumb_aligned: "thumb_state d \<Longrightarrow> k AND 1 = 0 \<Longrightarrow> pc_aligned d k"
  by (simp add: pc_aligned_def thumb_state_def)

lemma thumb_high_aligned:
  assumes "thumb_high c pc insn next = (ARM_OK, d, n)" "thumb_state c" "next AND 1 = 0"
  shows "pc_aligned d n"
  using assms unfolding thumb_high_def Let_def
  by (auto simp: halfword_aligned bx_aligned thumb_aligned split: if_splits)

lemma thumb_pop_aligned:
  assumes "thumb_pop bus m c insn next = (ARM_OK, d, m', n)" "thumb_state c" "next AND 1 = 0"
  shows "pc_aligned d n"
  using assms unfolding thumb_pop_def Let_def
  by (auto simp: thumb_aligned bx_aligned dest!: thumb_state_prepare thumb_state_load_loop thumb_state_mem
    split: if_splits prod.splits)

lemma thumb_misc_aligned:
  assumes "thumb_misc bus m c insn next = (ARM_OK, d, m', n)" "thumb_state c" "next AND 1 = 0"
  shows "pc_aligned d n"
  using assms unfolding thumb_misc_def Let_def
  by (auto simp: thumb_aligned thumb_state_cps intro: thumb_pop_aligned dest!: thumb_state_push split: if_splits prod.splits)

lemma thumb_targets:
  assumes "pc AND 1 = 0"
  shows "(pc + 4 + push_bit 1 w) AND 1 = (0 :: u32)"
    "(pc + 4 + signed_drop_bit 20 (push_bit 21 w)) AND 1 = (0 :: u32)"
proof -
  have p: "\<not> bit (pc + 4) 0" using assms by (intro even_add) (simp_all add: and_1_bits bit_0)
  have "\<not> bit (push_bit 1 w) 0" by (simp add: bit_0)
  moreover have "\<not> bit (signed_drop_bit 20 (push_bit 21 w)) 0"
    by (simp add: bit_push_bit_iff bit_signed_drop_bit_iff del: push_bit_numeral)
  ultimately have "\<not> bit (pc + 4 + push_bit 1 w) 0" "\<not> bit (pc + 4 + signed_drop_bit 20 (push_bit 21 w)) 0"
    using even_add [OF p] by blast+
  then show "(pc + 4 + push_bit 1 w) AND 1 = 0" "(pc + 4 + signed_drop_bit 20 (push_bit 21 w)) AND 1 = 0"
    by (simp_all only: and_1_bits not_False_eq_True)
qed

lemma thumb_swi_aligned:
  assumes "svc_contract bus" "thumb_cond_swi bus m c pc insn next = (ARM_OK, d, m', n)" "thumb_state c"
    "next AND 1 = 0" "pc AND 1 = 0"
  shows "pc_aligned d n"
proof -
  obtain r e me where p: "privileged_svc_result bus m c pc (ucast insn) = (r, e, me)"
    by (cases "privileged_svc_result bus m c pc (ucast insn)") auto
  obtain f a where t: "take_exception e VEC_SWI MODE_SVC (pc + 2) False = (f, a)" by force
  have v: "a AND 3 = 0" by (rule exception_aligned [OF modes_valid(1) _ t]) simp
  show ?thesis
    using assms(2-4) svc_result [OF assms(1) p] aligned_any [OF v]
    by (auto simp: thumb_cond_swi_def Let_def p t thumb_aligned thumb_targets(1) [OF assms(5), simplified] split: if_splits)
qed

lemma thumb_step_aligned:
  assumes "svc_contract bus" "thumb_step bus m c pc insn next = (ARM_OK, d, m', n)" "thumb_state c"
    "next AND 1 = 0" "pc AND 1 = 0"
  shows "pc_aligned d n"
proof -
  have branch: "thumb_branch c pc insn = (d, n) \<Longrightarrow> pc_aligned d n"
    using assms(3) thumb_targets(2) [OF assms(5)]
    by (auto simp: thumb_branch_def Let_def low_masks thumb_aligned aligned_any simp del: push_bit_numeral split: if_splits)
  have long: "thumb_long_branch c pc insn next = (d, n) \<Longrightarrow> pc_aligned d n"
    using assms(3,4) by (auto simp: thumb_long_branch_def Let_def low_masks thumb_aligned split: if_splits)
  show ?thesis
  proof (cases "fld insn 12 0xf \<in> {0xb, 0xd, 0xe, 0xf}")
    case True
    then show ?thesis
      using assms(2) thumb_misc_aligned [OF _ assms(3,4)] thumb_swi_aligned [OF assms(1) _ assms(3-5)] branch long
      by (auto simp: thumb_step_def Let_def split: prod.splits)
  next
    case False
    moreover obtain op where op: "fld insn 12 0xf = op" by simp
    moreover have "op \<le> 15" using fld_le [of insn 12 15] op by simp
    ultimately have "fld insn 12 0xf \<in> {0, 1, 2, 3, 4, 5, 6, 7, 8, 9, 10, 12}" by simp presburger
    then have "thumb_high c pc insn next = (ARM_OK, d, n) \<or> thumb_state d = thumb_state c \<and> n = next"
      using assms(2) unfolding thumb_step_def Let_def
      by (auto simp: thumb_state_pure dest: thumb_state_load thumb_state_transfers thumb_state_multiple
        split: if_splits prod.splits)
    then show ?thesis using thumb_high_aligned [OF _ assms(3,4)] thumb_aligned assms(3,4) by auto
  qed
qed

lemma step_thumb_aligned:
  assumes "svc_contract bus" "step_thumb bus m c pc insn = (ARM_OK, d, m')" "thumb_state c" "pc AND 1 = 0"
  shows "pc_aligned d (regs d 15)"
proof -
  let ?c = "c\<lparr>cycles := cycles c + 1\<rparr>"
  obtain st e me n where t: "thumb_step bus m ?c pc insn (pc + 2) = (st, e, me, n)"
    by (cases "thumb_step bus m ?c pc insn (pc + 2)") auto
  have c: "thumb_state ?c" using assms(3) by (simp add: thumb_state_def)
  have "\<not> bit (pc + 2) 0" using assms(4) by (intro even_add) (simp_all add: and_1_bits bit_0)
  then have n: "(pc + 2) AND 1 = 0" by (simp only: and_1_bits not_False_eq_True)
  show ?thesis
    using assms(2) thumb_step_aligned [OF assms(1) _ c n assms(4), of m insn e me] data_abort_aligned
    by (auto simp: step_thumb_def t split: if_splits)
qed

subsection \<open>The step\<close>

lemma interrupt_aligned:
  assumes "arm_interrupt c = Some d" shows "pc_aligned d (regs d 15)"
proof -
  let ?c = "c\<lparr>cycles := cycles c + 1\<rparr>"
  have "pc_aligned (set_reg e 15 a) a" if "take_exception ?c VEC_FIQ MODE_FIQ r mf = (e, a)" for e a r mf
    using aligned_any [OF exception_aligned [OF modes_valid(5) _ that]] by simp
  moreover have "pc_aligned (set_reg e 15 a) a" if "take_exception ?c VEC_IRQ MODE_IRQ r mf = (e, a)" for e a r mf
    using aligned_any [OF exception_aligned [OF modes_valid(4) _ that]] by simp
  ultimately show ?thesis using assms by (auto simp: arm_interrupt_def Let_def split: if_splits prod.splits)
qed

text \<open>A prefetch abort enters its handler aligned; a fetch keeps the state and stays in its block.\<close>

lemma fetch_facts:
  assumes "arm_fetch bus m c pc = r"
  shows "case r of Inl (d, m') \<Rightarrow> pc_aligned d (regs d 15)
    | Inr (h, pa, d, m') \<Rightarrow> thumb_state d = thumb_state c \<and>
        (h \<noteq> None \<longrightarrow> fetch_host d \<noteq> None \<and> the h = the (fetch_host d) + unat (pc - (pc AND NOT 0x3ff)))"
proof -
  obtain f pa d md where t: "arm_mmu_translate bus m c pc ACCESS_FETCH (cpu_is_priv c) = (f, pa, d, md)"
    by (cases "arm_mmu_translate bus m c pc ACCESS_FETCH (cpu_is_priv c)") auto
  have th: "thumb_state d = thumb_state c" using thumb_state_arch [OF view_translate [OF t]] .
  let ?d = "d\<lparr>cycles := cycles d + 1, cp15 := (cp15 d)\<lparr>ifsr := f, ifar := pc\<rparr>\<rparr>"
  obtain h v where x: "take_exception ?d VEC_PREFETCH MODE_ABT (pc + 4) False = (h, v)" by force
  have "v AND 3 = 0" by (rule exception_aligned [OF modes_valid(2) _ x]) simp
  then show ?thesis
    using assms [symmetric] th by (simp add: arm_fetch_def Let_def t x aligned_any thumb_state_def split: option.split)
qed

lemma arm_step_aligned:
  assumes "pc_aligned c (regs c 15)" "svc_contract bus" "arm_step vfp bus m c = (ARM_OK, d, m')"
  shows "pc_aligned d (regs d 15)"
proof (cases "arm_interrupt c")
  case (Some e)
  then show ?thesis
    using assms(3) interrupt_aligned [OF Some] by (auto simp: arm_step_def Let_def split: if_splits)
next
  case None
  let ?f = "arm_fetch bus m c (regs c 15)"
  note f = fetch_facts [where bus = bus and m = m and c = c and pc = "regs c 15", OF refl]
  show ?thesis
  proof (cases ?f)
    case (Inl p)
    then show ?thesis
      using assms(3) f None by (auto simp: arm_step_def Let_def split: if_splits prod.splits)
  next
    case (Inr q)
    obtain h pa e me where q: "q = (h, pa, e, me)" by (cases q)
    have p: "thumb_state e = thumb_state c" using f Inr q by simp
    have pc: "thumb_state e \<Longrightarrow> regs c 15 AND 1 = 0" "\<not> thumb_state e \<Longrightarrow> regs c 15 AND 3 = 0"
      using assms(1) p by (simp_all add: pc_aligned_def thumb_state_def)
    show ?thesis
      using assms(3) None Inr q step_thumb_aligned [OF assms(2) _ _ pc(1), of _ e _ d m']
        step_arm_aligned [OF assms(2) _ pc(2), of vfp _ e _ d m']
      by (auto simp: arm_step_def Let_def thumb_state_def split: if_splits prod.splits)
  qed
qed

text \<open>
  Execution inside a machine: steps that succeed, and between them whatever the devices do to the
  machine and to the two interrupt lines.
\<close>

inductive arm_runs :: "'m vfp_unit \<Rightarrow> 'm arm_bus \<Rightarrow> arm_cpu \<times> 'm \<Rightarrow> arm_cpu \<times> 'm \<Rightarrow> bool"
  for vfp :: "'m vfp_unit" and bus :: "'m arm_bus" where
  start: "arm_runs vfp bus s s"
| step: "arm_runs vfp bus s (c, m) \<Longrightarrow> arm_step vfp bus m c = (ARM_OK, d, m') \<Longrightarrow> arm_runs vfp bus s (d, m')"
| devices: "arm_runs vfp bus s (c, m) \<Longrightarrow> arm_runs vfp bus s (c\<lparr>irq_line := i, fiq_line := f\<rparr>, m')"

lemma runs_aligned:
  assumes "arm_runs vfp bus s t" "svc_contract bus" "pc_aligned (fst s) (regs (fst s) 15)"
  shows "pc_aligned (fst t) (regs (fst t) 15)"
  using assms
proof (induction rule: arm_runs.induct)
  case (step s c m d m')
  then show ?case using arm_step_aligned by auto
qed (simp_all add: pc_aligned_def)

lemma offset_in_block: "pc - (pc AND NOT k) = pc AND (k :: u32)"
proof -
  have "(pc AND k) + (pc AND NOT k) = (pc AND k) OR (pc AND NOT k)"
    by (rule disjunctive_add) (auto simp: bit_and_iff bit_not_iff)
  also have "\<dots> = pc" by (simp add: bit.conj_disj_distrib [symmetric])
  finally show ?thesis by (simp add: algebra_simps)
qed

lemma block_offset:
  assumes "pc AND k = 0" "k = 1 \<and> n = 2 \<or> k = 3 \<and> n = 4"
  shows "unat (pc - (pc AND NOT 0x3ff) :: u32) + n \<le> 1024"
proof -
  have "pc AND 0x3ff = (pc AND 1) OR (pc AND 0x3fe)" "pc AND 0x3ff = (pc AND 3) OR (pc AND 0x3fc)"
    by (simp_all add: bit.conj_disj_distrib [symmetric])
  then have "pc AND 0x3ff = pc AND (if k = 1 then 0x3fe else 0x3fc)" using assms by auto
  then show ?thesis
    using assms(2) unat_and_le_right [of pc "0x3fe"] unat_and_le_right [of pc "0x3fc"] unfolding offset_in_block by auto
qed

text \<open>
  C12. The program counter stays aligned for the instruction set the processor is in, over any
  execution in a machine (steps, and devices changing memory and interrupt lines between them),
  whatever the guest executes: interworking branches, loads into the program counter, exception
  entries and returns included. So a fetch through the cached host pointer never reads past the
  1 KB block the machine handed out: the two or four bytes lie inside it.
\<close>

theorem fetch_stays_in_block:
  assumes "arm_runs vfp bus (c0, m0) (c, m)" and "svc_contract bus" and "pc_aligned c0 (regs c0 15)"
    and "arm_fetch bus m c (regs c 15) = Inr (Some h, pa, d, m')"
  shows "pc_aligned c (regs c 15) \<and>
    (\<exists>blk. fetch_host d = Some blk \<and> blk \<le> h \<and>
       h + (if cpsr d AND CPSR_T \<noteq> 0 then 2 else 4) \<le> blk + 1024)"
proof -
  let ?pc = "regs c 15"
  have a: "pc_aligned c ?pc" using runs_aligned [OF assms(1,2)] assms(3) by simp
  have f: "thumb_state d = thumb_state c" "fetch_host d \<noteq> None"
    "h = the (fetch_host d) + unat (?pc - (?pc AND NOT 0x3ff))"
    using fetch_facts [OF assms(4)] by simp_all
  have "unat (?pc - (?pc AND NOT 0x3ff)) + (if cpsr d AND CPSR_T \<noteq> 0 then 2 else 4) \<le> 1024"
    using a f(1) block_offset [of ?pc 1 2] block_offset [of ?pc 3 4]
    by (auto simp: pc_aligned_def thumb_state_def split: if_splits)
  then show ?thesis using a f(2,3) by auto
qed

theorem fetch_stays_in_block_witness:
  "\<exists>c m h pa d m'. arm_runs (\<lambda>b m c p i. (ARM_UNDEFINED, c, m)) ram_bus (cpu_zero, \<lambda>_. 0) (c, m) \<and> regs c 15 = 4 \<and>
     arm_fetch ram_bus m c 4 = Inr (Some h, pa, d, m') \<and> fetch_host d = Some 0 \<and> h + 4 \<le> 1024"
proof -
  let ?v = "\<lambda>b m c p i. (ARM_UNDEFINED, c, m)"
  let ?d = "cpu_zero\<lparr>fetch_host := Some 0, fetch_blk := 0, fetch_gen := 1, fetch_priv := False\<rparr>"
  let ?c = "set_reg (?d\<lparr>cycles := 1\<rparr>) 15 4"
  have f: "arm_fetch ram_bus (\<lambda>_. 0) cpu_zero 0 = Inr (Some 0, 0, ?d, \<lambda>_. 0)"
    by (simp add: arm_fetch_def arm_mmu_translate_def cpu_zero_def ram_bus_def cp15_zero_def cpu_is_priv_def Let_def)
  have i: "fetch_insn ram_bus 4 (Some 0) 0 (\<lambda>_. 0) = (0, \<lambda>_. 0)"
    by (simp add: fetch_insn_def host_get_def ram_bus_def upt_sizes)
  have c: "regs cpu_zero 15 = 0" "cpsr cpu_zero = MODE_USR" "arm_interrupt cpu_zero = None"
    "cycles cpu_zero = 0" "cpsr (cpu_zero\<lparr>cycles := 1\<rparr>) = MODE_USR"
    by (simp_all add: cpu_zero_def arm_interrupt_def)
  have p: "\<not> arm_cond_passed (?d\<lparr>cycles := 1\<rparr>) 0" by (simp add: arm_cond_passed_def get_flag_def c Let_def)
  have s: "arm_step ?v ram_bus (\<lambda>_. 0) cpu_zero = (ARM_OK, ?c, \<lambda>_. 0)"
    using p by (simp add: arm_step_def c f i arm_mode_is_valid_def step_arm_def Let_def)
  have r: "arm_runs ?v ram_bus (cpu_zero, \<lambda>_. 0) (?c, \<lambda>_. 0)"
    by (rule arm_runs.step [OF arm_runs.start s])
  have q: "arm_fetch ram_bus (\<lambda>_. 0) ?c (regs ?c 15) = Inr (Some 4, 0, ?c, \<lambda>_. 0)"
    by (simp add: arm_fetch_def cpu_zero_def cpu_is_priv_def set_reg_def Let_def)
  have "svc_contract ram_bus" "pc_aligned cpu_zero (regs cpu_zero 15)"
    by (simp_all add: svc_contract_def ram_bus_def pc_aligned_def cpu_zero_def)
  note t = fetch_stays_in_block [OF r this q]
  have "cpsr ?c AND CPSR_T = 0" "fetch_host ?c = Some 0" by (simp_all add: set_reg_def cpu_zero_def)
  then have "(4::nat) + 4 \<le> 1024" using t by auto
  moreover have "regs ?c 15 = 4" by (simp add: set_reg_def)
  ultimately show ?thesis using r q \<open>fetch_host ?c = Some 0\<close> by (metis (no_types))
qed

end
