(* ===== verification/VmBlock.thy ===== *)
theory VmBlock
  imports Prelude
begin

text \<open>
  The exact-transfer loops of the block layer (\<open>core/src/vm_block.c\<close>) and of the read-only byte
  source (\<open>core/src/vm_source.c\<close>). A host callback is a function of the host state \<open>'b\<close>: it
  returns its status, the count it stores in \<open>*actual\<close>, the bytes it stores at the destination and
  the new host state. \<open>VM_IO_OTHER\<close> is any value outside the enumeration, which the C switch sends
  to its default branch. A \<open>size_t\<close> is a \<open>nat\<close>; the lengths it holds are sizes of objects. Offsets
  and sizes of the medium keep their 64 bits. A null pointer (descriptor, buffer, callback) is
  \<open>None\<close>.
\<close>

subsection \<open>Types\<close>

datatype vm_io_status = VM_IO_OK | VM_IO_RETRY | VM_IO_ERROR | VM_IO_OTHER

datatype vm_block_status = BLOCK_OK | BLOCK_INVALID_ARGUMENT | BLOCK_OVERFLOW | BLOCK_BOUNDS
  | BLOCK_BACKEND | BLOCK_CANCELLED | BLOCK_STALLED | BLOCK_PROTOCOL

datatype vm_source_status = SOURCE_OK | SOURCE_INVALID_ARGUMENT | SOURCE_RANGE | SOURCE_EOF
  | SOURCE_IO | SOURCE_CANCELLED | SOURCE_PROTOCOL

type_synonym 'b read_at = "'b \<Rightarrow> u64 \<Rightarrow> nat \<Rightarrow> vm_io_status \<times> nat \<times> u8 list \<times> 'b"
type_synonym 'b write_at = "'b \<Rightarrow> u64 \<Rightarrow> u8 list \<Rightarrow> vm_io_status \<times> nat \<times> 'b"
type_synonym 'b cancel = "('b \<Rightarrow> bool \<times> 'b) option"

record 'b vm_block =
  blk_size :: u64
  blk_identity :: u64
  blk_generation :: u64
  blk_read_at :: "'b read_at option"
  blk_write_at :: "'b write_at option"
  blk_flush :: "('b \<Rightarrow> vm_io_status \<times> 'b) option"

record vm_block_info =
  info_size :: u64
  info_identity :: u64
  info_generation :: u64

record 'b vm_source =
  src_size :: u64
  src_read_at :: "'b read_at option"

abbreviation (input) "VM_BLOCK_NO_PROGRESS_LIMIT \<equiv> (64 :: nat)"
abbreviation (input) "VM_BLOCK_MAX_CALLBACK_BYTES \<equiv> (1048576 :: nat)"

definition poll :: "'b cancel \<Rightarrow> 'b \<Rightarrow> bool \<times> 'b" where
  "poll cancelled b = (case cancelled of None \<Rightarrow> (False, b) | Some f \<Rightarrow> f b)"

subsection \<open>Ranges and metadata\<close>

definition vm_block_check_range :: "'b vm_block option \<Rightarrow> u64 \<Rightarrow> u64 \<Rightarrow> vm_block_status" where
  "vm_block_check_range block offset len =
     (case block of
        None \<Rightarrow> BLOCK_INVALID_ARGUMENT
      | Some k \<Rightarrow>
          if len > (- 1) - offset then BLOCK_OVERFLOW
          else if offset > blk_size k \<or> len > blk_size k - offset then BLOCK_BOUNDS
          else BLOCK_OK)"

definition vm_block_get_info :: "'b vm_block option \<Rightarrow> vm_block_info option \<Rightarrow> vm_block_status \<times> vm_block_info option" where
  "vm_block_get_info block out_info =
     (case (block, out_info) of
        (Some k, Some i) \<Rightarrow>
          (BLOCK_OK, Some (i\<lparr>info_size := blk_size k, info_identity := blk_identity k,
                             info_generation := blk_generation k\<rparr>))
      | _ \<Rightarrow> (BLOCK_INVALID_ARGUMENT, out_info))"

definition vm_source_check_range :: "'b vm_source option \<Rightarrow> u64 \<Rightarrow> u64 \<Rightarrow> vm_source_status" where
  "vm_source_check_range source offset len =
     (case source of
        None \<Rightarrow> SOURCE_INVALID_ARGUMENT
      | Some s \<Rightarrow>
          if offset > src_size s \<or> len > src_size s - offset then SOURCE_RANGE else SOURCE_OK)"

subsection \<open>Reading a block exactly\<close>

text \<open>
  The body of the transfer loop: \<open>completed\<close> bytes are in \<open>bytes\<close>, and \<open>no_progress\<close> callbacks in a
  row delivered nothing. The loop ends because every turn either transfers at least one byte or
  counts one more callback without progress, and 64 of those in a row end it.
\<close>

function vm_block_read_loop ::
  "'b read_at \<Rightarrow> 'b cancel \<Rightarrow> u64 \<Rightarrow> nat \<Rightarrow> u8 list \<Rightarrow> nat \<Rightarrow> nat \<Rightarrow> 'b \<Rightarrow>
   vm_block_status \<times> nat \<times> u8 list \<times> 'b" where
  "vm_block_read_loop rd cancelled offset len bytes completed no_progress b =
     (if \<not> completed < len then (BLOCK_OK, completed, bytes, b)
      else
        let requested = min (len - completed) VM_BLOCK_MAX_CALLBACK_BYTES;
            (stop, b) = poll cancelled b
        in if stop then (BLOCK_CANCELLED, completed, bytes, b)
           else
             let (st, actual, data, b) = rd b (offset + of_nat completed) requested;
                 bytes = splice completed data bytes
             in if actual > requested then (BLOCK_PROTOCOL, completed, bytes, b)
                else if (st = VM_IO_RETRY \<or> st = VM_IO_ERROR) \<and> actual \<noteq> 0
                then (BLOCK_PROTOCOL, completed, bytes, b)
                else if st = VM_IO_ERROR then (BLOCK_BACKEND, completed, bytes, b)
                else if st = VM_IO_OTHER then (BLOCK_PROTOCOL, completed, bytes, b)
                else if st = VM_IO_OK \<and> actual \<noteq> 0
                then vm_block_read_loop rd cancelled offset len bytes (completed + actual) 0 b
                else if no_progress + 1 \<ge> VM_BLOCK_NO_PROGRESS_LIMIT
                then (BLOCK_STALLED, completed, bytes, b)
                else vm_block_read_loop rd cancelled offset len bytes completed (no_progress + 1) b)"
  by pat_completeness auto
termination
  by (relation "measures [\<lambda>(rd, cancelled, offset, len, bytes, completed, no_progress, b). len - completed,
      \<lambda>(rd, cancelled, offset, len, bytes, completed, no_progress, b). VM_BLOCK_NO_PROGRESS_LIMIT - no_progress]")
    auto

declare vm_block_read_loop.simps [simp del]

definition vm_block_read_exact ::
  "'b vm_block option \<Rightarrow> u64 \<Rightarrow> u8 list option \<Rightarrow> nat \<Rightarrow> 'b cancel \<Rightarrow> 'b \<Rightarrow>
   vm_block_status \<times> nat \<times> u8 list option \<times> 'b" where
  "vm_block_read_exact block offset destination len cancelled b =
     (case block of
        None \<Rightarrow> (BLOCK_INVALID_ARGUMENT, 0, destination, b)
      | Some k \<Rightarrow>
          let range_status = vm_block_check_range block offset (of_nat len) in
          if range_status \<noteq> BLOCK_OK then (range_status, 0, destination, b)
          else if len = 0 then (BLOCK_OK, 0, destination, b)
          else
            case (destination, blk_read_at k) of
              (Some bytes, Some rd) \<Rightarrow>
                (case vm_block_read_loop rd cancelled offset len bytes 0 0 b of
                   (st, n, bytes, b) \<Rightarrow> (st, n, Some bytes, b))
            | _ \<Rightarrow> (BLOCK_INVALID_ARGUMENT, 0, destination, b))"

subsection \<open>Writing a block exactly\<close>

function vm_block_write_loop ::
  "'b write_at \<Rightarrow> 'b cancel \<Rightarrow> u64 \<Rightarrow> u8 list \<Rightarrow> nat \<Rightarrow> nat \<Rightarrow> nat \<Rightarrow> 'b \<Rightarrow> vm_block_status \<times> nat \<times> 'b" where
  "vm_block_write_loop wr cancelled offset bytes len completed no_progress b =
     (if \<not> completed < len then (BLOCK_OK, completed, b)
      else
        let requested = min (len - completed) VM_BLOCK_MAX_CALLBACK_BYTES;
            (stop, b) = poll cancelled b
        in if stop then (BLOCK_CANCELLED, completed, b)
           else
             let (st, actual, b) = wr b (offset + of_nat completed) (take requested (drop completed bytes))
             in if actual > requested then (BLOCK_PROTOCOL, completed, b)
                else if (st = VM_IO_RETRY \<or> st = VM_IO_ERROR) \<and> actual \<noteq> 0
                then (BLOCK_PROTOCOL, completed, b)
                else if st = VM_IO_ERROR then (BLOCK_BACKEND, completed, b)
                else if st = VM_IO_OTHER then (BLOCK_PROTOCOL, completed, b)
                else if st = VM_IO_OK \<and> actual \<noteq> 0
                then vm_block_write_loop wr cancelled offset bytes len (completed + actual) 0 b
                else if no_progress + 1 \<ge> VM_BLOCK_NO_PROGRESS_LIMIT
                then (BLOCK_STALLED, completed, b)
                else vm_block_write_loop wr cancelled offset bytes len completed (no_progress + 1) b)"
  by pat_completeness auto
termination
  by (relation "measures [\<lambda>(wr, cancelled, offset, bytes, len, completed, no_progress, b). len - completed,
      \<lambda>(wr, cancelled, offset, bytes, len, completed, no_progress, b). VM_BLOCK_NO_PROGRESS_LIMIT - no_progress]")
    auto

declare vm_block_write_loop.simps [simp del]

definition vm_block_write_exact ::
  "'b vm_block option \<Rightarrow> u64 \<Rightarrow> u8 list option \<Rightarrow> nat \<Rightarrow> 'b cancel \<Rightarrow> 'b \<Rightarrow> vm_block_status \<times> nat \<times> 'b" where
  "vm_block_write_exact block offset source len cancelled b =
     (case block of
        None \<Rightarrow> (BLOCK_INVALID_ARGUMENT, 0, b)
      | Some k \<Rightarrow>
          let range_status = vm_block_check_range block offset (of_nat len) in
          if range_status \<noteq> BLOCK_OK then (range_status, 0, b)
          else if len = 0 then (BLOCK_OK, 0, b)
          else
            case (source, blk_write_at k) of
              (Some bytes, Some wr) \<Rightarrow> vm_block_write_loop wr cancelled offset bytes len 0 0 b
            | _ \<Rightarrow> (BLOCK_INVALID_ARGUMENT, 0, b))"

subsection \<open>Flushing\<close>

function vm_block_flush_loop ::
  "('b \<Rightarrow> vm_io_status \<times> 'b) \<Rightarrow> 'b cancel \<Rightarrow> nat \<Rightarrow> 'b \<Rightarrow> vm_block_status \<times> 'b" where
  "vm_block_flush_loop fl cancelled no_progress b =
     (let (stop, b) = poll cancelled b
      in if stop then (BLOCK_CANCELLED, b)
         else
           case fl b of (st, b) \<Rightarrow>
             if st = VM_IO_OK then (BLOCK_OK, b)
             else if st = VM_IO_RETRY then
               (if no_progress + 1 \<ge> VM_BLOCK_NO_PROGRESS_LIMIT then (BLOCK_STALLED, b)
                else vm_block_flush_loop fl cancelled (no_progress + 1) b)
             else if st = VM_IO_ERROR then (BLOCK_BACKEND, b)
             else (BLOCK_PROTOCOL, b))"
  by pat_completeness auto
termination
  by (relation "measure (\<lambda>(fl, cancelled, no_progress, b). VM_BLOCK_NO_PROGRESS_LIMIT - no_progress)") auto

declare vm_block_flush_loop.simps [simp del]

definition vm_block_flush :: "'b vm_block option \<Rightarrow> 'b cancel \<Rightarrow> 'b \<Rightarrow> vm_block_status \<times> 'b" where
  "vm_block_flush block cancelled b =
     (case block of
        None \<Rightarrow> (BLOCK_INVALID_ARGUMENT, b)
      | Some k \<Rightarrow>
          (case blk_flush k of
             None \<Rightarrow> (BLOCK_INVALID_ARGUMENT, b)
           | Some fl \<Rightarrow> vm_block_flush_loop fl cancelled 0 b))"

subsection \<open>Reading a source exactly\<close>

text \<open>
  The source loop has no bound on retries: it waits for as long as the source asks it to, so not
  returning is the value \<open>None\<close>.
\<close>

partial_function (option) vm_source_read_loop ::
  "'b read_at \<Rightarrow> 'b cancel \<Rightarrow> u64 \<Rightarrow> nat \<Rightarrow> u8 list \<Rightarrow> nat \<Rightarrow> 'b \<Rightarrow>
   (vm_source_status \<times> nat \<times> u8 list \<times> 'b) option" where
  "vm_source_read_loop rd cancelled offset len bytes completed b =
     (if \<not> completed < len then Some (SOURCE_OK, completed, bytes, b)
      else
        let (stop, b) = poll cancelled b
        in if stop then Some (SOURCE_CANCELLED, completed, bytes, b)
           else
             let remaining = len - completed;
                 (st, actual, data, b) = rd b (offset + of_nat completed) remaining;
                 bytes = splice completed data bytes
             in if actual > remaining then Some (SOURCE_PROTOCOL, completed, bytes, b)
                else if st = VM_IO_OK then
                  (if actual = 0 then Some (SOURCE_EOF, completed, bytes, b)
                   else vm_source_read_loop rd cancelled offset len bytes (completed + actual) b)
                else if st = VM_IO_OTHER \<or> actual \<noteq> 0 then Some (SOURCE_PROTOCOL, completed, bytes, b)
                else if st = VM_IO_ERROR then Some (SOURCE_IO, completed, bytes, b)
                else vm_source_read_loop rd cancelled offset len bytes completed b)"

definition vm_source_read_exact ::
  "'b vm_source option \<Rightarrow> u64 \<Rightarrow> u8 list option \<Rightarrow> nat \<Rightarrow> 'b cancel \<Rightarrow> 'b \<Rightarrow>
   (vm_source_status \<times> nat \<times> u8 list option \<times> 'b) option" where
  "vm_source_read_exact source offset destination len cancelled b =
     (case source of
        None \<Rightarrow> Some (SOURCE_INVALID_ARGUMENT, 0, destination, b)
      | Some s \<Rightarrow>
          let range_status = vm_source_check_range source offset (of_nat len) in
          if range_status \<noteq> SOURCE_OK then Some (range_status, 0, destination, b)
          else if len = 0 then Some (SOURCE_OK, 0, destination, b)
          else
            case (destination, src_read_at s) of
              (Some bytes, Some rd) \<Rightarrow>
                map_option (\<lambda>(st, n, bytes, b). (st, n, Some bytes, b))
                  (vm_source_read_loop rd cancelled offset len bytes 0 b)
            | _ \<Rightarrow> Some (SOURCE_INVALID_ARGUMENT, 0, destination, b))"

subsection \<open>What a backend promises\<close>

text \<open>
  The callback contract of \<open>vm_block.h\<close> over an abstraction \<open>content\<close> of the host state, the bytes of
  the medium: inside the medium, a read delivers a prefix of what was asked and leaves the medium
  alone, a write stores a prefix, and RETRY and ERROR come with no progress and no effect.
\<close>

definition reader_contract :: "('b \<Rightarrow> u8 list) \<Rightarrow> 'b read_at \<Rightarrow> bool" where
  "reader_contract content rd \<longleftrightarrow>
     (\<forall>b off n. unat off + n \<le> length (content b) \<longrightarrow>
        (case rd b off n of (st, k, data, b') \<Rightarrow>
           st \<noteq> VM_IO_OTHER \<and> k \<le> length data \<and> length data \<le> n \<and>
           take k data = take k (drop (unat off) (content b)) \<and>
           (st \<noteq> VM_IO_OK \<longrightarrow> k = 0 \<and> data = []) \<and> content b' = content b))"

definition writer_contract :: "('b \<Rightarrow> u8 list) \<Rightarrow> 'b write_at \<Rightarrow> bool" where
  "writer_contract content wr \<longleftrightarrow>
     (\<forall>b off src. unat off + length src \<le> length (content b) \<longrightarrow>
        (case wr b off src of (st, k, b') \<Rightarrow>
           st \<noteq> VM_IO_OTHER \<and> k \<le> length src \<and> (st \<noteq> VM_IO_OK \<longrightarrow> k = 0) \<and>
           content b' = splice (unat off) (take k src) (content b)))"

lemma readerD:
  assumes "reader_contract content rd" "rd b off n = (st, k, data, b')" "unat off + n \<le> length (content b)"
  shows "st \<noteq> VM_IO_OTHER" "k \<le> length data" "length data \<le> n"
    "take k data = take k (drop (unat off) (content b))"
    "st \<noteq> VM_IO_OK \<Longrightarrow> k = 0 \<and> data = []" "content b' = content b"
  using assms unfolding reader_contract_def by (fastforce dest: spec [of _ b])+

lemma writerD:
  assumes "writer_contract content wr" "wr b off src = (st, k, b')" "unat off + length src \<le> length (content b)"
  shows "st \<noteq> VM_IO_OTHER" "k \<le> length src" "st \<noteq> VM_IO_OK \<Longrightarrow> k = 0"
    "content b' = splice (unat off) (take k src) (content b)"
  using assms unfolding writer_contract_def by (fastforce dest: spec [of _ b])+

definition cancel_contract :: "('b \<Rightarrow> u8 list) \<Rightarrow> 'b cancel \<Rightarrow> bool" where
  "cancel_contract content cancelled \<longleftrightarrow> (\<forall>b. content (snd (poll cancelled b)) = content b)"

lemma unat_offset:
  assumes "unat (offset :: u64) + k < 2 ^ 64"
  shows "unat (offset + of_nat k) = unat offset + k"
proof -
  have "k < 2 ^ 64" using assms by linarith
  then have "unat (of_nat k :: u64) = k" by (simp add: unat_of_nat)
  then show ?thesis using assms by (simp add: unat_word_ariths(1))
qed

lemma check_range_ok:
  assumes "len < 2 ^ 64"
  shows "vm_block_check_range (Some k) offset (of_nat len) = BLOCK_OK \<longleftrightarrow>
    unat offset + len \<le> unat (blk_size k)"
proof -
  have l: "unat (of_nat len :: u64) = len" using assms by (simp add: unat_of_nat)
  have m: "unat ((- 1) - offset) = 2 ^ 64 - 1 - unat offset"
    using unsigned_less [where 'a=nat, of offset]
    by (simp add: unat_sub unsigned_minus_1_eq_mask mask_eq_exp_minus_1)
  have s: "\<not> offset > blk_size k \<Longrightarrow> unat (blk_size k - offset) = unat (blk_size k) - unat offset"
    by (simp add: unat_sub not_less)
  show ?thesis
    using unsigned_less [where 'a=nat, of "blk_size k"] s
    by (auto simp: vm_block_check_range_def word_less_nat_alt l m)
qed

lemma take_splice_ext:
  assumes "completed + length data \<le> length bytes" "k \<le> length data"
    and "take completed bytes = take completed xs" "take k data = take k (drop completed xs)"
    and "completed + k \<le> length xs"
  shows "take (completed + k) (splice completed data bytes) = take (completed + k) xs"
proof -
  have "take (completed + k) (splice completed data bytes) = take completed bytes @ take k data"
    using assms(1,2) by (simp add: splice_def)
  also have "\<dots> = take (completed + k) xs" using assms(3,4,5) by (simp add: take_add)
  finally show ?thesis .
qed

lemma read_loop_correct:
  assumes "reader_contract content rd" "cancel_contract content cancelled"
    and "unat offset + len \<le> length (content b)" "length (content b) < 2 ^ 64"
    and "len \<le> length bytes" "completed \<le> len"
    and "take completed bytes = take completed (drop (unat offset) (content b))"
    and "vm_block_read_loop rd cancelled offset len bytes completed np b = (st, n, bytes', b')"
  shows "content b' = content b \<and> n \<le> len \<and> length bytes' = length bytes \<and>
    take n bytes' = take n (drop (unat offset) (content b)) \<and> drop len bytes' = drop len bytes \<and>
    st \<in> {BLOCK_OK, BLOCK_CANCELLED, BLOCK_BACKEND, BLOCK_STALLED} \<and> (st = BLOCK_OK \<longrightarrow> n = len)"
  using assms
proof (induction rd cancelled offset len bytes completed np b rule: vm_block_read_loop.induct)
  case (1 rd cancelled offset len bytes completed np b)
  show ?case
  proof (cases "completed < len")
    case False
    then show ?thesis using "1.prems" by (simp add: vm_block_read_loop.simps)
  next
    case True
    let ?req = "min (len - completed) VM_BLOCK_MAX_CALLBACK_BYTES"
    obtain stop b1 where p: "poll cancelled b = (stop, b1)" by force
    have c1: "content b1 = content b" using "1.prems"(2) p unfolding cancel_contract_def by (metis snd_conv)
    obtain io k data b2 where r: "rd b1 (offset + of_nat completed) ?req = (io, k, data, b2)"
      by (cases "rd b1 (offset + of_nat completed) ?req") auto
    have o: "unat (offset + of_nat completed) = unat offset + completed"
      by (rule unat_offset) (use "1.prems"(3,4,6) True in linarith)
    have "unat (offset + of_nat completed) + ?req \<le> length (content b1)"
      unfolding o c1 using "1.prems"(3) True by linarith
    note k = readerD [OF "1.prems"(1) r this, unfolded c1 o]
    have fit: "completed + length data \<le> length bytes" using k(3) "1.prems"(5) True by linarith
    let ?bytes = "splice completed data bytes"
    have t: "take (completed + j) ?bytes = take (completed + j) (drop (unat offset) (content b))"
      if "j \<le> k" for j
    proof (rule take_splice_ext [OF fit _ "1.prems"(7)])
      show "j \<le> length data" using that k(2) by simp
      show "take j data = take j (drop completed (drop (unat offset) (content b)))"
        using arg_cong [OF k(4), of "take j"] that by (simp add: min_def add.commute)
      show "completed + j \<le> length (drop (unat offset) (content b))"
        using "1.prems"(3) that k(2,3) True unfolding length_drop by linarith
    qed
    have dl: "drop len ?bytes = drop len bytes"
      using k(3) True fit by (intro nth_equalityI) (auto simp: nth_splice)
    have ln: "length ?bytes = length bytes" using fit by simp
    note IH1 = "1.IH"(1) [OF _ refl refl p [symmetric] _ refl r [symmetric] refl refl refl]
    note IH2 = "1.IH"(2) [OF _ refl refl p [symmetric] _ refl r [symmetric] refl refl refl]
    have t0: "take completed ?bytes = take completed (drop (unat offset) (content b))"
      using t [of 0] by simp
    have e: "vm_block_read_loop rd cancelled offset len bytes completed np b = 
      (if stop then (BLOCK_CANCELLED, completed, bytes, b1)
       else if io = VM_IO_ERROR then (BLOCK_BACKEND, completed, ?bytes, b2)
       else if io = VM_IO_OK \<and> k \<noteq> 0 then vm_block_read_loop rd cancelled offset len ?bytes (completed + k) 0 b2
       else if np + 1 \<ge> VM_BLOCK_NO_PROGRESS_LIMIT then (BLOCK_STALLED, completed, ?bytes, b2)
       else vm_block_read_loop rd cancelled offset len ?bytes completed (np + 1) b2)"
      using True k(1,2,3,5) by (subst vm_block_read_loop.simps) (auto simp: p r Let_def)
    have kl: "completed + k \<le> len" using k(2,3) True by linarith
    consider (leaf) "stop \<or> io = VM_IO_ERROR \<or> \<not> (io = VM_IO_OK \<and> k \<noteq> 0) \<and> np + 1 \<ge> VM_BLOCK_NO_PROGRESS_LIMIT"
      | (step) "\<not> stop" "io = VM_IO_OK" "k \<noteq> 0"
      | (stall) "\<not> stop" "io \<noteq> VM_IO_ERROR" "\<not> (io = VM_IO_OK \<and> k \<noteq> 0)" "\<not> np + 1 \<ge> VM_BLOCK_NO_PROGRESS_LIMIT"
      by blast
    then show ?thesis
    proof cases
      case leaf
      then show ?thesis
        using "1.prems"(6,7,8) t0 dl ln c1 k(6) unfolding e by (auto split: if_splits)
    next
      case step
      have "vm_block_read_loop rd cancelled offset len ?bytes (completed + k) 0 b2 = (st, n, bytes', b')"
        using "1.prems"(8) step unfolding e by simp
      from IH1 [OF _ _ _ _ _ _ _ "1.prems"(1,2) _ _ _ kl _ this] show ?thesis
        using step "1.prems"(3-5) t [of k] True k(2,3) ln dl unfolding k(6) by simp
    next
      case stall
      have "vm_block_read_loop rd cancelled offset len ?bytes completed (np + 1) b2 = (st, n, bytes', b')"
        using "1.prems"(8) stall unfolding e by (auto split: if_splits)
      from IH2 [OF _ _ _ _ _ _ _ _ "1.prems"(1,2) _ _ _ "1.prems"(6) _ this] show ?thesis
        using stall "1.prems"(3-5) t0 True k(1,2,3,5) ln dl unfolding k(6) by simp
    qed
  qed
qed

lemma write_loop_correct:
  assumes "writer_contract content wr" "cancel_contract content cancelled"
    and "unat offset + len \<le> length m" "length m < 2 ^ 64"
    and "len \<le> length bytes" "completed \<le> len"
    and "content b = splice (unat offset) (take completed bytes) m"
    and "vm_block_write_loop wr cancelled offset bytes len completed np b = (st, n, b')"
  shows "content b' = splice (unat offset) (take n bytes) m \<and> n \<le> len \<and>
    st \<in> {BLOCK_OK, BLOCK_CANCELLED, BLOCK_BACKEND, BLOCK_STALLED} \<and> (st = BLOCK_OK \<longrightarrow> n = len)"
  using assms
proof (induction wr cancelled offset bytes len completed np b rule: vm_block_write_loop.induct)
  case (1 wr cancelled offset bytes len completed np b)
  show ?case
  proof (cases "completed < len")
    case False
    then show ?thesis using "1.prems" by (simp add: vm_block_write_loop.simps)
  next
    case True
    let ?req = "min (len - completed) VM_BLOCK_MAX_CALLBACK_BYTES"
    let ?src = "take ?req (drop completed bytes)"
    obtain stop b1 where p: "poll cancelled b = (stop, b1)" by force
    have c1: "content b1 = content b" using "1.prems"(2) p unfolding cancel_contract_def by (metis snd_conv)
    obtain io k b2 where r: "wr b1 (offset + of_nat completed) ?src = (io, k, b2)"
      by (cases "wr b1 (offset + of_nat completed) ?src") auto
    have o: "unat (offset + of_nat completed) = unat offset + completed"
      by (rule unat_offset) (use "1.prems"(3,4,6) True in linarith)
    have ls: "length ?src = ?req" using "1.prems"(5) True by simp
    have lt: "length (take completed bytes) = completed" using "1.prems"(5) True by simp
    have lm: "length (content b) = length m"
      unfolding "1.prems"(7) by (rule length_splice) (use "1.prems"(3) True lt in linarith)
    have "unat (offset + of_nat completed) + length ?src \<le> length (content b1)"
      unfolding o c1 ls lm using "1.prems"(3) True by linarith
    note k = writerD [OF "1.prems"(1) r this, unfolded c1 o ls]
    have tk: "take completed bytes @ take k ?src = take (completed + k) bytes"
      using k(2) by (simp add: take_add min_def)
    have fit: "unat offset + length (take completed bytes) + length (take k ?src) \<le> length m"
    proof -
      have "length (take k ?src) = k" using k(2) ls unfolding length_take [of k] by linarith
      then show ?thesis unfolding lt using k(2) "1.prems"(3) True by linarith
    qed
    have c2: "content b2 = splice (unat offset) (take (completed + k) bytes) m"
      unfolding k(4) "1.prems"(7) using splice_append [OF fit] unfolding lt tk by simp
    note IH1 = "1.IH"(1) [OF _ refl refl p [symmetric] _ refl r [symmetric] refl]
    note IH2 = "1.IH"(2) [OF _ refl refl p [symmetric] _ refl r [symmetric] refl]
    have e: "vm_block_write_loop wr cancelled offset bytes len completed np b =
      (if stop then (BLOCK_CANCELLED, completed, b1)
       else if io = VM_IO_ERROR then (BLOCK_BACKEND, completed, b2)
       else if io = VM_IO_OK \<and> k \<noteq> 0 then vm_block_write_loop wr cancelled offset bytes len (completed + k) 0 b2
       else if np + 1 \<ge> VM_BLOCK_NO_PROGRESS_LIMIT then (BLOCK_STALLED, completed, b2)
       else vm_block_write_loop wr cancelled offset bytes len completed (np + 1) b2)"
      using True k(1,2,3) by (subst vm_block_write_loop.simps) (auto simp: p r Let_def)
    have kl: "completed + k \<le> len" using k(2) True by linarith
    consider (leaf) "stop \<or> io = VM_IO_ERROR \<or> \<not> (io = VM_IO_OK \<and> k \<noteq> 0) \<and> np + 1 \<ge> VM_BLOCK_NO_PROGRESS_LIMIT"
      | (step) "\<not> stop" "io = VM_IO_OK" "k \<noteq> 0"
      | (stall) "\<not> stop" "io \<noteq> VM_IO_ERROR" "\<not> (io = VM_IO_OK \<and> k \<noteq> 0)" "\<not> np + 1 \<ge> VM_BLOCK_NO_PROGRESS_LIMIT"
      by blast
    then show ?thesis
    proof cases
      case leaf
      have "n = completed" "st \<in> {BLOCK_CANCELLED, BLOCK_BACKEND, BLOCK_STALLED}" "content b' = content b1 \<or> content b' = content b2 \<and> k = 0"
        using leaf k(3) "1.prems"(8) unfolding e by (auto split: if_splits)
      then show ?thesis using "1.prems"(6,7) c1 c2 by auto
    next
      case step
      have "vm_block_write_loop wr cancelled offset bytes len (completed + k) 0 b2 = (st, n, b')"
        using "1.prems"(8) step unfolding e by simp
      from IH1 [OF _ _ _ _ _ _ _ "1.prems"(1,2,3,4,5) kl c2 this] show ?thesis
        using step True k(2) by simp
    next
      case stall
      have "vm_block_write_loop wr cancelled offset bytes len completed (np + 1) b2 = (st, n, b')"
        using "1.prems"(8) stall unfolding e by (auto split: if_splits)
      moreover have "content b2 = splice (unat offset) (take completed bytes) m"
        using c2 k(3) stall by auto
      ultimately show ?thesis
        using IH2 [OF _ _ _ _ _ _ _ _ "1.prems"(1,2,3,4,5,6)] stall True k(1,2,3) by simp
    qed
  qed
qed

text \<open>
  C14. Exact block I/O against any backend that keeps the callback contract of \<open>vm_block.h\<close>. Whatever
  way the transfer ends, the reported count is honest: a read has put exactly that prefix of the
  medium into the buffer and touched nothing past the requested length, a write has stored exactly
  that prefix of the source and nothing else. OK means all of it, a range outside the medium does
  nothing, and a contract-keeping backend is never accused of a protocol violation.
\<close>

theorem block_io_exact:
  assumes "reader_contract content rd" "writer_contract content wr" "cancel_contract content cancelled"
    and "blk_read_at k = Some rd" "blk_write_at k = Some wr" "length (content b) = unat (blk_size k)"
    and "len \<le> length bytes" "len < 2 ^ 64"
  shows "(case vm_block_read_exact (Some k) offset (Some bytes) len cancelled b of
        (st, n, dst, b') \<Rightarrow>
          content b' = content b \<and> n \<le> len \<and>
          (\<exists>got. dst = Some got \<and> take n got = take n (drop (unat offset) (content b)) \<and>
             drop len got = drop len bytes \<and> length got = length bytes) \<and>
          st \<noteq> BLOCK_PROTOCOL \<and> (st = BLOCK_OK \<longrightarrow> n = len \<and> unat offset + len \<le> length (content b)) \<and>
          (unat offset + len > length (content b) \<longrightarrow> st \<in> {BLOCK_OVERFLOW, BLOCK_BOUNDS} \<and> n = 0 \<and> b' = b)) \<and>
    (case vm_block_write_exact (Some k) offset (Some bytes) len cancelled b of
        (st, n, b') \<Rightarrow>
          content b' = splice (unat offset) (take n bytes) (content b) \<and> n \<le> len \<and>
          st \<noteq> BLOCK_PROTOCOL \<and> (st = BLOCK_OK \<longrightarrow> n = len \<and> unat offset + len \<le> length (content b)) \<and>
          (unat offset + len > length (content b) \<longrightarrow> st \<in> {BLOCK_OVERFLOW, BLOCK_BOUNDS} \<and> n = 0 \<and> b' = b))"
proof -
  have range: "vm_block_check_range (Some k) offset (of_nat len) = BLOCK_OK \<longleftrightarrow> unat offset + len \<le> length (content b)"
    using check_range_ok [OF assms(8), of k offset] assms(6) by simp
  have bad: "vm_block_check_range (Some k) offset (of_nat len) \<in> {BLOCK_OK, BLOCK_OVERFLOW, BLOCK_BOUNDS}"
    by (simp add: vm_block_check_range_def)
  have small: "length (content b) < 2 ^ 64" unfolding assms(6) using unsigned_less [where 'a=nat, of "blk_size k"] by simp
  show ?thesis
  proof (cases "unat offset + len \<le> length (content b) \<and> len \<noteq> 0")
    case False
    then show ?thesis
      using range bad by (auto simp: vm_block_read_exact_def vm_block_write_exact_def Let_def)
  next
    case True
    obtain st n got b' where r: "vm_block_read_loop rd cancelled offset len bytes 0 0 b = (st, n, got, b')"
      by (cases "vm_block_read_loop rd cancelled offset len bytes 0 0 b") auto
    obtain st2 n2 b2 where w: "vm_block_write_loop wr cancelled offset bytes len 0 0 b = (st2, n2, b2)"
      by (cases "vm_block_write_loop wr cancelled offset bytes len 0 0 b") auto
    have rr: "content b' = content b \<and> n \<le> len \<and> length got = length bytes \<and>
        take n got = take n (drop (unat offset) (content b)) \<and> drop len got = drop len bytes \<and>
        st \<in> {BLOCK_OK, BLOCK_CANCELLED, BLOCK_BACKEND, BLOCK_STALLED} \<and> (st = BLOCK_OK \<longrightarrow> n = len)"
      by (rule read_loop_correct [OF assms(1,3) _ small assms(7) _ _ r]) (use True in auto)
    have ww: "content b2 = splice (unat offset) (take n2 bytes) (content b) \<and> n2 \<le> len \<and>
        st2 \<in> {BLOCK_OK, BLOCK_CANCELLED, BLOCK_BACKEND, BLOCK_STALLED} \<and> (st2 = BLOCK_OK \<longrightarrow> n2 = len)"
      by (rule write_loop_correct [OF assms(2,3) _ small assms(7) _ _ w]) (use True in auto)
    show ?thesis
      using True range assms(4,5) rr ww
      by (auto simp: vm_block_read_exact_def vm_block_write_exact_def Let_def r w)
  qed
qed

text \<open>A medium held in a list of bytes, whose callbacks transfer at most two bytes at a time.\<close>

definition list_read :: "u8 list read_at" where
  "list_read b off n = (VM_IO_OK, length (take (min n 2) (drop (unat off) b)), take (min n 2) (drop (unat off) b), b)"

definition list_write :: "u8 list write_at" where
  "list_write b off src = (VM_IO_OK, min (length src) 2, splice (unat off) (take 2 src) b)"

definition list_block :: "u64 \<Rightarrow> u8 list vm_block" where
  "list_block n = \<lparr>blk_size = n, blk_identity = 0, blk_generation = 0,
     blk_read_at = Some list_read, blk_write_at = Some list_write, blk_flush = None\<rparr>"

lemma list_contracts: "reader_contract id list_read" "writer_contract id list_write" "cancel_contract id None"
  by (auto simp: reader_contract_def writer_contract_def cancel_contract_def list_read_def list_write_def
      poll_def min_def take_Cons' dest!: le_SucI)

theorem block_io_exact_witness:
  "vm_block_write_exact (Some (list_block 5)) 1 (Some [7, 8, 9]) 3 None [0, 0, 0, 0, 0] = (BLOCK_OK, 3, [0, 7, 8, 9, 0])"
proof -
  obtain st n b' where w: "vm_block_write_exact (Some (list_block 5)) 1 (Some [7, 8, 9]) 3 None [0, 0, 0, 0, 0] = (st, n, b')"
    by (cases "vm_block_write_exact (Some (list_block 5)) 1 (Some [7, 8, 9]) 3 None [0, 0, 0, 0, 0]") auto
  have k: "blk_read_at (list_block 5) = Some list_read" "blk_write_at (list_block 5) = Some list_write"
      "length (id [0, 0, 0, 0, 0 :: u8]) = unat (blk_size (list_block 5))" by (simp_all add: list_block_def)
  have "st = BLOCK_OK"
    using w by (simp add: vm_block_write_exact_def vm_block_check_range_def list_block_def list_write_def
        vm_block_write_loop.simps poll_def Let_def word_less_nat_alt)
  moreover have "id b' = splice (unat (1 :: u64)) (take n [7, 8, 9]) (id [0, 0, 0, 0, 0]) \<and> (st = BLOCK_OK \<longrightarrow> n = 3)"
    using block_io_exact [OF list_contracts k, of 3 "[7, 8, 9]" 1] w by simp
  ultimately show ?thesis using w by (simp add: splice_def)
qed

definition inside :: "u64 \<Rightarrow> nat \<Rightarrow> u64 \<Rightarrow> nat \<Rightarrow> bool" where
  "inside offset len at n \<longleftrightarrow> 0 < n \<and> n \<le> VM_BLOCK_MAX_CALLBACK_BYTES \<and>
     unat offset \<le> unat at \<and> unat at + n \<le> unat offset + len"

lemma inside_next:
  assumes "unat offset + len < 2 ^ 64" "completed < len"
  shows "inside offset len (offset + of_nat completed) (min (len - completed) VM_BLOCK_MAX_CALLBACK_BYTES)"
proof -
  have o: "unat (offset + of_nat completed) = unat offset + completed"
    by (rule unat_offset) (use assms in linarith)
  show ?thesis unfolding inside_def o using assms(2) by linarith
qed

lemma read_loop_inside:
  assumes "\<And>b at n. inside offset len at n \<Longrightarrow> rd b at n = rd' b at n"
    and "unat offset + len < 2 ^ 64" "completed \<le> len"
  shows "vm_block_read_loop rd cancelled offset len bytes completed np b =
    vm_block_read_loop rd' cancelled offset len bytes completed np b"
  using assms
proof (induction rd cancelled offset len bytes completed np b rule: vm_block_read_loop.induct)
  case (1 rd cancelled offset len bytes completed np b)
  show ?case
  proof (cases "completed < len")
    case False
    then show ?thesis by (simp add: vm_block_read_loop.simps)
  next
    case True
    let ?req = "min (len - completed) VM_BLOCK_MAX_CALLBACK_BYTES"
    obtain stop b1 where p: "poll cancelled b = (stop, b1)" by force
    obtain io k data b2 where r: "rd b1 (offset + of_nat completed) ?req = (io, k, data, b2)"
      by (cases "rd b1 (offset + of_nat completed) ?req") auto
    have r': "rd' b1 (offset + of_nat completed) ?req = (io, k, data, b2)"
      using "1.prems"(1) [OF inside_next [OF "1.prems"(2) True]] r by simp
    note IH1 = "1.IH"(1) [OF _ refl refl p [symmetric] _ refl r [symmetric] refl refl refl _ _ _ _ _ "1.prems"(1,2)]
    note IH2 = "1.IH"(2) [OF _ refl refl p [symmetric] _ refl r [symmetric] refl refl refl _ _ _ _ _ _ "1.prems"(1,2)]
    have "completed + k \<le> len" if "\<not> k > ?req" using that True by linarith
    then show ?thesis
      using IH1 IH2 True "1.prems"(3)
      by (subst (1 2) vm_block_read_loop.simps) (simp add: p r r' Let_def)
  qed
qed

lemma write_loop_inside:
  assumes "\<And>b at src. inside offset len at (length src) \<Longrightarrow> wr b at src = wr' b at src"
    and "unat offset + len < 2 ^ 64" "completed \<le> len" "len \<le> length bytes"
  shows "vm_block_write_loop wr cancelled offset bytes len completed np b =
    vm_block_write_loop wr' cancelled offset bytes len completed np b"
  using assms
proof (induction wr cancelled offset bytes len completed np b rule: vm_block_write_loop.induct)
  case (1 wr cancelled offset bytes len completed np b)
  show ?case
  proof (cases "completed < len")
    case False
    then show ?thesis by (simp add: vm_block_write_loop.simps)
  next
    case True
    let ?req = "min (len - completed) VM_BLOCK_MAX_CALLBACK_BYTES"
    let ?src = "take ?req (drop completed bytes)"
    have ls: "length ?src = ?req" using "1.prems"(4) True by simp
    obtain stop b1 where p: "poll cancelled b = (stop, b1)" by force
    obtain io k b2 where r: "wr b1 (offset + of_nat completed) ?src = (io, k, b2)"
      by (cases "wr b1 (offset + of_nat completed) ?src") auto
    have r': "wr' b1 (offset + of_nat completed) ?src = (io, k, b2)"
      using "1.prems"(1) [of "offset + of_nat completed" ?src b1] inside_next [OF "1.prems"(2) True] r
      unfolding ls by simp
    note IH1 = "1.IH"(1) [OF _ refl refl p [symmetric] _ refl r [symmetric] refl _ _ _ _ _ "1.prems"(1,2)]
    note IH2 = "1.IH"(2) [OF _ refl refl p [symmetric] _ refl r [symmetric] refl _ _ _ _ _ _ "1.prems"(1,2)]
    have "completed + k \<le> len" if "\<not> k > ?req" using that True by linarith
    then show ?thesis
      using IH1 IH2 True "1.prems"(3,4)
      by (subst (1 2) vm_block_write_loop.simps) (simp add: p r r' Let_def)
  qed
qed

lemma check_range_no_wrap:
  assumes "vm_block_check_range (Some k) offset (of_nat len) = BLOCK_OK" "len < 2 ^ 64"
  shows "unat offset + len < 2 ^ 64"
  using assms(1) check_range_ok [OF assms(2), of k offset] unsigned_less [where 'a=nat, of "blk_size k"] by simp

text \<open>
  C15. Every callback stays inside the transfer: exact reads and writes only ever ask the host for
  between one byte and 1 MiB lying inside the requested range, whatever the host answers, so two
  hosts that agree on such requests cannot be told apart.
\<close>

theorem block_callbacks_inside:
  assumes "\<And>b at n. inside offset len at n \<Longrightarrow> rd b at n = rd' b at n"
    and "\<And>b at src. inside offset len at (length src) \<Longrightarrow> wr b at src = wr' b at src"
    and "len < 2 ^ 64" "len \<le> length bytes"
  shows "vm_block_read_exact (Some (k\<lparr>blk_read_at := Some rd\<rparr>)) offset (Some bytes) len cancelled b =
      vm_block_read_exact (Some (k\<lparr>blk_read_at := Some rd'\<rparr>)) offset (Some bytes) len cancelled b \<and>
    vm_block_write_exact (Some (k\<lparr>blk_write_at := Some wr\<rparr>)) offset (Some bytes) len cancelled b =
      vm_block_write_exact (Some (k\<lparr>blk_write_at := Some wr'\<rparr>)) offset (Some bytes) len cancelled b"
proof (cases "vm_block_check_range (Some k) offset (of_nat len) = BLOCK_OK")
  case True
  note n = check_range_no_wrap [OF True assms(3)]
  show ?thesis
    using read_loop_inside [of offset len rd rd' 0, OF assms(1) n] write_loop_inside [of offset len wr wr' 0, OF assms(2) n _ assms(4)]
    by (simp add: vm_block_read_exact_def vm_block_write_exact_def vm_block_check_range_def Let_def)
next
  case False
  have "vm_block_check_range (Some (k\<lparr>blk_read_at := x\<rparr>)) offset l = vm_block_check_range (Some k) offset l"
      "vm_block_check_range (Some (k\<lparr>blk_write_at := y\<rparr>)) offset l = vm_block_check_range (Some k) offset l" for x y l
    by (simp_all add: vm_block_check_range_def)
  then show ?thesis using False by (simp add: vm_block_read_exact_def vm_block_write_exact_def)
qed

theorem block_callbacks_inside_witness:
  "vm_block_read_exact (Some (list_block 5)) 1 (Some [0, 0]) 2 None [1, 2, 3, 4, 5] =
   vm_block_read_exact (Some ((list_block 5)\<lparr>blk_read_at := Some (\<lambda>b at n.
      if inside 1 2 at n then list_read b at n else (VM_IO_ERROR, 0, [], b))\<rparr>)) 1 (Some [0, 0]) 2 None [1, 2, 3, 4, 5]"
proof -
  have k: "(list_block 5)\<lparr>blk_read_at := Some list_read\<rparr> = list_block 5" by (simp add: list_block_def)
  show ?thesis
    using block_callbacks_inside [of 1 2 list_read "\<lambda>b at n. if inside 1 2 at n then list_read b at n else (VM_IO_ERROR, 0, [], b)"
        list_write list_write "[0, 0]" "list_block 5" None "[1, 2, 3, 4, 5]"] by (simp add: k)
qed

end
