(* ===== verification/SnapshotCow.thy ===== *)
theory SnapshotCow
  imports VmBlock
begin

text \<open>
  The copy-on-write overlay of \<open>app/Sources/VMSnapshotCow.c\<close>: a wrapping block device that saves the
  previous contents of a block into an overlay file before the block is first overwritten, and the
  replay that puts the saved blocks back. A stdio stream is a record of its bytes, its position and
  what the host still grants: \<open>f_room\<close> bytes can be written before the medium is full, and
  \<open>f_flush_ok\<close> says whether a flush succeeds. The progress callback and the detail text are not
  modelled.
\<close>

subsection \<open>Files\<close>

record ofile =
  f_bytes :: "u8 list"
  f_pos :: nat
  f_room :: nat
  f_flush_ok :: bool

text \<open>\<open>fwrite\<close> of bytes and \<open>fread\<close> of a count, both at the position, which they move.\<close>

definition f_write :: "ofile \<Rightarrow> u8 list \<Rightarrow> nat \<times> ofile" where
  "f_write f bs =
     (let n = min (length bs) (f_room f); k = f_pos f in
      (n, f\<lparr>f_bytes := take k (f_bytes f) @ take n bs @ drop (k + n) (f_bytes f),
            f_pos := k + n, f_room := f_room f - n\<rparr>))"

definition f_read :: "ofile \<Rightarrow> nat \<Rightarrow> u8 list \<times> ofile" where
  "f_read f n =
     (let bs = take n (drop (f_pos f) (f_bytes f)) in (bs, f\<lparr>f_pos := f_pos f + length bs\<rparr>))"

definition f_seek :: "ofile \<Rightarrow> nat \<Rightarrow> ofile" where
  "f_seek f k = f\<lparr>f_pos := k\<rparr>"

definition f_end :: "ofile \<Rightarrow> nat" where
  "f_end f = length (f_bytes f)"

subsection \<open>State\<close>

datatype vm_cow_status = COW_OK | COW_BAD_ARGUMENT | COW_IO | COW_BAD_FORMAT
  | COW_SIZE_MISMATCH | COW_TRUNCATED | COW_OUT_OF_MEMORY

record 'b vm_cow =
  under_read_at :: "'b read_at"
  under_write_at :: "'b write_at"
  under_flush :: "('b \<Rightarrow> vm_io_status \<times> 'b) option"
  overlay :: ofile
  overlay_bytes :: u64
  image_size :: u64
  block_count :: u64
  saved :: "u8 list"
  scratch :: "u8 list"
  poisoned :: bool

abbreviation (input) "VM_COW_BLOCK_BYTES \<equiv> (4096 :: nat)"
abbreviation (input) "VM_COW_HEADER_BYTES \<equiv> (32 :: nat)"
abbreviation (input) "VM_COW_INDEX_BYTES \<equiv> (8 :: nat)"
abbreviation (input) "VM_COW_RECORD_BYTES \<equiv> (4104 :: nat)"

definition cow_magic :: "u8 list" where
  "cow_magic = [0x53, 0x35, 0x4c, 0x42, 0x6f, 0x78, 0x43, 0x4f, 0x57]"

definition put_le32 :: "u32 \<Rightarrow> u8 list" where "put_le32 v = le_put 4 v"
definition put_le64 :: "u64 \<Rightarrow> u8 list" where "put_le64 v = le_put 8 v"
definition get_le32 :: "u8 list \<Rightarrow> u32" where "get_le32 p = le_get (take 4 p)"
definition get_le64 :: "u8 list \<Rightarrow> u64" where "get_le64 p = le_get (take 8 p)"

subsection \<open>Exact I/O on the device below\<close>

text \<open>These loops accept any count the device reports; the sum is an object's size and does not wrap.\<close>

function cow_read_exact ::
  "'b read_at \<Rightarrow> u64 \<Rightarrow> nat \<Rightarrow> u8 list \<Rightarrow> nat \<Rightarrow> nat \<Rightarrow> 'b \<Rightarrow> bool \<times> u8 list \<times> 'b" where
  "cow_read_exact rd offset want dst got stalls b =
     (if \<not> got < want then (True, dst, b)
      else
        let (st, actual, data, b) = rd b (offset + of_nat got) (want - got);
            dst = splice got data dst
        in if st = VM_IO_ERROR then (False, dst, b)
           else if actual = 0 then
             (if stalls + 1 > 64 then (False, dst, b)
              else cow_read_exact rd offset want dst got (stalls + 1) b)
           else cow_read_exact rd offset want dst (got + actual) 0 b)"
  by pat_completeness auto
termination
  by (relation "measures [\<lambda>(rd, offset, want, dst, got, stalls, b). want - got,
      \<lambda>(rd, offset, want, dst, got, stalls, b). 65 - stalls]") auto

declare cow_read_exact.simps [simp del]

function cow_write_exact ::
  "'b write_at \<Rightarrow> u64 \<Rightarrow> u8 list \<Rightarrow> nat \<Rightarrow> nat \<Rightarrow> 'b \<Rightarrow> bool \<times> nat \<times> 'b" where
  "cow_write_exact wr offset src put stalls b =
     (if \<not> put < length src then (True, put, b)
      else
        let (st, actual, b) = wr b (offset + of_nat put) (drop put src)
        in if st = VM_IO_ERROR then (False, put, b)
           else if actual = 0 then
             (if stalls + 1 > 64 then (False, put, b)
              else cow_write_exact wr offset src put (stalls + 1) b)
           else cow_write_exact wr offset src (put + actual) 0 b)"
  by pat_completeness auto
termination
  by (relation "measures [\<lambda>(wr, offset, src, put, stalls, b). length src - put,
      \<lambda>(wr, offset, src, put, stalls, b). 65 - stalls]") auto

declare cow_write_exact.simps [simp del]

subsection \<open>The bitmap of saved blocks\<close>

definition bit_get :: "u8 list \<Rightarrow> nat \<Rightarrow> bool" where
  "bit_get bm i = bit (bm ! (i div 8)) (i mod 8)"

definition bit_set :: "u8 list \<Rightarrow> nat \<Rightarrow> u8 list" where
  "bit_set bm i = bm[i div 8 := (bm ! (i div 8)) OR push_bit (i mod 8) 1]"

text \<open>The records already in an overlay that is reopened, indexed one by one.\<close>

fun index_records :: "'b vm_cow \<Rightarrow> nat \<Rightarrow> nat \<Rightarrow> vm_cow_status \<times> 'b vm_cow" where
  "index_records cow i 0 = (COW_OK, cow)"
| "index_records cow i (Suc n) =
     (let (idx, f) = f_read (f_seek (overlay cow) (VM_COW_HEADER_BYTES + i * VM_COW_RECORD_BYTES)) VM_COW_INDEX_BYTES;
          cow = cow\<lparr>overlay := f\<rparr>
      in if length idx \<noteq> VM_COW_INDEX_BYTES then (COW_IO, cow)
         else
           let block = get_le64 idx
           in if block \<ge> block_count cow then (COW_SIZE_MISMATCH, cow)
              else index_records (cow\<lparr>saved := bit_set (saved cow) (unat block)\<rparr>) (i + 1) n)"

definition index_existing :: "'b vm_cow \<Rightarrow> vm_cow_status \<times> 'b vm_cow" where
  "index_existing cow =
     (let size = f_end (overlay cow); cow = cow\<lparr>overlay := f_seek (overlay cow) size\<rparr>
      in if size < VM_COW_HEADER_BYTES then (COW_OK, cow)
         else
           let body = size - VM_COW_HEADER_BYTES
           in if body mod VM_COW_RECORD_BYTES \<noteq> 0 then (COW_TRUNCATED, cow)
              else
                case index_records cow 0 (body div VM_COW_RECORD_BYTES) of
                  (st, cow) \<Rightarrow>
                    if st \<noteq> COW_OK then (st, cow)
                    else (COW_OK, cow\<lparr>overlay_bytes := of_nat size\<rparr>))"

subsection \<open>The facade\<close>

definition cow_read_at :: "('b vm_cow \<times> 'b) read_at" where
  "cow_read_at cw offset requested =
     (case cw of (cow, b) \<Rightarrow>
        case under_read_at cow b offset requested of (st, actual, data, b) \<Rightarrow> (st, actual, data, cow, b))"

text \<open>Save first, then write: every block of the range that is not in the overlay yet is appended to it.\<close>

fun cow_save_blocks :: "nat list \<Rightarrow> 'b vm_cow \<Rightarrow> 'b \<Rightarrow> bool \<times> 'b vm_cow \<times> 'b" where
  "cow_save_blocks [] cow b = (True, cow, b)"
| "cow_save_blocks (i # is) cow b =
     (if bit_get (saved cow) i then cow_save_blocks is cow b
      else
        case cow_read_exact (under_read_at cow) (of_nat i * 4096) VM_COW_BLOCK_BYTES (scratch cow) 0 0 b of
          (ok, buf, b) \<Rightarrow>
            let cow = cow\<lparr>scratch := buf\<rparr>
            in if \<not> ok then (False, cow\<lparr>poisoned := True\<rparr>, b)
               else
                 case f_write (overlay cow) (put_le64 (of_nat i)) of
                   (n, f) \<Rightarrow>
                     if n \<noteq> VM_COW_INDEX_BYTES then (False, cow\<lparr>overlay := f, poisoned := True\<rparr>, b)
                     else
                       case f_write f buf of
                         (n, f) \<Rightarrow>
                           if n \<noteq> VM_COW_BLOCK_BYTES then (False, cow\<lparr>overlay := f, poisoned := True\<rparr>, b)
                           else
                             cow_save_blocks is
                               (cow\<lparr>overlay := f, saved := bit_set (saved cow) i,
                                    overlay_bytes := overlay_bytes cow + 4104\<rparr>) b)"

definition cow_write_at :: "('b vm_cow \<times> 'b) write_at" where
  "cow_write_at cw offset src =
     (case cw of (cow, b) \<Rightarrow>
        if poisoned cow then (VM_IO_ERROR, 0, cow, b)
        else if length src = 0 then (VM_IO_OK, 0, cow, b)
        else
          let first = offset div 4096;
              last = (offset + of_nat (length src) - 1) div 4096
          in if last \<ge> block_count cow then (VM_IO_ERROR, 0, cow, b)
             else
               case cow_save_blocks [unat first ..< unat last + 1] cow b of
                 (ok, cow, b) \<Rightarrow>
                   if \<not> ok then (VM_IO_ERROR, 0, cow, b)
                   else
                     case cow_write_exact (under_write_at cow) offset src 0 0 b of
                       (ok, put, b) \<Rightarrow> (if ok then VM_IO_OK else VM_IO_ERROR, put, cow, b))"

definition cow_flush :: "'b vm_cow \<times> 'b \<Rightarrow> vm_io_status \<times> 'b vm_cow \<times> 'b" where
  "cow_flush cw =
     (case cw of (cow, b) \<Rightarrow>
        if \<not> f_flush_ok (overlay cow) then (VM_IO_ERROR, cow, b)
        else
          case under_flush cow of
            None \<Rightarrow> (VM_IO_OK, cow, b)
          | Some fl \<Rightarrow> (case fl b of (st, b) \<Rightarrow> (st, cow, b)))"

definition vm_cow_block :: "'b vm_cow \<Rightarrow> ('b vm_cow \<times> 'b) vm_block" where
  "vm_cow_block cow = \<lparr>blk_size = image_size cow, blk_identity = 0, blk_generation = 0,
     blk_read_at = Some cow_read_at, blk_write_at = Some cow_write_at, blk_flush = Some cow_flush\<rparr>"

definition vm_cow_flush :: "'b vm_cow \<times> 'b \<Rightarrow> vm_cow_status \<times> 'b vm_cow \<times> 'b" where
  "vm_cow_flush cw = (case cow_flush cw of (st, cw) \<Rightarrow> (if st = VM_IO_OK then COW_OK else COW_IO, cw))"

subsection \<open>Opening\<close>

definition cow_header :: "u64 \<Rightarrow> u8 list" where
  "cow_header sz = cow_magic @ replicate 3 0 @ put_le32 1 @ put_le32 4096 @ put_le64 sz @ replicate 4 0"

definition header_is_cow :: "u8 list \<Rightarrow> bool" where
  "header_is_cow h \<longleftrightarrow> length h = VM_COW_HEADER_BYTES \<and> take 9 h = cow_magic \<and>
     get_le32 (drop 12 h) = 1 \<and> get_le32 (drop 16 h) = 4096"

text \<open>
  \<open>existing\<close> is the overlay file when there is one; otherwise \<open>created\<close> is the empty file the host
  makes, if it can. \<open>mem_ok\<close> says whether the three allocations succeed.
\<close>

definition vm_cow_open ::
  "'b vm_block option \<Rightarrow> ofile option \<Rightarrow> ofile option \<Rightarrow> bool \<Rightarrow> vm_cow_status \<times> 'b vm_cow option" where
  "vm_cow_open below existing created mem_ok =
     (case below of None \<Rightarrow> (COW_BAD_ARGUMENT, None)
      | Some u \<Rightarrow>
        case (blk_read_at u, blk_write_at u) of
          (Some rd, Some wr) \<Rightarrow>
            if blk_size u = 0 \<or> blk_size u mod 4096 \<noteq> 0 then (COW_BAD_ARGUMENT, None)
            else if \<not> mem_ok then (COW_OUT_OF_MEMORY, None)
            else
              let count = blk_size u div 4096;
                  cow = (\<lambda>f. \<lparr>under_read_at = rd, under_write_at = wr, under_flush = blk_flush u, overlay = f,
                     overlay_bytes = 0, image_size = blk_size u, block_count = count,
                     saved = replicate (unat ((count + 7) div 8)) 0, scratch = replicate VM_COW_BLOCK_BYTES 0,
                     poisoned = False\<rparr>)
              in (case existing of
                    Some f \<Rightarrow>
                      (case f_read (f_seek f 0) VM_COW_HEADER_BYTES of (h, f) \<Rightarrow>
                         if \<not> header_is_cow h then (COW_BAD_FORMAT, None)
                         else if get_le64 (drop 20 h) \<noteq> blk_size u then (COW_SIZE_MISMATCH, None)
                         else
                           case index_existing (cow f) of (st, cow) \<Rightarrow>
                             if st \<noteq> COW_OK then (st, None)
                             else (COW_OK, Some (cow\<lparr>overlay := f_seek (overlay cow) (f_end (overlay cow))\<rparr>)))
                  | None \<Rightarrow>
                      (case created of None \<Rightarrow> (COW_IO, None)
                       | Some f \<Rightarrow>
                           (case f_write (f\<lparr>f_bytes := [], f_pos := 0\<rparr>) (cow_header (blk_size u)) of (n, f) \<Rightarrow>
                              if n \<noteq> VM_COW_HEADER_BYTES then (COW_IO, None)
                              else (COW_OK, Some ((cow (f_seek f (f_end f)))\<lparr>overlay_bytes := 32\<rparr>)))))
        | _ \<Rightarrow> (COW_BAD_ARGUMENT, None))"

subsection \<open>Replay\<close>

fun replay_records :: "nat \<Rightarrow> ofile \<Rightarrow> u64 \<Rightarrow> 'b write_at \<Rightarrow> 'b \<Rightarrow> vm_cow_status \<times> 'b" where
  "replay_records 0 f sz wr b = (COW_OK, b)"
| "replay_records (Suc n) f sz wr b =
     (case f_read f VM_COW_INDEX_BYTES of (idx, f) \<Rightarrow>
        if length idx \<noteq> VM_COW_INDEX_BYTES then (COW_IO, b)
        else
          case f_read f VM_COW_BLOCK_BYTES of (blk, f) \<Rightarrow>
            if length blk \<noteq> VM_COW_BLOCK_BYTES then (COW_IO, b)
            else
              let at = get_le64 idx * 4096
              in if at + 4096 > sz then (COW_SIZE_MISMATCH, b)
                 else
                   case cow_write_exact wr at blk 0 0 b of (ok, put, b) \<Rightarrow>
                     if \<not> ok then (COW_IO, b) else replay_records n f sz wr b)"

definition vm_cow_replay :: "ofile option \<Rightarrow> 'b vm_block \<Rightarrow> bool \<Rightarrow> 'b \<Rightarrow> vm_cow_status \<times> 'b" where
  "vm_cow_replay file onto mem_ok b =
     (case blk_write_at onto of None \<Rightarrow> (COW_BAD_ARGUMENT, b)
      | Some wr \<Rightarrow>
        case file of None \<Rightarrow> (COW_IO, b)
        | Some f \<Rightarrow>
          case f_read (f_seek f 0) VM_COW_HEADER_BYTES of (h, f) \<Rightarrow>
            if \<not> header_is_cow h then (COW_BAD_FORMAT, b)
            else if get_le64 (drop 20 h) \<noteq> blk_size onto then (COW_SIZE_MISMATCH, b)
            else
              let body = f_end f - VM_COW_HEADER_BYTES
              in if body mod VM_COW_RECORD_BYTES \<noteq> 0 then (COW_TRUNCATED, b)
                 else if \<not> mem_ok then (COW_OUT_OF_MEMORY, b)
                 else
                   case replay_records (body div VM_COW_RECORD_BYTES) (f_seek f VM_COW_HEADER_BYTES)
                          (blk_size onto) wr b of
                     (st, b) \<Rightarrow>
                       if st \<noteq> COW_OK then (st, b)
                       else
                         case blk_flush onto of None \<Rightarrow> (COW_OK, b)
                         | Some fl \<Rightarrow> (case fl b of (st, b) \<Rightarrow> (if st = VM_IO_OK then COW_OK else COW_IO, b)))"

subsection \<open>The exact loops\<close>

lemma cow_read_exact_correct:
  assumes "reader_contract content rd" "unat offset + want \<le> length (content b)" "length (content b) < 2 ^ 64"
    and "want \<le> length dst" "got \<le> want" "take got dst = take got (drop (unat offset) (content b))"
    and "cow_read_exact rd offset want dst got stalls b = (ok, dst', b')"
  shows "content b' = content b \<and> length dst' = length dst \<and>
    (ok \<longrightarrow> take want dst' = take want (drop (unat offset) (content b)))"
  using assms
proof (induction rd offset want dst got stalls b rule: cow_read_exact.induct)
  case (1 rd offset want dst got stalls b)
  show ?case
  proof (cases "got < want")
    case False
    then show ?thesis using "1.prems" by (simp add: cow_read_exact.simps)
  next
    case True
    obtain io k data b2 where r: "rd b (offset + of_nat got) (want - got) = (io, k, data, b2)"
      by (cases "rd b (offset + of_nat got) (want - got)") auto
    have o: "unat (offset + of_nat got) = unat offset + got"
      by (rule unat_offset) (use "1.prems"(2,3,5) in linarith)
    have "unat (offset + of_nat got) + (want - got) \<le> length (content b)"
      unfolding o using "1.prems"(2) True by linarith
    note k = readerD [OF "1.prems"(1) r this, unfolded o]
    have fit: "got + length data \<le> length dst" using k(3) "1.prems"(4) True by linarith
    let ?dst = "splice got data dst"
    have kl: "got + k \<le> want" using k(2,3) True by linarith
    have t: "take (got + j) ?dst = take (got + j) (drop (unat offset) (content b))" if "j \<le> k" for j
    proof (rule take_splice_ext [OF fit _ "1.prems"(6)])
      show "j \<le> length data" using that k(2) by simp
      show "take j data = take j (drop got (drop (unat offset) (content b)))"
        using arg_cong [OF k(4), of "take j"] that by (simp add: min_def add.commute)
      show "got + j \<le> length (drop (unat offset) (content b))"
        using "1.prems"(2) that kl unfolding length_drop by linarith
    qed
    have ln: "length ?dst = length dst" using fit by simp
    note IH1 = "1.IH"(1) [OF _ r [symmetric] refl refl refl]
    note IH2 = "1.IH"(2) [OF _ r [symmetric] refl refl refl]
    have e: "cow_read_exact rd offset want dst got stalls b =
      (if io = VM_IO_ERROR \<or> k = 0 \<and> stalls + 1 > 64 then (False, ?dst, b2)
       else if k = 0 then cow_read_exact rd offset want ?dst got (stalls + 1) b2
       else cow_read_exact rd offset want ?dst (got + k) 0 b2)"
      using True by (subst cow_read_exact.simps) (simp add: r Let_def)
    consider (leaf) "io = VM_IO_ERROR \<or> k = 0 \<and> stalls + 1 > 64"
      | (stall) "io \<noteq> VM_IO_ERROR" "k = 0" "\<not> stalls + 1 > 64" | (step) "io \<noteq> VM_IO_ERROR" "k \<noteq> 0"
      by blast
    then show ?thesis
    proof cases
      case leaf
      then show ?thesis using "1.prems"(7) k(6) ln unfolding e by simp
    next
      case stall
      have "cow_read_exact rd offset want ?dst got (stalls + 1) b2 = (ok, dst', b')"
        using "1.prems"(7) stall unfolding e by simp
      from IH1 [OF _ refl _ _ _ "1.prems"(1) _ _ _ "1.prems"(5) _ this] show ?thesis
        using stall True "1.prems"(2-4) t [of 0] ln unfolding k(6) by simp
    next
      case step
      have "cow_read_exact rd offset want ?dst (got + k) 0 b2 = (ok, dst', b')"
        using "1.prems"(7) step unfolding e by simp
      from IH2 [OF _ refl _ _ "1.prems"(1) _ _ _ kl _ this] show ?thesis
        using step True "1.prems"(2-4) t [of k] ln unfolding k(6) by simp
    qed
  qed
qed

lemma cow_write_exact_correct:
  assumes "writer_contract content wr" "unat offset + length src \<le> length m" "length m < 2 ^ 64"
    and "put \<le> length src" "content b = splice (unat offset) (take put src) m"
    and "cow_write_exact wr offset src put stalls b = (ok, n, b')"
  shows "content b' = splice (unat offset) (take n src) m \<and> n \<le> length src \<and> (ok \<longrightarrow> n = length src)"
  using assms
proof (induction wr offset src put stalls b rule: cow_write_exact.induct)
  case (1 wr offset src put stalls b)
  show ?case
  proof (cases "put < length src")
    case False
    then show ?thesis using "1.prems" by (simp add: cow_write_exact.simps)
  next
    case True
    obtain io k b2 where r: "wr b (offset + of_nat put) (drop put src) = (io, k, b2)"
      by (cases "wr b (offset + of_nat put) (drop put src)") auto
    have o: "unat (offset + of_nat put) = unat offset + put"
      by (rule unat_offset) (use "1.prems"(2,3,4) in linarith)
    have lt: "length (take put src) = put" using True by simp
    have lm: "length (content b) = length m"
      unfolding "1.prems"(5) by (rule length_splice) (use "1.prems"(2) True lt in linarith)
    have "unat (offset + of_nat put) + length (drop put src) \<le> length (content b)"
      unfolding o lm length_drop using "1.prems"(2) True by linarith
    note k = writerD [OF "1.prems"(1) r this, unfolded o]
    have kl: "put + k \<le> length src" using k(2) True unfolding length_drop by linarith
    have tk: "take put src @ take k (drop put src) = take (put + k) src" by (simp add: take_add)
    have fit: "unat offset + length (take put src) + length (take k (drop put src)) \<le> length m"
      using kl "1.prems"(2) True by simp
    have c2: "content b2 = splice (unat offset) (take (put + k) src) m"
      unfolding k(4) "1.prems"(5) using splice_append [OF fit] unfolding lt tk by simp
    note IH1 = "1.IH"(1) [OF _ r [symmetric] refl]
    note IH2 = "1.IH"(2) [OF _ r [symmetric] refl]
    have e: "cow_write_exact wr offset src put stalls b =
      (if io = VM_IO_ERROR \<or> k = 0 \<and> stalls + 1 > 64 then (False, put, b2)
       else if k = 0 then cow_write_exact wr offset src put (stalls + 1) b2
       else cow_write_exact wr offset src (put + k) 0 b2)"
      using True by (subst cow_write_exact.simps) (simp add: r Let_def)
    have k0: "content b2 = splice (unat offset) (take put src) m" if "k = 0" using c2 that by simp
    consider (leaf) "io = VM_IO_ERROR \<or> k = 0 \<and> stalls + 1 > 64"
      | (stall) "io \<noteq> VM_IO_ERROR" "k = 0" "\<not> stalls + 1 > 64" | (step) "io \<noteq> VM_IO_ERROR" "k \<noteq> 0"
      by blast
    then show ?thesis
    proof cases
      case leaf
      then show ?thesis using "1.prems"(4,6) k0 k(3) unfolding e by auto
    next
      case stall
      have "cow_write_exact wr offset src put (stalls + 1) b2 = (ok, n, b')"
        using "1.prems"(6) stall unfolding e by simp
      from IH1 [OF _ refl _ _ _ "1.prems"(1-4) k0 [OF stall(2)] this] show ?thesis using stall True by simp
    next
      case step
      have "cow_write_exact wr offset src (put + k) 0 b2 = (ok, n, b')"
        using "1.prems"(6) step unfolding e by simp
      from IH2 [OF _ refl _ _ "1.prems"(1-3) kl c2 this] show ?thesis using step True by simp
    qed
  qed
qed

subsection \<open>What the overlay records\<close>

definition block_of :: "u8 list \<Rightarrow> nat \<Rightarrow> u8 list" where
  "block_of m i = take VM_COW_BLOCK_BYTES (drop (i * VM_COW_BLOCK_BYTES) m)"

definition record_bytes :: "nat \<times> u8 list \<Rightarrow> u8 list" where
  "record_bytes r = put_le64 (of_nat (fst r)) @ snd r"

lemma length_block_of: "length m = n * 4096 \<Longrightarrow> i < n \<Longrightarrow> length (block_of m i) = VM_COW_BLOCK_BYTES"
proof -
  assume "length m = n * 4096" "i < n"
  moreover from this(2) obtain k where "n = Suc (i + k)" by (auto dest: less_imp_Suc_add)
  ultimately show ?thesis by (simp add: block_of_def)
qed

lemma nth_block_of:
  "length m = n * 4096 \<Longrightarrow> i < n \<Longrightarrow> j < 4096 \<Longrightarrow> block_of m i ! j = m ! (i * 4096 + j)"
  by (simp add: block_of_def)

lemma blocks_eq:
  assumes "length m = n * 4096" "length m' = n * 4096" "\<And>i. i < n \<Longrightarrow> block_of m i = block_of m' i"
  shows "m = m'"
proof (rule nth_equalityI)
  show "length m = length m'" using assms by simp
  fix j assume "j < length m"
  then have i: "j div 4096 < n" using assms(1) by (simp add: div_less_iff_less_mult)
  have "m ! j = block_of m (j div 4096) ! (j mod 4096)"
    using nth_block_of [OF assms(1) i, of "j mod 4096"] by simp
  also have "\<dots> = m' ! j"
    unfolding assms(3) [OF i] using nth_block_of [OF assms(2) i, of "j mod 4096"] by simp
  finally show "m ! j = m' ! j" .
qed

lemma block_of_splice_other:
  assumes "length m = n * 4096" "i < n" "off + length bs \<le> length m"
    and "length bs = 0 \<or> i < off div 4096 \<or> (off + length bs - 1) div 4096 < i"
  shows "block_of (splice off bs m) i = block_of m i"
proof (rule nth_equalityI)
  have l: "length (splice off bs m) = n * 4096" using assms by simp
  show "length (block_of (splice off bs m) i) = length (block_of m i)"
    using length_block_of [OF l assms(2)] length_block_of [OF assms(1,2)] by simp
  fix j assume "j < length (block_of (splice off bs m) i)"
  then have j: "j < 4096" using length_block_of [OF l assms(2)] by simp
  have "i * 4096 + j < Suc i * 4096" using j by simp
  also have "\<dots> \<le> n * 4096" using assms(2) by (intro mult_le_mono1) simp
  finally have ij: "i * 4096 + j < length m" using assms(1) by simp
  have "\<not> (off \<le> i * 4096 + j \<and> i * 4096 + j < off + length bs)"
  proof
    assume c: "off \<le> i * 4096 + j \<and> i * 4096 + j < off + length bs"
    then have "off div 4096 \<le> (i * 4096 + j) div 4096" "(i * 4096 + j) div 4096 \<le> (off + length bs - 1) div 4096"
      by (auto intro: div_le_mono)
    then show False using j assms(4) c by auto
  qed
  then show "block_of (splice off bs m) i ! j = block_of m i ! j"
    unfolding nth_block_of [OF l assms(2) j] nth_block_of [OF assms(1,2) j]
    using assms(3) ij by (auto simp: nth_splice)
qed

lemma block_of_splice_same:
  assumes "length m = n * 4096" "i < n" "length d = 4096"
  shows "block_of (splice (i * 4096) d m) i = d"
proof -
  have "i * 4096 + 4096 \<le> n * 4096" using assms(2) mult_le_mono1 [of "Suc i" n 4096] by simp
  then show ?thesis unfolding block_of_def using take_drop_splice [of "i * 4096" d m] assms by simp
qed

lemma bit_get_set:
  assumes "i < 8 * length bm" "j < 8 * length bm"
  shows "bit_get (bit_set bm i) j \<longleftrightarrow> i = j \<or> bit_get bm j"
proof -
  have d: "i div 8 < length bm" "j div 8 < length bm" using assms by (simp_all add: div_less_iff_less_mult mult.commute)
  have m: "j mod 8 < 8" "i mod 8 < 8" by simp_all
  have e: "i = j \<longleftrightarrow> i div 8 = j div 8 \<and> i mod 8 = j mod 8" by (metis div_mult_mod_eq)
  show ?thesis
  proof (cases "i div 8 = j div 8")
    case True
    have "bit (push_bit (i mod 8) 1 :: u8) (j mod 8) \<longleftrightarrow> i mod 8 = j mod 8"
      using m by (auto simp: bit_exp_iff)
    then show ?thesis using True d e by (auto simp: bit_get_def bit_set_def bit_or_iff)
  next
    case False
    then show ?thesis using d e by (simp add: bit_get_def bit_set_def)
  qed
qed

lemma length_bit_set [simp]: "length (bit_set bm i) = length bm"
  by (simp add: bit_set_def)

lemma bit_get_zero [simp]: "i < 8 * n \<Longrightarrow> \<not> bit_get (replicate n 0) i"
  by (simp add: bit_get_def div_less_iff_less_mult mult.commute)

lemma length_put_le64 [simp]: "length (put_le64 v) = 8" by (simp add: put_le64_def)
lemma get_put_le64 [simp]: "get_le64 (put_le64 v @ xs) = v" by (simp add: get_le64_def put_le64_def)

lemma length_cow_header [simp]: "length (cow_header sz) = VM_COW_HEADER_BYTES"
  by (simp add: cow_header_def cow_magic_def put_le32_def)

lemma header_fields: "header_is_cow (cow_header sz) \<and> get_le64 (drop 20 (cow_header sz)) = sz"
  by (simp add: header_is_cow_def cow_header_def cow_magic_def put_le32_def get_le32_def get_le64_def put_le64_def)

text \<open>
  The overlay invariant: the file is the header followed by whole records (and, after a failed append,
  a torn tail), each record holds the block of the snapshot, a bit is set exactly for the recorded
  blocks, and every block without a record still has its snapshot contents.
\<close>

definition cow_inv ::
  "('b \<Rightarrow> u8 list) \<Rightarrow> u8 list \<Rightarrow> 'b vm_cow \<Rightarrow> 'b \<Rightarrow> (nat \<times> u8 list) list \<Rightarrow> u8 list \<Rightarrow> bool" where
  "cow_inv content snap cow b recs tail \<longleftrightarrow>
     f_bytes (overlay cow) = cow_header (image_size cow) @ concat (map record_bytes recs) @ tail \<and>
     f_pos (overlay cow) = length (f_bytes (overlay cow)) \<and>
     (\<not> poisoned cow \<longrightarrow> tail = []) \<and> length tail < VM_COW_RECORD_BYTES \<and>
     (\<forall>i < unat (block_count cow). bit_get (saved cow) i \<longleftrightarrow> i \<in> fst ` set recs) \<and>
     (\<forall>r \<in> set recs. fst r < unat (block_count cow) \<and> snd r = block_of snap (fst r)) \<and>
     (\<forall>i < unat (block_count cow). \<not> bit_get (saved cow) i \<longrightarrow> block_of (content b) i = block_of snap i) \<and>
     image_size cow = block_count cow * 4096 \<and> unat (block_count cow) * 4096 < 2 ^ 64 \<and>
     length (content b) = unat (block_count cow) * 4096 \<and> length snap = unat (block_count cow) * 4096 \<and>
     unat (block_count cow) \<le> 8 * length (saved cow) \<and> length (scratch cow) = VM_COW_BLOCK_BYTES \<and>
     reader_contract content (under_read_at cow) \<and> writer_contract content (under_write_at cow)"

text \<open>What a facade operation leaves alone.\<close>

definition same_device :: "'b vm_cow \<Rightarrow> 'b vm_cow \<Rightarrow> bool" where
  "same_device c d \<longleftrightarrow> under_read_at d = under_read_at c \<and> under_write_at d = under_write_at c \<and>
     under_flush d = under_flush c \<and> image_size d = image_size c \<and> block_count d = block_count c"

lemma same_device_trans: "same_device a b \<Longrightarrow> same_device b c \<Longrightarrow> same_device a c"
  by (simp add: same_device_def)

lemma same_device_refl [simp]: "same_device c c"
  by (simp add: same_device_def)

lemma f_write_end:
  assumes "f_pos f = length (f_bytes f)" "f_write f bs = (n, g)"
  shows "f_bytes g = f_bytes f @ take n bs \<and> f_pos g = length (f_bytes g) \<and> n \<le> length bs"
  using assms by (auto simp: f_write_def Let_def)

lemma unat_block_at: "i * 4096 < 2 ^ 64 \<Longrightarrow> unat (of_nat i * 4096 :: u64) = i * 4096"
  by (simp add: unat_word_ariths(2) unat_of_nat)

lemma save_blocks_inv:
  assumes "cow_inv content snap cow b recs []" "\<not> poisoned cow" "\<forall>i \<in> set is. i < unat (block_count cow)"
    and "cow_save_blocks is cow b = (ok, cow', b')"
  shows "\<exists>recs' tail. cow_inv content snap cow' b' recs' tail \<and> content b' = content b \<and> same_device cow cow' \<and>
    poisoned cow' = (\<not> ok) \<and> (ok \<longrightarrow> tail = [] \<and> (\<forall>i \<in> set is. bit_get (saved cow') i))
    \<and> (\<forall>i < unat (block_count cow). bit_get (saved cow) i \<longrightarrow> bit_get (saved cow') i)"
  using assms
proof (induction "is" cow b arbitrary: recs rule: cow_save_blocks.induct)
  case (1 cow b)
  then show ?case by auto
next
  case (2 i "is" cow b)
  let ?n = "unat (block_count cow)"
  have i: "i < ?n" using "2.prems"(3) by simp
  show ?case
  proof (cases "bit_get (saved cow) i")
    case True
    then show ?thesis using "2.IH"(1) [OF True "2.prems"(1,2)] "2.prems"(3,4) by (fastforce simp: same_device_def)
  next
    case False
    note inv = "2.prems"(1) [unfolded cow_inv_def]
    have ui: "unat (of_nat i * 4096 :: u64) = i * 4096"
      by (rule unat_block_at) (use i inv in \<open>meson less_trans mult_less_mono1 zero_less_numeral\<close>)
    have i4: "i * 4096 + 4096 \<le> ?n * 4096" using i mult_le_mono1 [of "Suc i" ?n 4096] by simp
    obtain rok buf b1 where r: "cow_read_exact (under_read_at cow) (of_nat i * 4096) VM_COW_BLOCK_BYTES (scratch cow) 0 0 b
        = (rok, buf, b1)" by (cases "cow_read_exact (under_read_at cow) (of_nat i * 4096) VM_COW_BLOCK_BYTES (scratch cow) 0 0 b") auto
    have rd: "content b1 = content b \<and> length buf = length (scratch cow) \<and>
        (rok \<longrightarrow> take VM_COW_BLOCK_BYTES buf = take VM_COW_BLOCK_BYTES (drop (unat (of_nat i * 4096 :: u64)) (content b)))"
      by (rule cow_read_exact_correct [OF _ _ _ _ _ _ r]) (use inv i4 in \<open>simp_all add: ui\<close>)
    then have lb: "length buf = VM_COW_BLOCK_BYTES" using inv by simp
    have buf: "buf = block_of snap i" if rok
    proof -
      have "buf = block_of (content b) i" using rd that lb ui by (simp add: block_of_def)
      then show ?thesis using inv i False by simp
    qed
    obtain n f where w1: "f_write (overlay cow) (put_le64 (of_nat i)) = (n, f)" by force
    obtain n2 f2 where w2: "f_write f buf = (n2, f2)" by force
    have pos: "f_pos (overlay cow) = length (f_bytes (overlay cow))" using inv by simp
    have wf1: "f_bytes f = f_bytes (overlay cow) @ take n (put_le64 (of_nat i))" "f_pos f = length (f_bytes f)" "n \<le> 8"
      using f_write_end [OF pos w1] by simp_all
    have wf2: "f_bytes f2 = f_bytes f @ take n2 buf" "f_pos f2 = length (f_bytes f2)" "n2 \<le> 4096"
      using f_write_end [OF wf1(2) w2] lb by simp_all
    consider (read) "\<not> rok" | (idx) rok "n \<noteq> 8" | (dat) rok "n = 8" "n2 \<noteq> 4096" | (fine) rok "n = 8" "n2 = 4096" by blast
    then show ?thesis
    proof cases
      case read
      then have e: "ok = False" "cow' = cow\<lparr>scratch := buf, poisoned := True\<rparr>" "b' = b1"
        using "2.prems"(4) False r by (simp_all add: Let_def)
      have "cow_inv content snap cow' b' recs []" using inv rd lb unfolding e cow_inv_def by simp
      then show ?thesis using rd unfolding e by (auto simp: same_device_def)
    next
      case idx
      then have e: "ok = False" "cow' = cow\<lparr>scratch := buf, overlay := f, poisoned := True\<rparr>" "b' = b1"
        using "2.prems"(4) False r w1 by (simp_all add: Let_def)
      have "cow_inv content snap cow' b' recs (take n (put_le64 (of_nat i)))"
        using inv rd lb wf1 unfolding e cow_inv_def by simp
      then show ?thesis using rd unfolding e by (auto simp: same_device_def)
    next
      case dat
      then have e: "ok = False" "cow' = cow\<lparr>scratch := buf, overlay := f2, poisoned := True\<rparr>" "b' = b1"
        using "2.prems"(4) False r w1 w2 by (simp_all add: Let_def)
      have "cow_inv content snap cow' b' recs (put_le64 (of_nat i) @ take n2 buf)"
        using inv rd lb wf1 wf2 dat unfolding e cow_inv_def by simp
      then show ?thesis using rd unfolding e by (auto simp: same_device_def)
    next
      case fine
      let ?c0 = "cow\<lparr>scratch := buf\<rparr>"
      let ?cow = "?c0\<lparr>overlay := f2, saved := bit_set (saved ?c0) i, overlay_bytes := overlay_bytes ?c0 + 4104\<rparr>"
      have w1': "f_write (overlay ?c0) (put_le64 (of_nat i)) = (n, f)" using w1 by simp
      have e: "cow_save_blocks is ?cow b1 = (ok, cow', b')"
        using "2.prems"(4) False r w1 w2 fine by (simp add: Let_def)
      have bits: "bit_get (bit_set (saved cow) i) j \<longleftrightarrow> i = j \<or> bit_get (saved cow) j" if "j < ?n" for j
        by (rule bit_get_set) (use inv i that in linarith)+
      have "cow_inv content snap ?cow b1 (recs @ [(i, buf)]) []"
      proof -
        have "bit_get (bit_set (saved cow) i) j \<longleftrightarrow> j \<in> fst ` set (recs @ [(i, buf)])" if "j < ?n" for j
          using bits [OF that] inv that by auto
        moreover have "block_of (content b1) j = block_of snap j" if "j < ?n" "\<not> bit_get (bit_set (saved cow) i) j" for j
          using bits [OF that(1)] inv that rd by simp
        moreover have "f_bytes f2 = cow_header (image_size cow) @ concat (map record_bytes (recs @ [(i, buf)]))"
          using wf1 wf2 fine lb inv by (simp add: record_bytes_def)
        moreover have "\<forall>r \<in> set (recs @ [(i, buf)]). fst r < ?n \<and> snd r = block_of snap (fst r)"
          using inv buf fine i by auto
        ultimately show ?thesis using inv rd lb wf2(2) "2.prems"(2) unfolding cow_inv_def by simp
      qed
      moreover have "\<not> poisoned ?cow" "\<forall>i \<in> set is. i < unat (block_count ?cow)" using "2.prems"(2,3) by simp_all
      moreover have "\<not> \<not> rok" "\<not> n \<noteq> VM_COW_INDEX_BYTES" "\<not> n2 \<noteq> VM_COW_BLOCK_BYTES" using fine by simp_all
      ultimately have "\<exists>recs' tail. cow_inv content snap cow' b' recs' tail \<and> content b' = content b1 \<and>
          same_device ?cow cow' \<and> poisoned cow' = (\<not> ok) \<and>
          (ok \<longrightarrow> tail = [] \<and> (\<forall>i \<in> set is. bit_get (saved cow') i)) \<and>
          (\<forall>j < unat (block_count ?cow). bit_get (saved ?cow) j \<longrightarrow> bit_get (saved cow') j)"
        using "2.IH"(2) [OF False r [symmetric] refl refl _ w1' [symmetric] _ w2 [symmetric] _ _ _ _ e] by blast
      then obtain recs' tail where ih: "cow_inv content snap cow' b' recs' tail" "content b' = content b1"
          "same_device ?cow cow'" "poisoned cow' = (\<not> ok)" "ok \<longrightarrow> tail = [] \<and> (\<forall>i \<in> set is. bit_get (saved cow') i)"
          "\<forall>j < ?n. bit_get (bit_set (saved cow) i) j \<longrightarrow> bit_get (saved cow') j"
        by auto
      have "same_device cow cow'" using ih(3) by (simp add: same_device_def)
      moreover have "bit_get (saved cow') j" if "j < ?n" "i = j \<or> bit_get (saved cow) j" for j
        using ih(6) bits that by blast
      ultimately show ?thesis using ih(1,2,4,5) rd i by auto
    qed
  qed
qed

lemma cow_write_inv:
  assumes "cow_inv content snap cow b recs tail" "unat offset + length src \<le> length (content b)"
    and "cow_write_at (cow, b) offset src = (st, k, cow', b')"
  shows "(\<exists>recs tail. cow_inv content snap cow' b' recs tail) \<and> same_device cow cow' \<and> k \<le> length src \<and>
    content b' = splice (unat offset) (take k src) (content b) \<and> (st = VM_IO_OK \<longrightarrow> k = length src) \<and> st \<noteq> VM_IO_OTHER"
proof (cases "poisoned cow \<or> length src = 0 \<or> (offset + of_nat (length src) - 1) div 4096 \<ge> block_count cow")
  case True
  then have e: "cow' = cow" "b' = b" "k = 0" "st = VM_IO_ERROR \<or> st = VM_IO_OK \<and> length src = 0"
    using assms(3) by (auto simp: cow_write_at_def Let_def split: if_splits)
  then show ?thesis using assms(1) by auto
next
  case False
  let ?first = "offset div 4096" and ?last = "(offset + of_nat (length src) - 1) div 4096"
  let ?n = "unat (block_count cow)"
  note inv = assms(1) [unfolded cow_inv_def]
  have small: "length (content b) < 2 ^ 64" using inv by simp
  have s0: "0 < length src" using False by simp
  have eo: "offset + of_nat (length src) - 1 = offset + of_nat (length src - 1)"
    using s0 by (cases src) simp_all
  have lst: "unat ?last = (unat offset + length src - 1) div 4096"
  proof -
    have "unat (offset + of_nat (length src - 1)) = unat offset + (length src - 1)"
      by (rule unat_offset) (use assms(2) small in linarith)
    then have "unat (offset + of_nat (length src - 1)) = unat offset + length src - 1" using s0 by linarith
    then show ?thesis unfolding eo unat_div by simp
  qed
  have fst: "unat ?first = unat offset div 4096" by (simp add: unat_div)
  have ln: "unat ?last < ?n" using False by (simp add: word_le_nat_alt not_le)
  have t: "tail = []" using inv False by simp
  obtain ok c1 b1 where s: "cow_save_blocks [unat ?first ..< unat ?last + 1] cow b = (ok, c1, b1)"
    by (cases "cow_save_blocks [unat ?first ..< unat ?last + 1] cow b") auto
  obtain recs1 tail1 where sv: "cow_inv content snap c1 b1 recs1 tail1" "content b1 = content b" "same_device cow c1"
      "ok \<longrightarrow> tail1 = [] \<and> (\<forall>i \<in> set [unat ?first ..< unat ?last + 1]. bit_get (saved c1) i)"
  proof -
    have r: "\<forall>i \<in> set [unat ?first ..< unat ?last + 1]. i < ?n" using ln by (intro ballI) (simp only: set_upt atLeastLessThan_iff, linarith)
    have p: "\<not> poisoned cow" using False by simp
    show thesis using that save_blocks_inv [OF assms(1) [unfolded t] p r s] by blast
  qed
  show ?thesis
  proof (cases ok)
    case False
    then have e: "cow' = c1" "b' = b1" "k = 0" "st = VM_IO_ERROR"
      using assms(3) s \<open>\<not> (poisoned cow \<or> length src = 0 \<or> ?last \<ge> block_count cow)\<close>
      by (simp_all add: cow_write_at_def Let_def)
    then show ?thesis using sv by auto
  next
    case True
    obtain wok put b2 where w: "cow_write_exact (under_write_at c1) offset src 0 0 b1 = (wok, put, b2)"
      by (cases "cow_write_exact (under_write_at c1) offset src 0 0 b1") auto
    have e: "cow' = c1" "b' = b2" "k = put" "st = (if wok then VM_IO_OK else VM_IO_ERROR)"
      using assms(3) s w True False by (simp_all add: cow_write_at_def Let_def)
    have wr: "content b2 = splice (unat offset) (take put src) (content b1) \<and> put \<le> length src \<and>
        (wok \<longrightarrow> put = length src)"
      by (rule cow_write_exact_correct [OF _ _ _ _ _ w])
        (use sv(1,2) inv assms(2) small in \<open>simp_all add: cow_inv_def\<close>)
    note inv1 = sv(1) [unfolded cow_inv_def]
    have bc: "block_count c1 = block_count cow" using sv(3) by (simp add: same_device_def)
    have fit: "unat offset + length (take put src) \<le> length (content b1)" using assms(2) sv(2) wr by simp
    have keep: "block_of (content b2) i = block_of snap i" if "i < ?n" "\<not> bit_get (saved c1) i" for i
    proof -
      have out: "i < unat ?first \<or> unat ?last < i" using sv(4) True that(2) by fastforce
      have "length (take put src) \<le> length src" by simp
      then have le: "(unat offset + length (take put src) - 1) div 4096 \<le> unat ?last"
        unfolding lst by (intro div_le_mono) (linarith)
      from out le have "length (take put src) = 0 \<or> i < unat offset div 4096 \<or>
          (unat offset + length (take put src) - 1) div 4096 < i"
        unfolding fst by linarith
      then have "block_of (content b2) i = block_of (content b1) i"
        using block_of_splice_other [OF _ that(1) fit] inv1 wr bc by simp
      then show ?thesis using inv1 that bc by simp
    qed
    have "cow_inv content snap c1 b2 recs1 tail1"
      using inv1 keep wr fit bc unfolding cow_inv_def by simp
    then show ?thesis using wr sv e by auto
  qed
qed

subsection \<open>Through the block layer\<close>

lemma write_loop_inv:
  assumes "\<And>b at src st k b'. P b \<Longrightarrow> inside offset len at (length src) \<Longrightarrow> wr b at src = (st, k, b') \<Longrightarrow> P b'"
    and "\<And>b. P b \<Longrightarrow> P (snd (poll cancelled b))"
    and "unat offset + len < 2 ^ 64" "completed \<le> len" "len \<le> length bytes" "P b"
    and "vm_block_write_loop wr cancelled offset bytes len completed np b = (st, n, b')"
  shows "P b'"
  using assms
proof (induction wr cancelled offset bytes len completed np b rule: vm_block_write_loop.induct)
  case (1 wr cancelled offset bytes len completed np b)
  show ?case
  proof (cases "completed < len")
    case False
    then show ?thesis using "1.prems" by (simp add: vm_block_write_loop.simps)
  next
    case True
    let ?req = "min (len - completed) VM_BLOCK_MAX_CALLBACK_BYTES"
    let ?src = "take ?req (drop completed bytes)"
    have ls: "length ?src = ?req" using "1.prems"(5) True by simp
    obtain stop b1 where p: "poll cancelled b = (stop, b1)" by force
    have P1: "P b1" using "1.prems"(2) [OF "1.prems"(6)] p by simp
    obtain io k b2 where r: "wr b1 (offset + of_nat completed) ?src = (io, k, b2)"
      by (cases "wr b1 (offset + of_nat completed) ?src") auto
    have P2: "P b2"
      by (rule "1.prems"(1) [OF P1 _ r]) (unfold ls, rule inside_next [OF "1.prems"(3) True])
    note IH1 = "1.IH"(1) [OF _ refl refl p [symmetric] _ refl r [symmetric] refl _ _ _ _ _ "1.prems"(1,2,3) _ "1.prems"(5) P2]
    note IH2 = "1.IH"(2) [OF _ refl refl p [symmetric] _ refl r [symmetric] refl _ _ _ _ _ _ "1.prems"(1-5) P2]
    consider (leaf) "stop \<or> k > ?req \<or> io = VM_IO_ERROR \<or> io = VM_IO_OTHER \<or> io = VM_IO_RETRY \<and> k \<noteq> 0 \<or>
          \<not> (io = VM_IO_OK \<and> k \<noteq> 0) \<and> np + 1 \<ge> VM_BLOCK_NO_PROGRESS_LIMIT"
      | (step) "\<not> stop" "\<not> k > ?req" "io = VM_IO_OK" "k \<noteq> 0"
      | (stall) "\<not> stop" "\<not> k > ?req" "io \<noteq> VM_IO_ERROR" "io \<noteq> VM_IO_OTHER" "k = 0"
          "\<not> np + 1 \<ge> VM_BLOCK_NO_PROGRESS_LIMIT"
      by (cases io; cases "k = 0") blast+
    then show ?thesis
    proof cases
      case leaf
      have "b' = b1 \<or> b' = b2"
        using "1.prems"(7) True leaf
        by (subst (asm) vm_block_write_loop.simps) (auto simp: p r Let_def split: if_splits)
      then show ?thesis using P1 P2 by blast
    next
      case step
      have "vm_block_write_loop wr cancelled offset bytes len (completed + k) 0 b2 = (st, n, b')"
        using "1.prems"(7) True step by (subst (asm) vm_block_write_loop.simps) (simp add: p r Let_def)
      moreover have "completed + k \<le> len" using step(2) True by linarith
      ultimately show ?thesis using IH1 step True by simp
    next
      case stall
      have "vm_block_write_loop wr cancelled offset bytes len completed (np + 1) b2 = (st, n, b')"
        using "1.prems"(7) True stall by (subst (asm) vm_block_write_loop.simps) (simp add: p r Let_def)
      then show ?thesis using IH2 stall True by simp
    qed
  qed
qed

text \<open>One guest request: an exact write through the facade.\<close>

definition cow_request :: "('b vm_cow \<times> 'b) cancel \<Rightarrow> 'b vm_cow \<times> 'b \<Rightarrow> u64 \<times> u8 list \<Rightarrow> 'b vm_cow \<times> 'b" where
  "cow_request cancelled cw req =
     (case req of (offset, bytes) \<Rightarrow>
        snd (snd (vm_block_write_exact (Some (vm_cow_block (fst cw))) offset (Some bytes) (length bytes) cancelled cw)))"

lemma cow_request_inv:
  assumes "\<exists>recs tail. cow_inv content snap (fst cw) (snd cw) recs tail"
    and "\<And>cw. snd (poll cancelled cw) = cw" "length (snd req) < 2 ^ 64"
  shows "(\<exists>recs tail. cow_inv content snap (fst (cow_request cancelled cw req)) (snd (cow_request cancelled cw req)) recs tail) \<and>
    same_device (fst cw) (fst (cow_request cancelled cw req))"
proof -
  obtain offset bytes where q: "req = (offset, bytes)" by force
  let ?k = "vm_cow_block (fst cw)"
  let ?P = "\<lambda>d. (\<exists>recs tail. cow_inv content snap (fst d) (snd d) recs tail) \<and> same_device (fst cw) (fst d)"
  have len: "length bytes < 2 ^ 64" using assms(3) q by simp
  show ?thesis
  proof (cases "vm_block_check_range (Some ?k) offset (of_nat (length bytes)) = BLOCK_OK \<and> length bytes \<noteq> 0")
    case False
    then have "cow_request cancelled cw req = cw"
      by (auto simp: cow_request_def q vm_block_write_exact_def Let_def vm_cow_block_def)
    then show ?thesis using assms(1) by simp
  next
    case True
    then have range: "unat offset + length bytes \<le> unat (image_size (fst cw))"
      using check_range_ok [OF len, of ?k offset] by (simp add: vm_cow_block_def)
    have n: "unat offset + length bytes < 2 ^ 64" using check_range_no_wrap [OF _ len] True by blast
    obtain st m cw' where w: "vm_block_write_loop cow_write_at cancelled offset bytes (length bytes) 0 0 cw = (st, m, cw')"
      by (cases "vm_block_write_loop cow_write_at cancelled offset bytes (length bytes) 0 0 cw") auto
    have r: "cow_request cancelled cw req = cw'"
      using True by (simp add: cow_request_def q vm_block_write_exact_def Let_def w) (simp add: vm_cow_block_def w)
    have "?P cw'"
    proof (rule write_loop_inv [where P = ?P, OF _ _ n _ _ _ w])
      fix d at src st k d'
      assume P: "?P d" and i: "inside offset (length bytes) at (length src)" and d: "cow_write_at d at src = (st, k, d')"
      obtain recs tail where inv: "cow_inv content snap (fst d) (snd d) recs tail" using P by blast
      have sz: "image_size (fst d) = image_size (fst cw)" using P by (simp add: same_device_def)
      have "unat (image_size (fst d)) = length (content (snd d))"
      proof -
        have "image_size (fst d) = block_count (fst d) * 4096" "unat (block_count (fst d)) * 4096 < 2 ^ 64"
            "length (content (snd d)) = unat (block_count (fst d)) * 4096"
          using inv unfolding cow_inv_def by simp_all
        then show ?thesis by (simp add: unat_word_ariths(2))
      qed
      then have "unat at + length src \<le> length (content (snd d))"
        using i range sz by (simp add: inside_def)
      from cow_write_inv [OF inv this, of st k "fst d'" "snd d'"] show "?P d'"
        using d P same_device_trans by (auto simp: same_device_def)
    qed (use assms in auto)
    then show ?thesis unfolding r .
  qed
qed

subsection \<open>Replay puts the snapshot back\<close>

lemma length_record: "length d = VM_COW_BLOCK_BYTES \<Longrightarrow> length (record_bytes (i, d)) = VM_COW_RECORD_BYTES"
  by (simp add: record_bytes_def)

lemma length_records:
  "\<forall>r \<in> set recs. length (snd r) = VM_COW_BLOCK_BYTES \<Longrightarrow>
   length (concat (map record_bytes recs)) = length recs * VM_COW_RECORD_BYTES"
  by (induction recs) (auto simp: record_bytes_def)

lemma replay_step:
  assumes "drop (f_pos f) (f_bytes f) = record_bytes (i, d) @ rest" "length d = VM_COW_BLOCK_BYTES"
    and "i < n" "n * 4096 < 2 ^ 64" "unat sz = n * 4096"
  shows "\<exists>g. drop (f_pos g) (f_bytes g) = rest \<and>
    replay_records (Suc k) f sz wr b =
      (case cow_write_exact wr (of_nat i * 4096) d 0 0 b of (ok, put, b) \<Rightarrow>
         if \<not> ok then (COW_IO, b) else replay_records k g sz wr b)"
proof -
  let ?f1 = "f\<lparr>f_pos := f_pos f + 8\<rparr>" and ?f2 = "f\<lparr>f_pos := 4104 + f_pos f\<rparr>"
  have dr: "drop (f_pos f) (f_bytes f) = put_le64 (of_nat i) @ d @ rest"
    using assms(1) by (simp add: record_bytes_def)
  have dr1: "drop (f_pos f + 8) (f_bytes f) = d @ rest"
    using arg_cong [OF dr, of "drop 8"] by (simp add: add.commute)
  have dr2: "drop (f_pos ?f2) (f_bytes ?f2) = rest"
    using arg_cong [OF dr1, of "drop 4096"] assms(2) by (simp add: add.commute add.left_commute)
  have fr1: "f_read f VM_COW_INDEX_BYTES = (put_le64 (of_nat i), ?f1)"
    by (simp add: f_read_def dr Let_def)
  have fr2: "f_read ?f1 VM_COW_BLOCK_BYTES = (d, ?f2)"
    using dr1 assms(2) by (simp add: f_read_def Let_def)
  have i4: "i * 4096 + 4096 \<le> n * 4096" using assms(3) mult_le_mono1 [of "Suc i" n 4096] by simp
  have ui: "unat (of_nat i * 4096 :: u64) = i * 4096" by (rule unat_block_at) (use i4 assms(4) in linarith)
  have g: "get_le64 (put_le64 (of_nat i)) = of_nat i" using get_put_le64 [of "of_nat i" "[]"] by simp
  have "unat (of_nat i * 4096 + of_nat 4096 :: u64) = i * 4096 + 4096"
    unfolding ui [symmetric] by (rule unat_offset) (use i4 assms(4) ui in linarith)
  then have ok: "\<not> (of_nat i * 4096 + 4096 > sz)" using i4 assms(5) by (simp add: word_less_nat_alt)
  show ?thesis using dr2 ok assms(2) by (intro exI [of _ ?f2]) (simp add: fr1 fr2 g Let_def)
qed

lemma unat_block_index: "i < n \<Longrightarrow> n * 4096 < 2 ^ 64 \<Longrightarrow> unat (of_nat i * 4096 :: u64) = i * 4096"
  by (rule unat_block_at) linarith

lemma replay_records_correct:
  assumes "writer_contract content wr" "length (content b) = n * 4096" "n * 4096 < 2 ^ 64" "unat sz = n * 4096"
    and "\<forall>r \<in> set recs. fst r < n \<and> length (snd r) = VM_COW_BLOCK_BYTES"
    and "drop (f_pos f) (f_bytes f) = concat (map record_bytes recs)"
    and "replay_records (length recs) f sz wr b = (st, b')"
  shows "st \<in> {COW_OK, COW_IO} \<and> length (content b') = n * 4096 \<and>
    (st = COW_OK \<longrightarrow> (\<forall>i < n. i \<notin> fst ` set recs \<longrightarrow> block_of (content b') i = block_of (content b) i) \<and>
       (\<forall>i \<in> fst ` set recs. \<forall>snap. (\<forall>r \<in> set recs. snd r = block_of snap (fst r)) \<longrightarrow>
          block_of (content b') i = block_of snap i))"
  using assms
proof (induction recs arbitrary: f b)
  case Nil
  then show ?case by auto
next
  case (Cons r recs)
  obtain i d where r: "r = (i, d)" by force
  have i: "i < n" and d: "length d = VM_COW_BLOCK_BYTES" using Cons.prems(5) r by auto
  have i4: "i * 4096 + 4096 \<le> n * 4096" using i mult_le_mono1 [of "Suc i" n 4096] by simp
  note ui = unat_block_index [OF i Cons.prems(3)]
  obtain g where g: "drop (f_pos g) (f_bytes g) = concat (map record_bytes recs)"
      "replay_records (Suc (length recs)) f sz wr b =
        (case cow_write_exact wr (of_nat i * 4096) d 0 0 b of (ok, put, b) \<Rightarrow>
           if \<not> ok then (COW_IO, b) else replay_records (length recs) g sz wr b)"
    using replay_step [OF _ d i Cons.prems(3,4), of f "concat (map record_bytes recs)" "length recs" wr b] Cons.prems(6) r
    by (auto simp del: replay_records.simps)
  obtain wok put b1 where w: "cow_write_exact wr (of_nat i * 4096) d 0 0 b = (wok, put, b1)"
    by (cases "cow_write_exact wr (of_nat i * 4096) d 0 0 b") auto
  have wr: "content b1 = splice (unat (of_nat i * 4096 :: u64)) (take put d) (content b) \<and> put \<le> length d \<and>
      (wok \<longrightarrow> put = length d)"
    by (rule cow_write_exact_correct [OF Cons.prems(1) _ _ _ _ w])
      (use i4 d Cons.prems(2,3) in \<open>simp_all add: ui\<close>)
  have l1: "length (content b1) = n * 4096"
    using wr i4 d Cons.prems(2) by (simp add: ui)
  have e: "replay_records (length (r # recs)) f sz wr b =
      (if \<not> wok then (COW_IO, b1) else replay_records (length recs) g sz wr b1)"
    using g(2) by (simp add: w del: replay_records.simps)
  show ?case
  proof (cases wok)
    case False
    then show ?thesis using Cons.prems(7) l1 unfolding e by simp
  next
    case True
    then have e': "replay_records (length recs) g sz wr b1 = (st, b')" using Cons.prems(7) unfolding e by simp
    have c1: "content b1 = splice (i * 4096) d (content b)" using wr True by (simp add: ui)
    note IH = Cons.IH [OF Cons.prems(1) l1 Cons.prems(3,4) _ g(1) e']
    have same: "block_of (content b1) i = d"
      unfolding c1 by (rule block_of_splice_same [OF Cons.prems(2) i d])
    have other: "block_of (content b1) j = block_of (content b) j" if "j < n" "j \<noteq> i" for j
    proof -
      have "(i * 4096 + length d - 1) div 4096 = i" using d by simp
      then show ?thesis
        unfolding c1 using block_of_splice_other [OF Cons.prems(2) that(1), of "i * 4096" d] i4 d that(2) Cons.prems(2)
        by force
    qed
    show ?thesis
    proof (intro conjI impI allI ballI)
      show "st \<in> {COW_OK, COW_IO}" "length (content b') = n * 4096" using IH Cons.prems(5) by auto
      fix j assume s: "st = COW_OK"
      show "block_of (content b') j = block_of (content b) j" if "j < n" "j \<notin> fst ` set (r # recs)"
        using IH Cons.prems(5) s that other [of j] r by auto
      fix snap assume j: "j \<in> fst ` set (r # recs)" and sn: "\<forall>r \<in> set (r # recs). snd r = block_of snap (fst r)"
      show "block_of (content b') j = block_of snap j"
      proof (cases "j \<in> fst ` set recs")
        case True
        then show ?thesis using IH Cons.prems(5) s sn by auto
      next
        case False
        then have "j = i" using j r by auto
        then show ?thesis using IH Cons.prems(5) s sn False same i r by auto
      qed
    qed
  qed
qed

lemma cow_inv_sizes:
  assumes "cow_inv content snap cow b recs tail"
  shows "unat (image_size cow) = unat (block_count cow) * 4096" "length (content b) = unat (image_size cow)"
    "length snap = unat (image_size cow)"
proof -
  have "image_size cow = block_count cow * 4096" "unat (block_count cow) * 4096 < 2 ^ 64"
      "length (content b) = unat (block_count cow) * 4096" "length snap = unat (block_count cow) * 4096"
    using assms unfolding cow_inv_def by simp_all
  then show "unat (image_size cow) = unat (block_count cow) * 4096" "length (content b) = unat (image_size cow)"
      "length snap = unat (image_size cow)"
    by (simp_all add: unat_word_ariths(2))
qed

lemma replay_restores:
  assumes "cow_inv content snap cow b recs tail" "f_bytes f = f_bytes (overlay cow)"
    and "content w = content b" "writer_contract content wr" "blk_write_at onto = Some wr"
    and "blk_size onto = image_size cow" "\<And>fl b. blk_flush onto = Some fl \<Longrightarrow> content (snd (fl b)) = content b"
    and "vm_cow_replay (Some f) onto mem_ok w = (st, w')"
  shows "st \<in> {COW_OK, COW_IO, COW_TRUNCATED, COW_OUT_OF_MEMORY} \<and> (st = COW_OK \<longrightarrow> content w' = snap) \<and>
    (tail \<noteq> [] \<longrightarrow> st = COW_TRUNCATED \<and> w' = w)"
proof -
  let ?n = "unat (block_count cow)"
  note inv = assms(1) [unfolded cow_inv_def]
  note sz = cow_inv_sizes [OF assms(1)]
  let ?h = "cow_header (image_size cow)" and ?f = "f\<lparr>f_pos := 32\<rparr>"
  have fb: "f_bytes f = ?h @ concat (map record_bytes recs) @ tail" using inv assms(2) by simp
  have rl: "\<forall>r \<in> set recs. fst r < ?n \<and> length (snd r) = VM_COW_BLOCK_BYTES"
    using inv length_block_of [of snap ?n] by auto
  have lr: "length (concat (map record_bytes recs)) = length recs * VM_COW_RECORD_BYTES"
    by (rule length_records) (use rl in blast)
  have rd: "f_read (f_seek f 0) VM_COW_HEADER_BYTES = (?h, ?f)"
    by (simp add: f_read_def f_seek_def fb Let_def)
  have body: "f_end ?f - VM_COW_HEADER_BYTES = length recs * VM_COW_RECORD_BYTES + length tail"
    by (simp add: f_end_def fb lr)
  have lt: "length tail < VM_COW_RECORD_BYTES" using inv by simp
  have m: "(f_end ?f - VM_COW_HEADER_BYTES) mod VM_COW_RECORD_BYTES = length tail"
      "(f_end ?f - VM_COW_HEADER_BYTES) div VM_COW_RECORD_BYTES = length recs" if "True"
    unfolding body using lt by simp_all
  show ?thesis
  proof (cases "tail = [] \<and> mem_ok")
    case False
    then show ?thesis
      using assms(8) header_fields [of "image_size cow"] m
      by (auto simp: vm_cow_replay_def assms(5,6) rd Let_def split: if_splits)
  next
    case True
    obtain rs b1 where r: "replay_records (length recs) (f_seek ?f 32) (image_size cow) wr w = (rs, b1)" by force
    have c: "rs \<in> {COW_OK, COW_IO} \<and> length (content b1) = ?n * 4096 \<and>
      (rs = COW_OK \<longrightarrow> (\<forall>i < ?n. i \<notin> fst ` set recs \<longrightarrow> block_of (content b1) i = block_of (content w) i) \<and>
       (\<forall>i \<in> fst ` set recs. \<forall>snap. (\<forall>r \<in> set recs. snd r = block_of snap (fst r)) \<longrightarrow>
          block_of (content b1) i = block_of snap i))"
      by (rule replay_records_correct [OF assms(4) _ _ sz(1) rl _ r])
        (use inv sz assms(3) True fb in \<open>simp_all add: f_seek_def\<close>)
    have snap: "content b1 = snap" if "rs = COW_OK"
    proof (rule blocks_eq [of _ ?n])
      show "length (content b1) = ?n * 4096" "length snap = ?n * 4096" using c inv by simp_all
      fix i assume i: "i < ?n"
      show "block_of (content b1) i = block_of snap i"
        using c that inv i assms(3) by (cases "i \<in> fst ` set recs") auto
    qed
    show ?thesis
      using assms(7) [of _ b1] assms(8) header_fields [of "image_size cow"] m True c snap
      by (auto simp: vm_cow_replay_def assms(5,6) rd Let_def r split: if_splits option.splits prod.splits)
  qed
qed

subsection \<open>Opening starts or resumes the recording\<close>

lemma count_blocks:
  assumes "(sz :: u64) mod 4096 = 0"
  shows "unat (sz div 4096) * 4096 = unat sz" "sz = sz div 4096 * 4096"
    "unat (sz div 4096) \<le> 8 * unat ((sz div 4096 + 7) div 8)"
proof -
  have e: "unat (4096 :: u64) = 4096" "unat (8 :: u64) = 8" by simp_all
  have "unat (sz mod 4096) = 0" using assms by simp
  then have "unat sz mod 4096 = 0" unfolding unat_mod e .
  then show u: "unat (sz div 4096) * 4096 = unat sz" unfolding unat_div e by (metis mod_0_imp_dvd dvd_div_mult_self)
  show "sz = sz div 4096 * 4096" using assms by (metis add.right_neutral div_mult_mod_eq word_mod_div_equality)
  have lt: "unat (sz div 4096) + 7 < 2 ^ 64"
    using u unsigned_less [where 'a=nat, of sz] by simp
  have "unat (sz div 4096 + 7) = unat (sz div 4096) + 7"
    using unat_offset [of "sz div 4096" 7] lt by simp
  then have "unat ((sz div 4096 + 7) div 8) = (unat (sz div 4096) + 7) div 8" unfolding unat_div e by simp
  then show "unat (sz div 4096) \<le> 8 * unat ((sz div 4096 + 7) div 8)" by simp
qed

lemma open_fresh_inv:
  assumes "reader_contract content rd" "writer_contract content wr" "blk_read_at u = Some rd" "blk_write_at u = Some wr"
    and "length (content b) = unat (blk_size u)"
    and "vm_cow_open (Some u) None created mem_ok = (COW_OK, Some cow)"
  shows "cow_inv content (content b) cow b [] [] \<and> image_size cow = blk_size u"
proof -
  let ?count = "blk_size u div 4096"
  have m: "blk_size u mod 4096 = 0" using assms(3,4,6) by (auto simp: vm_cow_open_def split: if_splits)
  obtain f where cr: "created = Some f"
    using assms(3,4,6) by (cases created) (auto simp: vm_cow_open_def Let_def split: if_splits)
  obtain n g where w: "f_write (f\<lparr>f_bytes := [], f_pos := 0\<rparr>) (cow_header (blk_size u)) = (n, g)" by force
  have fb: "f_bytes g = take n (cow_header (blk_size u)) \<and> f_pos g = length (f_bytes g) \<and> n \<le> 32"
    using f_write_end [OF _ w] by simp
  have n: "n = 32" using assms(3,4,6) cr w by (auto simp: vm_cow_open_def Let_def split: if_splits)
  have cow: "cow = \<lparr>under_read_at = rd, under_write_at = wr, under_flush = blk_flush u, overlay = f_seek g (f_end g),
      overlay_bytes = 32, image_size = blk_size u, block_count = ?count,
      saved = replicate (unat ((?count + 7) div 8)) 0, scratch = replicate VM_COW_BLOCK_BYTES 0, poisoned = False\<rparr>"
    using assms(3,4,6) cr w by (auto simp: vm_cow_open_def Let_def split: if_splits)
  have m': "blk_size u mod 4096 = 0" by (rule m)
  note c = count_blocks [OF m']
  show ?thesis
    using assms(1,2,5) c n fb unsigned_less [where 'a=nat, of "blk_size u"]
    unfolding cow by (auto simp: cow_inv_def f_seek_def f_end_def)
qed

lemma drop_records:
  assumes "\<forall>r \<in> set recs. length (snd r) = VM_COW_BLOCK_BYTES" "i \<le> length recs"
  shows "drop (i * VM_COW_RECORD_BYTES) (concat (map record_bytes recs)) = concat (map record_bytes (drop i recs))"
  using assms
proof (induction i arbitrary: recs)
  case 0
  then show ?case by simp
next
  case (Suc i)
  then obtain r rs where r: "recs = r # rs" by (cases recs) auto
  then have "length (record_bytes r) = VM_COW_RECORD_BYTES"
    using Suc.prems(1) by (simp add: record_bytes_def)
  then show ?case using Suc r by simp
qed

lemma index_records_correct:
  assumes "f_bytes (overlay c) = cow_header sz @ concat (map record_bytes recs)"
    and "\<forall>r \<in> set recs. fst r < unat (block_count c) \<and> length (snd r) = VM_COW_BLOCK_BYTES"
    and "unat (block_count c) \<le> 8 * length (saved c)" "i + n = length recs"
  shows "\<exists>c'. index_records c i n = (COW_OK, c') \<and> c' = c\<lparr>overlay := overlay c', saved := saved c'\<rparr> \<and>
    f_bytes (overlay c') = f_bytes (overlay c) \<and> length (saved c') = length (saved c) \<and>
    (\<forall>j < unat (block_count c). bit_get (saved c') j \<longleftrightarrow> bit_get (saved c) j \<or> j \<in> fst ` set (drop i recs))"
  using assms
proof (induction n arbitrary: c i)
  case 0
  then show ?case by simp
next
  case (Suc n)
  have il: "i < length recs" using Suc.prems(4) by simp
  obtain k d where r: "recs ! i = (k, d)" by force
  have kd: "k < unat (block_count c)" "length d = VM_COW_BLOCK_BYTES"
    using Suc.prems(2) nth_mem [OF il] unfolding r by auto
  have dr: "drop i recs = (k, d) # drop (Suc i) recs" using Cons_nth_drop_Suc [OF il] r by simp
  have "drop (32 + i * VM_COW_RECORD_BYTES) (f_bytes (overlay c)) = record_bytes (k, d) @ concat (map record_bytes (drop (Suc i) recs))"
    using drop_records [of recs i] Suc.prems(2) il unfolding Suc.prems(1) by (simp add: dr)
  then have rd: "f_read (f_seek (overlay c) (32 + i * VM_COW_RECORD_BYTES)) 8 =
      (put_le64 (of_nat k), (overlay c)\<lparr>f_pos := 32 + i * VM_COW_RECORD_BYTES + 8\<rparr>)"
    by (simp add: f_read_def f_seek_def Let_def record_bytes_def)
  let ?f = "(overlay c)\<lparr>f_pos := 32 + i * VM_COW_RECORD_BYTES + 8\<rparr>"
  let ?c = "c\<lparr>overlay := ?f, saved := bit_set (saved c) k\<rparr>"
  have g: "get_le64 (put_le64 (of_nat k)) = of_nat k" using get_put_le64 [of "of_nat k" "[]"] by simp
  have uk: "unat (of_nat k :: u64) = k"
    using kd(1) unsigned_less [where 'a=nat, of "block_count c"] by (simp add: unat_of_nat)
  have e: "index_records c i (Suc n) = index_records ?c (i + 1) n"
    using kd(1) by (simp add: rd g uk word_le_nat_alt Let_def)
  have bits: "bit_get (bit_set (saved c) k) j \<longleftrightarrow> k = j \<or> bit_get (saved c) j" if "j < unat (block_count c)" for j
    by (rule bit_get_set) (use kd(1) that Suc.prems(3) in linarith)+
  have "\<exists>c'. index_records ?c (i + 1) n = (COW_OK, c') \<and> c' = ?c\<lparr>overlay := overlay c', saved := saved c'\<rparr> \<and>
    f_bytes (overlay c') = f_bytes (overlay ?c) \<and> length (saved c') = length (saved ?c) \<and>
    (\<forall>j < unat (block_count ?c). bit_get (saved c') j \<longleftrightarrow> bit_get (saved ?c) j \<or> j \<in> fst ` set (drop (i + 1) recs))"
    by (rule Suc.IH) (use Suc.prems in simp_all)
  then show ?case unfolding e using bits by (auto simp: dr)
qed

lemma open_existing_inv:
  assumes "cow_inv content snap cow b recs []" "f_bytes f = f_bytes (overlay cow)"
    and "reader_contract content rd" "writer_contract content wr" "blk_read_at u = Some rd" "blk_write_at u = Some wr"
    and "blk_size u = image_size cow" "blk_size u \<noteq> 0" "content b' = content b"
  shows "\<exists>cow'. vm_cow_open (Some u) (Some f) created True = (COW_OK, Some cow') \<and>
    cow_inv content snap cow' b' recs [] \<and> image_size cow' = image_size cow"
proof -
  let ?n = "unat (block_count cow)"
  note inv = assms(1) [unfolded cow_inv_def]
  have sz: "image_size cow = block_count cow * 4096" using inv by simp
  have u4: "unat (block_count cow * 4096) = ?n * 4096" using cow_inv_sizes(1) [OF assms(1)] sz by simp
  have m: "blk_size u mod 4096 = 0" unfolding assms(7) sz by (rule word_unat_eq_iff [THEN iffD2]) (simp add: unat_mod u4)
  have bc: "blk_size u div 4096 = block_count cow"
    unfolding assms(7) sz by (rule word_unat_eq_iff [THEN iffD2]) (simp add: unat_div u4)
  have rl: "\<forall>r \<in> set recs. fst r < ?n \<and> length (snd r) = VM_COW_BLOCK_BYTES"
    using inv length_block_of [of snap ?n] by auto
  have fb: "f_bytes f = cow_header (blk_size u) @ concat (map record_bytes recs)" using inv assms(2,7) by simp
  have lr: "length (concat (map record_bytes recs)) = length recs * VM_COW_RECORD_BYTES"
    by (rule length_records) (use rl in blast)
  let ?f = "f\<lparr>f_pos := 32\<rparr>"
  have rd: "f_read (f_seek f 0) VM_COW_HEADER_BYTES = (cow_header (blk_size u), ?f)"
    by (simp add: f_read_def f_seek_def fb Let_def)
  let ?g = "f_seek ?f (f_end ?f)"
  let ?c = "\<lparr>under_read_at = rd, under_write_at = wr, under_flush = blk_flush u, overlay = ?g,
      overlay_bytes = 0, image_size = blk_size u, block_count = block_count cow,
      saved = replicate (unat ((block_count cow + 7) div 8)) 0, scratch = replicate VM_COW_BLOCK_BYTES 0, poisoned = False\<rparr>"
  have cap: "?n \<le> 8 * unat ((block_count cow + 7) div 8)" using count_blocks(3) [OF m] unfolding bc .
  obtain c' where c': "index_records ?c 0 (length recs) = (COW_OK, c')" "c' = ?c\<lparr>overlay := overlay c', saved := saved c'\<rparr>"
      "f_bytes (overlay c') = f_bytes f" "length (saved c') = unat ((block_count cow + 7) div 8)"
      "\<forall>j < ?n. bit_get (saved c') j \<longleftrightarrow> j \<in> fst ` set recs"
    using index_records_correct [of ?c "blk_size u" recs 0 "length recs"] fb rl cap by (auto simp: f_seek_def)
  have fe: "f_end ?f = 32 + length recs * VM_COW_RECORD_BYTES" by (simp add: f_end_def fb lr)
  have ix: "index_existing \<lparr>under_read_at = rd, under_write_at = wr, under_flush = blk_flush u, overlay = ?f,
      overlay_bytes = 0, image_size = blk_size u, block_count = block_count cow,
      saved = replicate (unat ((block_count cow + 7) div 8)) 0, scratch = replicate VM_COW_BLOCK_BYTES 0, poisoned = False\<rparr>
      = (COW_OK, c'\<lparr>overlay_bytes := of_nat (f_end ?f)\<rparr>)"
    using c'(1) by (simp add: index_existing_def Let_def fe)
  have sel: "under_read_at c' = rd" "under_write_at c' = wr" "image_size c' = blk_size u" "block_count c' = block_count cow"
      "scratch c' = replicate VM_COW_BLOCK_BYTES 0" "poisoned c' = False"
    using arg_cong [OF c'(2), of under_read_at] arg_cong [OF c'(2), of under_write_at] arg_cong [OF c'(2), of image_size]
      arg_cong [OF c'(2), of block_count] arg_cong [OF c'(2), of scratch] arg_cong [OF c'(2), of poisoned] by simp_all
  let ?r = "c'\<lparr>overlay_bytes := of_nat (f_end ?f), overlay := f_seek (overlay c') (f_end (overlay c'))\<rparr>"
  have "vm_cow_open (Some u) (Some f) created True = (COW_OK, Some ?r)"
    using m header_fields [of "blk_size u"] ix assms(8)
    by (simp add: vm_cow_open_def Let_def assms(5,6) rd bc)
  moreover have "cow_inv content snap ?r b' recs []"
    using inv c'(3,4,5) assms(3,4,7,9) fb cap rl
    unfolding cow_inv_def by (simp add: sel f_seek_def f_end_def)
  moreover have "image_size ?r = image_size cow" by (simp add: sel assms(7))
  ultimately show ?thesis by blast
qed

subsection \<open>Restoring\<close>

text \<open>A device that neither fails nor stalls: every write inside the medium stores something.\<close>

definition steady :: "('b \<Rightarrow> u8 list) \<Rightarrow> 'b write_at \<Rightarrow> bool" where
  "steady content wr \<longleftrightarrow>
     (\<forall>b off src. unat off + length src \<le> length (content b) \<and> src \<noteq> [] \<longrightarrow>
        (case wr b off src of (st, k, b') \<Rightarrow> st = VM_IO_OK \<and> k \<noteq> 0))"

lemma cow_write_exact_steady:
  assumes "writer_contract content wr" "steady content wr" "unat offset + length src \<le> length (content b)"
    and "length (content b) < 2 ^ 64" "put \<le> length src"
  shows "fst (cow_write_exact wr offset src put stalls b)"
  using assms
proof (induction wr offset src put stalls b rule: cow_write_exact.induct)
  case (1 wr offset src put stalls b)
  show ?case
  proof (cases "put < length src")
    case False
    then show ?thesis by (simp add: cow_write_exact.simps)
  next
    case True
    obtain io k b2 where r: "wr b (offset + of_nat put) (drop put src) = (io, k, b2)"
      by (cases "wr b (offset + of_nat put) (drop put src)") auto
    have o: "unat (offset + of_nat put) = unat offset + put"
      by (rule unat_offset) (use "1.prems"(3,4,5) in linarith)
    have fit: "unat (offset + of_nat put) + length (drop put src) \<le> length (content b)"
      unfolding o length_drop using "1.prems"(3) True by linarith
    note k = writerD [OF "1.prems"(1) r fit, unfolded o]
    have ne: "drop put src \<noteq> []" using True by simp
    have s: "io = VM_IO_OK" "k \<noteq> 0"
      using "1.prems"(2) r fit ne unfolding steady_def by (fastforce dest: spec [of _ b])+
    have kl: "put + k \<le> length src" using k(2) True unfolding length_drop by linarith
    have "unat offset + put + length (take k (drop put src)) \<le> length (content b)"
      using kl "1.prems"(3) by simp
    then have lc: "length (content b2) = length (content b)" unfolding k(4) by simp
    note IH = "1.IH"(2) [OF _ refl r [symmetric] refl _ _ "1.prems"(1,2) _ _ kl, unfolded lc]
    show ?thesis
      using True s IH "1.prems"(3,4) by (subst cow_write_exact.simps) (simp add: r Let_def)
  qed
qed

lemma replay_records_steady:
  assumes "writer_contract content wr" "steady content wr" "length (content b) = n * 4096" "n * 4096 < 2 ^ 64" "unat sz = n * 4096"
    and "\<forall>r \<in> set recs. fst r < n \<and> length (snd r) = VM_COW_BLOCK_BYTES"
    and "drop (f_pos f) (f_bytes f) = concat (map record_bytes recs)"
  shows "fst (replay_records (length recs) f sz wr b) = COW_OK"
  using assms
proof (induction recs arbitrary: f b)
  case Nil
  then show ?case by simp
next
  case (Cons r recs)
  obtain i d where r: "r = (i, d)" by force
  have i: "i < n" and d: "length d = VM_COW_BLOCK_BYTES" using Cons.prems(6) r by auto
  have i4: "i * 4096 + 4096 \<le> n * 4096" using i mult_le_mono1 [of "Suc i" n 4096] by simp
  note ui = unat_block_index [OF i Cons.prems(4)]
  obtain g where g: "drop (f_pos g) (f_bytes g) = concat (map record_bytes recs)"
      "replay_records (Suc (length recs)) f sz wr b =
        (case cow_write_exact wr (of_nat i * 4096) d 0 0 b of (ok, put, b) \<Rightarrow>
           if \<not> ok then (COW_IO, b) else replay_records (length recs) g sz wr b)"
    using replay_step [OF _ d i Cons.prems(4,5), of f "concat (map record_bytes recs)" "length recs" wr b] Cons.prems(7) r
    by (auto simp del: replay_records.simps)
  obtain wok put b1 where w: "cow_write_exact wr (of_nat i * 4096) d 0 0 b = (wok, put, b1)"
    by (cases "cow_write_exact wr (of_nat i * 4096) d 0 0 b") auto
  have wok: "wok"
    using cow_write_exact_steady [OF Cons.prems(1,2), of "of_nat i * 4096" d b 0 0] w i4 d Cons.prems(3,4)
    by (simp add: ui)
  have wr: "content b1 = splice (unat (of_nat i * 4096 :: u64)) (take put d) (content b) \<and> put \<le> length d \<and>
      (wok \<longrightarrow> put = length d)"
    by (rule cow_write_exact_correct [OF Cons.prems(1) _ _ _ _ w])
      (use i4 d Cons.prems(3,4) in \<open>simp_all add: ui\<close>)
  have l1: "length (content b1) = n * 4096" using wr i4 d Cons.prems(3) by (simp add: ui)
  show ?case
    using Cons.IH [OF Cons.prems(1,2) l1 Cons.prems(4,5) _ g(1)] Cons.prems(6) g(2) wok
    by (simp add: w del: replay_records.simps)
qed

lemma replay_steady:
  assumes "cow_inv content snap cow b recs []" "f_bytes f = f_bytes (overlay cow)"
    and "content w = content b" "writer_contract content wr" "steady content wr" "blk_write_at onto = Some wr"
    and "blk_size onto = image_size cow" "\<And>fl b. blk_flush onto = Some fl \<Longrightarrow> fst (fl b) = VM_IO_OK"
  shows "fst (vm_cow_replay (Some f) onto True w) = COW_OK"
proof -
  let ?n = "unat (block_count cow)"
  note inv = assms(1) [unfolded cow_inv_def]
  note sz = cow_inv_sizes [OF assms(1)]
  have fb: "f_bytes f = cow_header (image_size cow) @ concat (map record_bytes recs)" using inv assms(2) by simp
  have rl: "\<forall>r \<in> set recs. fst r < ?n \<and> length (snd r) = VM_COW_BLOCK_BYTES"
    using inv length_block_of [of snap ?n] by auto
  have lr: "length (concat (map record_bytes recs)) = length recs * VM_COW_RECORD_BYTES"
    by (rule length_records) (use rl in blast)
  let ?f = "f\<lparr>f_pos := 32\<rparr>"
  have rd: "f_read (f_seek f 0) VM_COW_HEADER_BYTES = (cow_header (image_size cow), ?f)"
    by (simp add: f_read_def f_seek_def fb Let_def)
  have "fst (replay_records (length recs) (f_seek ?f 32) (image_size cow) wr w) = COW_OK"
    by (rule replay_records_steady [OF assms(4,5) _ _ sz(1) rl]) (use inv sz assms(3) fb in \<open>simp_all add: f_seek_def\<close>)
  moreover have "st = VM_IO_OK" if "blk_flush onto = Some fl" "fl b = (st, b')" for fl b st b'
    using assms(8) [OF that(1), of b] that(2) by simp
  ultimately show ?thesis
    using header_fields [of "image_size cow"]
    by (auto simp: vm_cow_replay_def assms(6,7) rd Let_def f_end_def fb lr split: option.splits prod.splits)
qed

lemma open_existing_torn:
  assumes "cow_inv content snap cow b recs tail" "f_bytes f = f_bytes (overlay cow)" "tail \<noteq> []"
    and "vm_cow_open (Some u) (Some f) created mem_ok = (st, c)" "blk_size u = image_size cow"
  shows "st \<noteq> COW_OK"
proof -
  let ?n = "unat (block_count cow)"
  note inv = assms(1) [unfolded cow_inv_def]
  have fb: "f_bytes f = cow_header (blk_size u) @ concat (map record_bytes recs) @ tail" using inv assms(2,5) by simp
  have rl: "\<forall>r \<in> set recs. length (snd r) = VM_COW_BLOCK_BYTES" using inv length_block_of [of snap ?n] by auto
  let ?f = "f\<lparr>f_pos := 32\<rparr>"
  have rd: "f_read (f_seek f 0) VM_COW_HEADER_BYTES = (cow_header (blk_size u), ?f)"
    by (simp add: f_read_def f_seek_def fb Let_def)
  have "(f_end ?f - VM_COW_HEADER_BYTES) mod VM_COW_RECORD_BYTES \<noteq> 0" "\<not> f_end ?f < VM_COW_HEADER_BYTES"
    using inv assms(3) by (simp_all add: f_end_def fb length_records [OF rl])
  then show ?thesis
    using assms(4) by (auto simp: vm_cow_open_def rd index_existing_def Let_def split: if_splits option.splits prod.splits)
qed

text \<open>
  The life of one snapshot: requests, then any number of restarts (the overlay reopened, with whatever
  room the host then has) each followed by more requests. \<open>None\<close> is a restart that was refused.
\<close>

fun cow_sessions ::
  "'b vm_block \<Rightarrow> ('b vm_cow \<times> 'b) cancel \<Rightarrow> (u64 \<times> u8 list) list \<Rightarrow> (nat \<times> (u64 \<times> u8 list) list) list \<Rightarrow>
   'b vm_cow \<times> 'b \<Rightarrow> ('b vm_cow \<times> 'b) option" where
  "cow_sessions u cancelled reqs [] cw = Some (foldl (cow_request cancelled) cw reqs)"
| "cow_sessions u cancelled reqs ((room, reqs') # ss) cw =
     (case foldl (cow_request cancelled) cw reqs of (cow, b) \<Rightarrow>
        case vm_cow_open (Some u) (Some ((overlay cow)\<lparr>f_room := room\<rparr>)) None True of
          (st, Some cow) \<Rightarrow> if st = COW_OK then cow_sessions u cancelled reqs' ss (cow, b) else None
        | _ \<Rightarrow> None)"

lemma requests_inv:
  assumes "\<exists>recs tail. cow_inv content snap (fst cw) (snd cw) recs tail" "\<And>cw. snd (poll cancelled cw) = cw"
    and "\<forall>r \<in> set reqs. length (snd r) < 2 ^ 64"
  shows "(\<exists>recs tail. cow_inv content snap (fst (foldl (cow_request cancelled) cw reqs))
      (snd (foldl (cow_request cancelled) cw reqs)) recs tail) \<and> same_device (fst cw) (fst (foldl (cow_request cancelled) cw reqs))"
  using assms(1,3)
proof (induction reqs arbitrary: cw)
  case Nil
  then show ?case by simp
next
  case (Cons r reqs)
  then have "(\<exists>recs tail. cow_inv content snap (fst (cow_request cancelled cw r)) (snd (cow_request cancelled cw r)) recs tail) \<and>
    same_device (fst cw) (fst (cow_request cancelled cw r))"
    using cow_request_inv [OF _ assms(2)] by simp
  then show ?case using Cons.IH [of "cow_request cancelled cw r"] Cons.prems(2) same_device_trans by fastforce
qed

text \<open>The device underneath: it keeps the block contract and its flush does not change the medium.\<close>

definition good_device :: "('b \<Rightarrow> u8 list) \<Rightarrow> 'b vm_block \<Rightarrow> bool" where
  "good_device content u \<longleftrightarrow>
     (\<exists>rd wr. blk_read_at u = Some rd \<and> blk_write_at u = Some wr \<and>
        reader_contract content rd \<and> writer_contract content wr) \<and>
     (\<forall>fl b. blk_flush u = Some fl \<longrightarrow> content (snd (fl b)) = content b) \<and> blk_size u \<noteq> 0"

lemma sessions_inv:
  assumes "good_device content u" "\<exists>recs tail. cow_inv content snap (fst cw) (snd cw) recs tail" "image_size (fst cw) = blk_size u"
    and "\<And>cw. snd (poll cancelled cw) = cw" "\<forall>r \<in> set reqs \<union> (\<Union>s \<in> set ss. set (snd s)). length (snd r) < 2 ^ 64"
    and "cow_sessions u cancelled reqs ss cw = Some (cow1, b1)"
  shows "(\<exists>recs tail. cow_inv content snap cow1 b1 recs tail) \<and> image_size cow1 = blk_size u"
  using assms(2,3,5,6)
proof (induction ss arbitrary: reqs cw)
  case Nil
  have "\<forall>r \<in> set reqs. length (snd r) < 2 ^ 64" using Nil.prems(3) by simp
  from requests_inv [OF Nil.prems(1) assms(4) this] Nil.prems(2,4) show ?case by (simp add: same_device_def)
next
  case (Cons s ss)
  obtain room reqs' where s: "s = (room, reqs')" by force
  obtain cow b where f: "foldl (cow_request cancelled) cw reqs = (cow, b)" by force
  have r: "\<forall>r \<in> set reqs. length (snd r) < 2 ^ 64" using Cons.prems(3) by simp
  obtain recs tail where i: "cow_inv content snap cow b recs tail" and sz: "image_size cow = blk_size u"
    using requests_inv [OF Cons.prems(1) assms(4) r] Cons.prems(2) f by (auto simp: same_device_def)
  let ?f = "(overlay cow)\<lparr>f_room := room\<rparr>"
  obtain c where o: "vm_cow_open (Some u) (Some ?f) None True = (COW_OK, Some c)" and
      rest: "cow_sessions u cancelled reqs' ss (c, b) = Some (cow1, b1)"
    using Cons.prems(4) s f by (auto split: option.splits prod.splits if_splits)
  have fb: "f_bytes ?f = f_bytes (overlay cow)" by simp
  have t: "tail = []" using open_existing_torn [OF i fb _ o sz [symmetric]] by blast
  obtain rd wr where d: "blk_read_at u = Some rd" "blk_write_at u = Some wr" "reader_contract content rd" "writer_contract content wr"
    using assms(1) unfolding good_device_def by blast
  have "blk_size u \<noteq> 0" using assms(1) by (simp add: good_device_def)
  from open_existing_inv [OF i [unfolded t] fb d(3,4,1,2) sz [symmetric] this refl, of None] o sz
  have c: "cow_inv content snap c b recs []" "image_size c = blk_size u" by auto
  show ?case
    by (rule Cons.IH [OF _ _ _ rest]) (use c Cons.prems(3) s in auto)
qed

lemma restore_life:
  assumes "good_device content u" "length (content b) = unat (blk_size u)" "\<And>cw. snd (poll cancelled cw) = cw"
    and "vm_cow_open (Some u) None created mem_ok = (COW_OK, Some cow)"
    and "\<forall>r \<in> set reqs \<union> (\<Union>s \<in> set ss. set (snd s)). length (snd r) < 2 ^ 64"
    and "cow_sessions u cancelled reqs ss (cow, b) = Some (cow1, b1)"
    and "content w = content b1" "vm_cow_replay (Some (overlay cow1)) u mem w = (st, w')"
  shows "st \<in> {COW_OK, COW_IO, COW_TRUNCATED, COW_OUT_OF_MEMORY} \<and> (st = COW_OK \<longrightarrow> content w' = content b) \<and>
    (\<not> poisoned cow1 \<and> mem \<and> (\<forall>wr. blk_write_at u = Some wr \<longrightarrow> steady content wr) \<and>
     (\<forall>fl b. blk_flush u = Some fl \<longrightarrow> fst (fl b) = VM_IO_OK) \<longrightarrow> st = COW_OK)"
proof -
  obtain rd wr where d: "blk_read_at u = Some rd" "blk_write_at u = Some wr" "reader_contract content rd" "writer_contract content wr"
    using assms(1) unfolding good_device_def by blast
  have fl: "content (snd (fl b)) = content b" if "blk_flush u = Some fl" for fl b
    using assms(1) that unfolding good_device_def by blast
  have o: "cow_inv content (content b) cow b [] []" "image_size cow = blk_size u"
    using open_fresh_inv [OF d(3,4,1,2) assms(2,4)] by simp_all
  have e: "\<exists>recs tail. cow_inv content (content b) (fst (cow, b)) (snd (cow, b)) recs tail"
      "image_size (fst (cow, b)) = blk_size u" using o by auto
  obtain recs tail where inv: "cow_inv content (content b) cow1 b1 recs tail" and sz: "image_size cow1 = blk_size u"
    using sessions_inv [OF assms(1) e assms(3,5,6)] by blast
  have eq: "f_bytes (overlay cow1) = f_bytes (overlay cow1)" ..
  have r: "st \<in> {COW_OK, COW_IO, COW_TRUNCATED, COW_OUT_OF_MEMORY} \<and> (st = COW_OK \<longrightarrow> content w' = content b) \<and>
      (tail \<noteq> [] \<longrightarrow> st = COW_TRUNCATED \<and> w' = w)"
    by (rule replay_restores [where content = content, OF inv eq assms(7) d(4) d(2) sz [symmetric] _ assms(8)]) (rule fl)
  have "st = COW_OK" if "\<not> poisoned cow1" mem "steady content wr" "\<And>fl b. blk_flush u = Some fl \<Longrightarrow> fst (fl b) = VM_IO_OK"
  proof -
    have "tail = []" using inv that(1) unfolding cow_inv_def by simp
    then have "fst (vm_cow_replay (Some (overlay cow1)) u True w) = COW_OK"
      using replay_steady [where content = content, OF _ eq assms(7) d(4) that(3) d(2) sz [symmetric]] that(4) inv by blast
    then show ?thesis using assms(8) that(2) by simp
  qed
  then show ?thesis using r d(2) by auto
qed

subsection \<open>A disk of one block\<close>

text \<open>A medium held in a list of bytes, transferring whole requests, and a fresh overlay file.\<close>

definition ram_read :: "u8 list read_at" where
  "ram_read b off n = (VM_IO_OK, length (take n (drop (unat off) b)), take n (drop (unat off) b), b)"

definition ram_write :: "u8 list write_at" where
  "ram_write b off src = (VM_IO_OK, length src, splice (unat off) src b)"

definition ram_disk :: "u8 list vm_block" where
  "ram_disk = \<lparr>blk_size = 4096, blk_identity = 0, blk_generation = 0,
     blk_read_at = Some ram_read, blk_write_at = Some ram_write, blk_flush = None\<rparr>"

definition new_file :: ofile where
  "new_file = \<lparr>f_bytes = [], f_pos = 0, f_room = 10000, f_flush_ok = True\<rparr>"

definition demo_cow :: "u8 list vm_cow" where
  "demo_cow = \<lparr>under_read_at = ram_read, under_write_at = ram_write, under_flush = None,
     overlay = \<lparr>f_bytes = cow_header 4096, f_pos = 32, f_room = 9968, f_flush_ok = True\<rparr>,
     overlay_bytes = 32, image_size = 4096, block_count = 1, saved = [0], scratch = replicate 4096 0, poisoned = False\<rparr>"

lemma ram_contracts: "reader_contract id ram_read" "writer_contract id ram_write" "steady id ram_write"
  by (auto simp: reader_contract_def writer_contract_def steady_def ram_read_def ram_write_def)

lemma ram_good: "good_device id ram_disk"
  using ram_contracts by (simp add: good_device_def ram_disk_def)

lemma demo_open: "vm_cow_open (Some ram_disk) None (Some new_file) True = (COW_OK, Some demo_cow)"
  by (simp add: vm_cow_open_def ram_disk_def new_file_def f_write_def f_seek_def f_end_def demo_cow_def Let_def)

lemma demo_request:
  assumes "length m = 4096"
  shows "\<exists>c. cow_sessions ram_disk None [(5, [x])] [] (demo_cow, m) = Some (c, splice 5 [x] m) \<and> \<not> poisoned c"
proof -
  have rd: "ram_read m 0 4096 = (VM_IO_OK, 4096, m, m)" using assms by (simp add: ram_read_def)
  have sp: "splice 0 m (replicate 4096 0) = m" using assms by (simp add: splice_def)
  have re: "cow_read_exact ram_read 0 4096 (replicate 4096 0) 0 0 m = (True, m, m)"
    by (simp add: cow_read_exact.simps rd sp)
  have we: "cow_write_exact ram_write 5 [x] 0 0 m = (True, 1, splice 5 [x] m)"
    by (simp add: cow_write_exact.simps ram_write_def)
  have bg: "\<not> bit_get [0] 0" by (simp add: bit_get_def)
  obtain c where s: "cow_save_blocks [0] demo_cow m = (True, c, m)" "poisoned c = False" "under_write_at c = ram_write"
    using assms by (simp add: demo_cow_def bg re f_write_def Let_def)
  have w: "cow_write_at (demo_cow, m) 5 [x] = (VM_IO_OK, 1, c, splice 5 [x] m)"
    using s we by (simp add: cow_write_at_def Let_def) (simp add: demo_cow_def)
  have "vm_block_write_exact (Some (vm_cow_block demo_cow)) 5 (Some [x]) 1 None (demo_cow, m) = (BLOCK_OK, 1, c, splice 5 [x] m)"
    by (simp add: vm_block_write_exact_def vm_block_check_range_def vm_cow_block_def Let_def vm_block_write_loop.simps poll_def w)
      (simp add: demo_cow_def word_less_nat_alt)
  then show ?thesis using s by (simp add: cow_request_def)
qed

subsection \<open>The snapshot theorems\<close>



text \<open>
  Restoring an older snapshot: with overlay A recorded up to the moment B was taken, and B
  recorded after it, replaying the newest first (B, then A) restores the medium of A, passing through
  the medium of B.
\<close>

theorem snapshot_chain:
  assumes "good_device content u" "length (content b) = unat (blk_size u)" "\<And>cw. snd (poll cancelled cw) = cw"
    and "vm_cow_open (Some u) None fa True = (COW_OK, Some a)" "\<forall>r \<in> set ra. length (snd r) < 2 ^ 64"
    and "cow_sessions u cancelled ra [] (a, b) = Some (a1, b1)"
    and "vm_cow_open (Some u) None fb True = (COW_OK, Some c)" "\<forall>r \<in> set rc. length (snd r) < 2 ^ 64"
    and "cow_sessions u cancelled rc [] (c, b1) = Some (c1, b2)"
    and "vm_cow_replay (Some (overlay c1)) u True b2 = (COW_OK, b3)"
    and "vm_cow_replay (Some (overlay a1)) u True b3 = (COW_OK, b4)"
  shows "content b3 = content b1 \<and> content b4 = content b"
proof -
  have e: "\<exists>recs tail. cow_inv content (content b) (fst (a, b)) (snd (a, b)) recs tail" "image_size (fst (a, b)) = blk_size u"
    using open_fresh_inv [where content = content, OF _ _ _ _ assms(2,4)] assms(1) unfolding good_device_def by auto
  have la: "\<forall>r \<in> set ra \<union> (\<Union>s \<in> set []. set (snd s)). length (snd r) < 2 ^ 64"
      "\<forall>r \<in> set rc \<union> (\<Union>s \<in> set []. set (snd s)). length (snd r) < 2 ^ 64" using assms(5,8) by simp_all
  have "length (content b1) = unat (blk_size u)"
    using sessions_inv [OF assms(1) e assms(3) la(1) assms(6)] cow_inv_sizes(2) by metis
  from restore_life [where content = content, OF assms(1) this assms(3,7) la(2) assms(9) refl assms(10)]
  have "content b3 = content b1" by simp
  moreover from this have "content b4 = content b"
    using restore_life [OF assms(1-4) la(1) assms(6) _ assms(11)] by simp
  ultimately show ?thesis ..
qed

theorem snapshot_chain_witness:
  "\<exists>a c b3 b4. cow_sessions ram_disk None [(5, [7])] [] (demo_cow, replicate 4096 0) = Some (a, splice 5 [7] (replicate 4096 0)) \<and>
     cow_sessions ram_disk None [(5, [9])] [] (demo_cow, splice 5 [7] (replicate 4096 0)) =
       Some (c, splice 5 [9] (splice 5 [7] (replicate 4096 0))) \<and>
     vm_cow_replay (Some (overlay c)) ram_disk True (splice 5 [9] (splice 5 [7] (replicate 4096 0))) = (COW_OK, b3) \<and>
     vm_cow_replay (Some (overlay a)) ram_disk True b3 = (COW_OK, b4) \<and>
     b3 = splice 5 [7] (replicate 4096 0) \<and> b4 = replicate 4096 0"
proof -
  let ?m = "replicate 4096 (0 :: u8)" and ?m7 = "splice 5 [7] (replicate 4096 (0 :: u8))"
  have l: "length ?m = 4096" "length ?m7 = 4096" by simp_all
  obtain a where a: "cow_sessions ram_disk None [(5, [7])] [] (demo_cow, ?m) = Some (a, ?m7)" "\<not> poisoned a"
    using demo_request [OF l(1)] by blast
  obtain c where c: "cow_sessions ram_disk None [(5, [9])] [] (demo_cow, ?m7) = Some (c, splice 5 [9] ?m7)" "\<not> poisoned c"
    using demo_request [OF l(2)] by blast
  obtain s3 b3 where r3: "vm_cow_replay (Some (overlay c)) ram_disk True (splice 5 [9] ?m7) = (s3, b3)" by force
  obtain s4 b4 where r4: "vm_cow_replay (Some (overlay a)) ram_disk True b3 = (s4, b4)" by force
  have q: "length (id ?m) = unat (blk_size ram_disk)" "length (id ?m7) = unat (blk_size ram_disk)"
      "\<And>cw. snd (poll None cw) = cw" by (simp_all add: ram_disk_def poll_def)
  have s: "s3 = COW_OK" "id b3 = id ?m7"
    using restore_life [OF ram_good q(2,3) demo_open _ c(1) refl r3] c(2) ram_contracts by (simp_all add: ram_disk_def id_def)
  have s': "s4 = COW_OK"
    using restore_life [OF ram_good q(1,3) demo_open _ a(1) s(2) r4] a(2) ram_contracts by (simp add: ram_disk_def id_def)
  have "id b3 = id ?m7 \<and> id b4 = id ?m"
    using snapshot_chain [OF ram_good q(1,3) demo_open _ a(1) demo_open _ c(1)] r3 r4 s s' by simp
  then show ?thesis using a c r3 r4 s s' by auto
qed

subsection \<open>Two limits of the code\<close>

text \<open>A device that stores one byte and then fails, inside the block contract.\<close>

definition flaky_write :: "(u8 list \<times> bool) write_at" where
  "flaky_write b off src =
     (if snd b \<or> src = [] then (VM_IO_ERROR, 0, b)
      else (VM_IO_OK, 1, splice (unat off) (take 1 src) (fst b), True))"

definition flaky_disk :: "(u8 list \<times> bool) vm_block" where
  "flaky_disk = \<lparr>blk_size = 4096, blk_identity = 0, blk_generation = 0,
     blk_read_at = None, blk_write_at = Some flaky_write, blk_flush = None\<rparr>"

definition flaky_cow :: "(u8 list \<times> bool) vm_cow" where
  "flaky_cow = \<lparr>under_read_at = (\<lambda>b off n. (VM_IO_ERROR, 0, [], b)), under_write_at = flaky_write, under_flush = None,
     overlay = new_file, overlay_bytes = 32, image_size = 4096, block_count = 1, saved = [1], scratch = [], poisoned = False\<rparr>"

text \<open>
  C16. The facade reports progress together with an error, which the block contract forbids: on a
  device that keeps the contract, stores one byte and then fails, the facade returns ERROR with a count
  of one, so the block layer above it blames a protocol violation and reports no progress, where the
  same write on the device itself is a backend error after one byte.
\<close>

theorem facade_breaks_contract:
  "writer_contract fst flaky_write \<and>
   cow_write_at (flaky_cow, replicate 4096 0, False) 0 [1, 2] =
     (VM_IO_ERROR, 1, flaky_cow, splice 0 [1] (replicate 4096 0), True) \<and>
   vm_block_write_exact (Some (vm_cow_block flaky_cow)) 0 (Some [1, 2]) 2 None (flaky_cow, replicate 4096 0, False) =
     (BLOCK_PROTOCOL, 0, flaky_cow, splice 0 [1] (replicate 4096 0), True) \<and>
   vm_block_write_exact (Some flaky_disk) 0 (Some [1, 2]) 2 None (replicate 4096 0, False) =
     (BLOCK_BACKEND, 1, splice 0 [1] (replicate 4096 0), True)"
proof -
  have c: "writer_contract fst flaky_write"
    by (auto simp: writer_contract_def flaky_write_def Suc_le_eq)
  have bg: "bit_get [1] 0" by (simp add: bit_get_def)
  have we: "cow_write_exact flaky_write 0 [1, 2] 0 0 (m, False) = (False, 1, splice 0 [1] m, True)" for m
    by (simp add: cow_write_exact.simps flaky_write_def)
  have w: "cow_write_at (flaky_cow, m, False) 0 [1, 2] = (VM_IO_ERROR, 1, flaky_cow, splice 0 [1] m, True)" for m
    by (simp add: cow_write_at_def Let_def flaky_cow_def bg we)
  have "vm_block_write_exact (Some (vm_cow_block flaky_cow)) 0 (Some [1, 2]) 2 None (flaky_cow, m, False) =
     (BLOCK_PROTOCOL, 0, flaky_cow, splice 0 [1] m, True)" for m
    by (simp add: vm_block_write_exact_def vm_block_check_range_def vm_cow_block_def Let_def vm_block_write_loop.simps poll_def w)
      (simp add: flaky_cow_def word_less_nat_alt unsigned_minus_1_eq_mask mask_eq_exp_minus_1)
  moreover have "vm_block_write_exact (Some flaky_disk) 0 (Some [1, 2]) 2 None (m, False) =
     (BLOCK_BACKEND, 1, splice 0 [1] m, True)" for m
    by (simp add: vm_block_write_exact_def vm_block_check_range_def flaky_disk_def Let_def vm_block_write_loop.simps poll_def
        flaky_write_def word_less_nat_alt unsigned_minus_1_eq_mask mask_eq_exp_minus_1)
  ultimately show ?thesis using c w by blast
qed

text \<open>
  C17. Replay does not catch every block outside the disk: the byte offset of a record is formed modulo
  2^64, so block 2^52 passes the bounds check and is written over block 0.
\<close>

theorem replay_index_wraps:
  "vm_cow_replay (Some \<lparr>f_bytes = cow_header 4096 @ put_le64 0x10000000000000 @ replicate 4096 7, f_pos = 0,
      f_room = 0, f_flush_ok = True\<rparr>) ram_disk True (replicate 4096 0) = (COW_OK, replicate 4096 7)"
proof -
  let ?d = "replicate 4096 (7 :: u8)" and ?m = "replicate 4096 (0 :: u8)"
  have "splice 0 ?d ?m = ?d" by (simp add: splice_def)
  then have we: "cow_write_exact ram_write 0 ?d 0 0 ?m = (True, 4096, ?d)"
    by (simp add: cow_write_exact.simps ram_write_def)
  have h: "header_is_cow (cow_header 4096)" "get_le64 (drop 20 (cow_header 4096)) = 4096"
    using header_fields [of 4096] by simp_all
  have g: "get_le64 (put_le64 v) = v" for v using get_put_le64 [of v "[]"] by simp
  have z: "(18446744073709551616 :: u64) = 0" by (rule word_unat_eq_iff [THEN iffD2]) (simp add: unsigned_numeral take_bit_eq_mod)
  show ?thesis
    by (simp add: vm_cow_replay_def ram_disk_def f_read_def f_seek_def f_end_def Let_def h g z we)
qed

end
