(* ===== verification/Fifo.thy ===== *)
theory Fifo
  imports Prelude
begin

text \<open>
  Bounded queues. The C code holds three of them (touch reports, button edges, received serial bytes)
  as an array, the index of the oldest entry and a count; \<open>ring\<close> is the list such a triple stands for.
  The locale \<open>bounded_fifo\<close> is the contract the consumers rely on: entries come out in the order they
  were accepted, and a full queue may only replace its newest entry, when that entry and the new one
  are both superseded by anything newer.
\<close>

subsection \<open>Rings\<close>

definition ring :: "(nat \<Rightarrow> 'a) \<Rightarrow> nat \<Rightarrow> nat \<Rightarrow> nat \<Rightarrow> 'a list" where
  "ring slot head count cap = map (\<lambda>i. slot ((head + i) mod cap)) [0..<count]"

lemma length_ring [simp]: "length (ring slot head count cap) = count"
  by (simp add: ring_def)

lemma ring_empty [simp]: "ring slot head 0 cap = []"
  by (simp add: ring_def)

lemma mod_ring: "head < cap \<Longrightarrow> k < cap \<Longrightarrow> (head + k) mod cap = (if head + k < cap then head + k else head + k - cap :: nat)"
  by (simp add: mod_if)

lemma mod_ring_inj:
  "head < cap \<Longrightarrow> i < cap \<Longrightarrow> j < cap \<Longrightarrow> (head + i) mod cap = (head + j) mod cap \<longleftrightarrow> i = (j :: nat)"
  by (auto simp: mod_ring split: if_splits)

lemma ring_push:
  "head < cap \<Longrightarrow> count < cap \<Longrightarrow>
   ring (slot((head + count) mod cap := a)) head (Suc count) cap = ring slot head count cap @ [a]"
  by (auto simp: ring_def mod_ring_inj)

lemma ring_replace_back:
  "head < cap \<Longrightarrow> 0 < count \<Longrightarrow> count \<le> cap \<Longrightarrow>
   ring (slot((head + count - 1) mod cap := a)) head count cap = butlast (ring slot head count cap) @ [a]"
  by (cases count) (auto simp: ring_def mod_ring_inj butlast_append)

lemma last_ring: "0 < count \<Longrightarrow> last (ring slot head count cap) = slot ((head + count - 1) mod cap)"
  by (cases count) (auto simp: ring_def)

lemma ring_front: "0 < count \<Longrightarrow> head < cap \<Longrightarrow> hd (ring slot head count cap) = slot head"
  by (simp add: ring_def hd_map upt_conv_Cons)

lemma ring_peek:
  "head < cap \<Longrightarrow> (if count = 0 then None else Some (slot head)) =
   (case ring slot head count cap of [] \<Rightarrow> None | x # xs \<Rightarrow> Some x)"
  by (simp add: ring_def upt_conv_Cons split: list.split)

lemma ring_pop:
  "0 < count \<Longrightarrow> ring slot ((head + 1) mod cap) (count - 1) cap = tl (ring slot head count cap)"
  by (rule nth_equalityI) (auto simp: ring_def nth_tl mod_add_left_eq)

subsection \<open>The contract\<close>

datatype 'a fifo_op = Push 'a | Take

text \<open>
  A history of pushes and takes: what was taken, what was accepted, and the queue at the end.
\<close>

fun fifo_run ::
  "('a \<Rightarrow> 'q \<Rightarrow> bool \<times> 'q) \<Rightarrow> ('q \<Rightarrow> 'a option) \<Rightarrow> ('q \<Rightarrow> 'q) \<Rightarrow> 'a fifo_op list \<Rightarrow> 'q \<Rightarrow> 'a list \<times> 'a list \<times> 'q" where
  "fifo_run push peek pop [] q = ([], [], q)"
| "fifo_run push peek pop (Push a # ops) q =
     (case push a q of (ok, q) \<Rightarrow>
        case fifo_run push peek pop ops q of (out, acc, r) \<Rightarrow> (out, if ok then a # acc else acc, r))"
| "fifo_run push peek pop (Take # ops) q =
     (case peek q of
        None \<Rightarrow> fifo_run push peek pop ops q
      | Some x \<Rightarrow>
          case fifo_run push peek pop ops (pop q) of (out, acc, r) \<Rightarrow> (x # out, acc, r))"

locale bounded_fifo =
  fixes abs :: "'q \<Rightarrow> 'a list"
    and wf :: "'q \<Rightarrow> bool"
    and push :: "'a \<Rightarrow> 'q \<Rightarrow> bool \<times> 'q"
    and peek :: "'q \<Rightarrow> 'a option"
    and pop :: "'q \<Rightarrow> 'q"
    and cap :: nat
    and valid :: "'a \<Rightarrow> bool"
    and movable :: "'a \<Rightarrow> bool"
  assumes bounded: "wf q \<Longrightarrow> length (abs q) \<le> cap"
    and push_wf: "wf q \<Longrightarrow> wf (snd (push a q))"
    and push_room: "wf q \<Longrightarrow> valid a \<Longrightarrow> length (abs q) < cap \<Longrightarrow> fst (push a q) \<and> abs (snd (push a q)) = abs q @ [a]"
    and push_full: "wf q \<Longrightarrow> \<not> (valid a \<and> length (abs q) < cap) \<Longrightarrow>
      (if fst (push a q) then abs q \<noteq> [] \<and> movable (last (abs q)) \<and> movable a \<and> abs (snd (push a q)) = butlast (abs q) @ [a]
       else abs (snd (push a q)) = abs q)"
    and peek_front: "wf q \<Longrightarrow> peek q = (case abs q of [] \<Rightarrow> None | x # xs \<Rightarrow> Some x)"
    and pop_wf: "wf q \<Longrightarrow> wf (pop q)"
    and pop_tl: "wf q \<Longrightarrow> abs (pop q) = tl (abs q)"
begin

lemma run_wf: "wf q \<Longrightarrow> fifo_run push peek pop ops q = (out, acc, r) \<Longrightarrow> wf r"
proof (induction ops arbitrary: q out acc)
  case (Cons op ops)
  show ?case
  proof (cases op)
    case (Push a)
    then show ?thesis using Cons push_wf [of q a] by (auto split: prod.splits)
  next
    case Take
    then show ?thesis using Cons pop_wf [of q] by (auto split: prod.splits option.splits)
  qed
qed simp

text \<open>
  Order and completeness: over any history, what cannot be superseded comes out exactly in the order
  it went in, and nothing accepted is lost.
\<close>

lemma run_order:
  "wf q \<Longrightarrow> fifo_run push peek pop ops q = (out, acc, r) \<Longrightarrow>
   filter (\<lambda>a. \<not> movable a) (out @ abs r) = filter (\<lambda>a. \<not> movable a) (abs q @ acc)"
proof (induction ops arbitrary: q out acc)
  case (Cons op ops)
  show ?case
  proof (cases op)
    case (Push a)
    obtain ok q1 where p: "push a q = (ok, q1)" by force
    obtain out1 acc1 where r: "fifo_run push peek pop ops q1 = (out1, acc1, r)" "out = out1" "acc = (if ok then a # acc1 else acc1)"
      using Cons.prems(2) Push p by (auto split: prod.splits)
    have IH: "filter (\<lambda>a. \<not> movable a) (out1 @ abs r) = filter (\<lambda>a. \<not> movable a) (abs q1 @ acc1)"
      using Cons.IH [OF _ r(1)] push_wf [OF Cons.prems(1), of a] p by simp
    have "filter (\<lambda>a. \<not> movable a) (abs q1) = filter (\<lambda>a. \<not> movable a) (abs q @ (if ok then [a] else []))"
    proof (cases "valid a \<and> length (abs q) < cap")
      case True
      then show ?thesis using push_room [OF Cons.prems(1), of a] p by simp
    next
      case False
      show ?thesis
      proof (cases "abs q = []")
        case True
        then show ?thesis using push_full [OF Cons.prems(1) False] p by (auto split: if_splits)
      next
        case ne: False
        then obtain xs x where "abs q = xs @ [x]" by (metis append_butlast_last_id)
        then show ?thesis using push_full [OF Cons.prems(1) False] p by (auto split: if_splits)
      qed
    qed
    then show ?thesis using IH r by simp
  next
    case Take
    show ?thesis
    proof (cases "abs q")
      case Nil
      then have "peek q = None" using peek_front [OF Cons.prems(1)] by simp
      then show ?thesis using Cons Take by simp
    next
      case (Cons x xs)
      then have p: "peek q = Some x" using peek_front [OF Cons.prems(1)] by simp
      obtain out1 where r: "fifo_run push peek pop ops (pop q) = (out1, acc, r)" "out = x # out1"
        using Cons.prems(2) Take p by (auto split: prod.splits)
      have "filter (\<lambda>a. \<not> movable a) (out1 @ abs r) = filter (\<lambda>a. \<not> movable a) (abs (pop q) @ acc)"
        by (rule Cons.IH [OF pop_wf [OF Cons.prems(1)] r(1)])
      then show ?thesis using pop_tl [OF Cons.prems(1)] Cons r(2) by simp
    qed
  qed
qed simp

text \<open>A refused entry leaves the queue as it was, and only a full queue or an invalid entry is refused.\<close>

lemma push_refused: "wf q \<Longrightarrow> \<not> fst (push a q) \<Longrightarrow> abs (snd (push a q)) = abs q \<and> (valid a \<longrightarrow> length (abs q) = cap)"
  using push_room [of q a] push_full [of q a] bounded [of q]
  by (cases "valid a \<and> length (abs q) < cap") auto

text \<open>The newest accepted entry is the back of the queue.\<close>

lemma push_last: "wf q \<Longrightarrow> fst (push a q) \<Longrightarrow> last (abs (snd (push a q))) = a"
  using push_room [of q a] push_full [of q a] by (cases "valid a \<and> length (abs q) < cap") auto

end

end
