(* ===== verification/Queues.thy ===== *)
theory Queues
  imports Fifo
begin

text \<open>
  Host input: the gesture tracker of \<open>app/Sources/VMTouchMap.c\<close>, the touch report queue of
  \<open>VMTouchQueue.c\<close> and the button edge queue of \<open>VMButtonQueue.c\<close>. Both queues are interpretations of
  \<open>bounded_fifo\<close>. A null pointer argument is \<open>None\<close>. The floating-point mapping \<open>vm_touch_map\<close> is not
  modelled; the tracker takes its result.
\<close>

subsection \<open>The gesture tracker\<close>

datatype vm_touch_phase = TOUCH_BEGAN | TOUCH_MOVED | TOUCH_ENDED | TOUCH_CANCELLED | TOUCH_OTHER

record vm_touch_point =
  pt_x :: int
  pt_y :: int
  pt_inside :: bool

record vm_touch_tracker =
  tr_active :: bool
  tr_x :: int
  tr_y :: int

definition vm_touch_tracker_reset :: "vm_touch_tracker \<Rightarrow> vm_touch_tracker" where
  "vm_touch_tracker_reset t = t\<lparr>tr_active := False, tr_x := 0, tr_y := 0\<rparr>"

text \<open>\<open>None\<close> is the result \<open>false\<close>; otherwise the coordinates reported.\<close>

definition vm_touch_track ::
  "vm_touch_tracker \<Rightarrow> vm_touch_phase \<Rightarrow> vm_touch_point \<Rightarrow> (int \<times> int) option \<times> vm_touch_tracker" where
  "vm_touch_track t phase p =
     (if phase = TOUCH_BEGAN then
        (let t = t\<lparr>tr_active := pt_inside p\<rparr> in
         if \<not> pt_inside p then (None, t)
         else (Some (pt_x p, pt_y p), t\<lparr>tr_x := pt_x p, tr_y := pt_y p\<rparr>))
      else if \<not> tr_active t then (None, t)
      else if \<not> pt_inside p \<and> phase = TOUCH_MOVED then (None, t)
      else
        let t = (if pt_inside p then t\<lparr>tr_x := pt_x p, tr_y := pt_y p\<rparr> else t);
            t = (if phase = TOUCH_ENDED \<or> phase = TOUCH_CANCELLED then t\<lparr>tr_active := False\<rparr> else t)
        in (Some (tr_x t, tr_y t), t))"

subsection \<open>Touch reports\<close>

abbreviation (input) "MTZ2_PHASE_MAKE_TOUCH \<equiv> (3 :: u8)"
abbreviation (input) "MTZ2_PHASE_TOUCHING \<equiv> (4 :: u8)"
abbreviation (input) "MTZ2_PHASE_BREAK_TOUCH \<equiv> (5 :: u8)"
abbreviation (input) "VM_TOUCH_QUEUE_CAP \<equiv> (8 :: nat)"

record s5l_mt_contact =
  mt_id :: u8
  mt_phase :: u8
  mt_x :: u16
  mt_y :: u16
  mt_pressure :: u8
  mt_major :: u8
  mt_minor :: u8

record vm_touch_queue =
  tq_slot :: "nat \<Rightarrow> s5l_mt_contact"
  tq_head :: nat
  tq_count :: nat
  tq_queued :: u64
  tq_coalesced :: u64
  tq_dropped :: u64

definition contact_zero :: s5l_mt_contact where
  "contact_zero = \<lparr>mt_id = 0, mt_phase = 0, mt_x = 0, mt_y = 0, mt_pressure = 0, mt_major = 0, mt_minor = 0\<rparr>"

definition vm_touch_queue_reset :: "vm_touch_queue \<Rightarrow> vm_touch_queue" where
  "vm_touch_queue_reset q = \<lparr>tq_slot = (\<lambda>_. contact_zero), tq_head = 0, tq_count = 0,
     tq_queued = 0, tq_coalesced = 0, tq_dropped = 0\<rparr>"

definition vm_touch_contact_from_ui :: "vm_touch_phase \<Rightarrow> int \<Rightarrow> int \<Rightarrow> s5l_mt_contact option" where
  "vm_touch_contact_from_ui phase x y =
     (case (case phase of
              TOUCH_BEGAN \<Rightarrow> Some (MTZ2_PHASE_MAKE_TOUCH, 160)
            | TOUCH_MOVED \<Rightarrow> Some (MTZ2_PHASE_TOUCHING, 160)
            | TOUCH_ENDED \<Rightarrow> Some (MTZ2_PHASE_BREAK_TOUCH, 0)
            | TOUCH_CANCELLED \<Rightarrow> Some (MTZ2_PHASE_BREAK_TOUCH, 0)
            | TOUCH_OTHER \<Rightarrow> None) of
        None \<Rightarrow> None
      | Some (dev_phase, pressure) \<Rightarrow>
          if x < 0 \<or> y < 0 \<or> x \<ge> 320 \<or> y \<ge> 480 then None
          else Some \<lparr>mt_id = 1, mt_phase = dev_phase, mt_x = of_int x, mt_y = of_int y,
                     mt_pressure = pressure, mt_major = 58, mt_minor = 45\<rparr>)"

definition vm_touch_queue_push :: "s5l_mt_contact \<Rightarrow> vm_touch_queue \<Rightarrow> bool \<times> vm_touch_queue" where
  "vm_touch_queue_push c q =
     (if tq_count q < VM_TOUCH_QUEUE_CAP then
        (True, q\<lparr>tq_slot := (tq_slot q)((tq_head q + tq_count q) mod VM_TOUCH_QUEUE_CAP := c),
                 tq_count := Suc (tq_count q), tq_queued := tq_queued q + 1\<rparr>)
      else
        let back = (tq_head q + tq_count q - 1) mod VM_TOUCH_QUEUE_CAP in
        if mt_phase c = MTZ2_PHASE_TOUCHING \<and> mt_phase (tq_slot q back) = MTZ2_PHASE_TOUCHING
        then (True, q\<lparr>tq_slot := (tq_slot q)(back := c), tq_coalesced := tq_coalesced q + 1\<rparr>)
        else (False, q\<lparr>tq_dropped := tq_dropped q + 1\<rparr>))"

definition vm_touch_queue_peek :: "vm_touch_queue \<Rightarrow> s5l_mt_contact option" where
  "vm_touch_queue_peek q = (if tq_count q = 0 then None else Some (tq_slot q (tq_head q)))"

definition vm_touch_queue_pop :: "vm_touch_queue \<Rightarrow> vm_touch_queue" where
  "vm_touch_queue_pop q =
     (if tq_count q = 0 then q
      else q\<lparr>tq_head := (tq_head q + 1) mod VM_TOUCH_QUEUE_CAP, tq_count := tq_count q - 1\<rparr>)"

subsection \<open>Button edges\<close>

abbreviation (input) "VM_BUTTON_QUEUE_CAP \<equiv> (10 :: nat)"
abbreviation (input) "S5L_BUTTON_COUNT \<equiv> (5 :: nat)"

record vm_button_event =
  be_which :: u8
  be_pressed :: bool

record vm_button_queue =
  bq_slot :: "nat \<Rightarrow> vm_button_event"
  bq_head :: nat
  bq_count :: nat
  bq_queued :: u64
  bq_dropped :: u64

text \<open>The table from the app's order to the order of the device tree: menu, hold, volume up, volume
  down, ringer.\<close>

definition TO_GUEST :: "nat \<Rightarrow> nat" where
  "TO_GUEST b = [1, 0, 2, 3, 4] ! b"

definition vm_button_queue_reset :: "vm_button_queue \<Rightarrow> vm_button_queue" where
  "vm_button_queue_reset q = \<lparr>bq_slot = (\<lambda>_. \<lparr>be_which = 0, be_pressed = False\<rparr>), bq_head = 0, bq_count = 0,
     bq_queued = 0, bq_dropped = 0\<rparr>"

definition vm_button_to_guest :: "nat \<Rightarrow> bool \<Rightarrow> (nat \<times> bool) option" where
  "vm_button_to_guest app_button pressed =
     (if app_button \<ge> 5 then None
      else Some (TO_GUEST app_button,
                 if app_button = 4 then (if pressed then True else \<not> True) else pressed))"

definition vm_button_queue_push :: "nat \<times> bool \<Rightarrow> vm_button_queue \<Rightarrow> bool \<times> vm_button_queue" where
  "vm_button_queue_push e q =
     (case e of (which, pressed) \<Rightarrow>
        if which \<ge> S5L_BUTTON_COUNT then (False, q)
        else if bq_count q \<ge> VM_BUTTON_QUEUE_CAP then (False, q\<lparr>bq_dropped := bq_dropped q + 1\<rparr>)
        else (True, q\<lparr>bq_slot := (bq_slot q)((bq_head q + bq_count q) mod VM_BUTTON_QUEUE_CAP :=
                        \<lparr>be_which = of_nat which, be_pressed = pressed\<rparr>),
                      bq_count := Suc (bq_count q), bq_queued := bq_queued q + 1\<rparr>))"

definition vm_button_queue_peek :: "vm_button_queue \<Rightarrow> vm_button_event option" where
  "vm_button_queue_peek q = (if bq_count q = 0 then None else Some (bq_slot q (bq_head q)))"

definition vm_button_queue_pop :: "vm_button_queue \<Rightarrow> vm_button_queue" where
  "vm_button_queue_pop q =
     (if bq_count q = 0 then q
      else q\<lparr>bq_head := (bq_head q + 1) mod VM_BUTTON_QUEUE_CAP, bq_count := bq_count q - 1\<rparr>)"

subsection \<open>Both are bounded queues\<close>

definition touch_list :: "vm_touch_queue \<Rightarrow> s5l_mt_contact list" where
  "touch_list q = ring (tq_slot q) (tq_head q) (tq_count q) VM_TOUCH_QUEUE_CAP"

definition touch_wf :: "vm_touch_queue \<Rightarrow> bool" where
  "touch_wf q \<longleftrightarrow> tq_head q < VM_TOUCH_QUEUE_CAP \<and> tq_count q \<le> VM_TOUCH_QUEUE_CAP"

definition is_move :: "s5l_mt_contact \<Rightarrow> bool" where
  "is_move c \<longleftrightarrow> mt_phase c = MTZ2_PHASE_TOUCHING"

interpretation touch: bounded_fifo touch_list touch_wf vm_touch_queue_push vm_touch_queue_peek
  vm_touch_queue_pop VM_TOUCH_QUEUE_CAP "\<lambda>_. True" is_move
proof unfold_locales
  fix q :: vm_touch_queue and a assume wf: "touch_wf q"
  then have w: "tq_head q < 8" "tq_count q \<le> 8" by (simp_all add: touch_wf_def)
  show "length (touch_list q) \<le> VM_TOUCH_QUEUE_CAP" using w by (simp add: touch_list_def)
  show "touch_wf (snd (vm_touch_queue_push a q))" using w by (simp add: vm_touch_queue_push_def touch_wf_def Let_def)
  show "touch_wf (vm_touch_queue_pop q)" using w by (auto simp: vm_touch_queue_pop_def touch_wf_def)
  show "touch_list (vm_touch_queue_pop q) = tl (touch_list q)"
    using ring_pop [of "tq_count q" "tq_slot q" "tq_head q" 8]
    by (cases "tq_count q = 0") (simp_all add: vm_touch_queue_pop_def touch_list_def)
  show "vm_touch_queue_peek q = (case touch_list q of [] \<Rightarrow> None | x # xs \<Rightarrow> Some x)"
    unfolding vm_touch_queue_peek_def touch_list_def by (rule ring_peek [OF w(1)])
  show "fst (vm_touch_queue_push a q) \<and> touch_list (snd (vm_touch_queue_push a q)) = touch_list q @ [a]"
    if "length (touch_list q) < VM_TOUCH_QUEUE_CAP"
    using that w ring_push [of "tq_head q" 8 "tq_count q" "tq_slot q" a] by (simp add: touch_list_def vm_touch_queue_push_def)
  show "if fst (vm_touch_queue_push a q) then touch_list q \<noteq> [] \<and> is_move (last (touch_list q)) \<and> is_move a \<and>
      touch_list (snd (vm_touch_queue_push a q)) = butlast (touch_list q) @ [a]
    else touch_list (snd (vm_touch_queue_push a q)) = touch_list q"
    if "\<not> (True \<and> length (touch_list q) < VM_TOUCH_QUEUE_CAP)"
    using that w ring_replace_back [of "tq_head q" 8 "tq_count q" "tq_slot q" a] last_ring [of "tq_count q" "tq_slot q" "tq_head q" 8]
      length_ring [of "tq_slot q" "tq_head q" "tq_count q" 8]
    by (auto simp: touch_list_def vm_touch_queue_push_def is_move_def Let_def simp del: length_ring split: if_splits)
qed

definition button_list :: "vm_button_queue \<Rightarrow> vm_button_event list" where
  "button_list q = ring (bq_slot q) (bq_head q) (bq_count q) VM_BUTTON_QUEUE_CAP"

definition button_wf :: "vm_button_queue \<Rightarrow> bool" where
  "button_wf q \<longleftrightarrow> bq_head q < VM_BUTTON_QUEUE_CAP \<and> bq_count q \<le> VM_BUTTON_QUEUE_CAP"

definition button_push_event :: "vm_button_event \<Rightarrow> vm_button_queue \<Rightarrow> bool \<times> vm_button_queue" where
  "button_push_event e = vm_button_queue_push (unat (be_which e), be_pressed e)"

interpretation button: bounded_fifo button_list button_wf button_push_event vm_button_queue_peek
  vm_button_queue_pop VM_BUTTON_QUEUE_CAP "\<lambda>e. be_which e < 5" "\<lambda>_. False"
proof unfold_locales
  fix q :: vm_button_queue and a :: vm_button_event assume wf: "button_wf q"
  then have w: "bq_head q < 10" "bq_count q \<le> 10" by (simp_all add: button_wf_def)
  have v: "unat (be_which a) < 5 \<longleftrightarrow> be_which a < 5" by (simp add: word_less_nat_alt)
  show "length (button_list q) \<le> VM_BUTTON_QUEUE_CAP" using w by (simp add: button_list_def)
  show "button_wf (snd (button_push_event a q))" using w by (simp add: button_push_event_def vm_button_queue_push_def button_wf_def)
  show "button_wf (vm_button_queue_pop q)" using w by (auto simp: vm_button_queue_pop_def button_wf_def)
  show "button_list (vm_button_queue_pop q) = tl (button_list q)"
    using ring_pop [of "bq_count q" "bq_slot q" "bq_head q" 10]
    by (cases "bq_count q = 0") (simp_all add: vm_button_queue_pop_def button_list_def)
  show "vm_button_queue_peek q = (case button_list q of [] \<Rightarrow> None | x # xs \<Rightarrow> Some x)"
    unfolding vm_button_queue_peek_def button_list_def by (rule ring_peek [OF w(1)])
  show "fst (button_push_event a q) \<and> button_list (snd (button_push_event a q)) = button_list q @ [a]"
    if "be_which a < 5" "length (button_list q) < VM_BUTTON_QUEUE_CAP"
    using that w v ring_push [of "bq_head q" 10 "bq_count q" "bq_slot q" a]
    by (cases a) (simp add: button_list_def button_push_event_def vm_button_queue_push_def)
  show "if fst (button_push_event a q) then button_list q \<noteq> [] \<and> False \<and> False \<and>
      button_list (snd (button_push_event a q)) = butlast (button_list q) @ [a]
    else button_list (snd (button_push_event a q)) = button_list q"
    if "\<not> (be_which a < 5 \<and> length (button_list q) < VM_BUTTON_QUEUE_CAP)"
    using that v by (auto simp: button_list_def button_push_event_def vm_button_queue_push_def)
qed

lemma reset_wf: "touch_wf (vm_touch_queue_reset q)" "touch_list (vm_touch_queue_reset q) = []"
  "button_wf (vm_button_queue_reset r)" "button_list (vm_button_queue_reset r) = []"
  by (simp_all add: touch_wf_def vm_touch_queue_reset_def touch_list_def button_wf_def vm_button_queue_reset_def button_list_def)

text \<open>
  C19. No tap is lost or reordered: from an empty queue, over any interleaving of reports from the UI
  thread and takes by the emulator thread, the touch-downs and lifts taken from the queue, followed by
  those still in it, are exactly the accepted ones in order; only moves can be missing.
\<close>

theorem touch_edges_in_order:
  assumes "fifo_run vm_touch_queue_push vm_touch_queue_peek vm_touch_queue_pop ops (vm_touch_queue_reset q) = (out, acc, r)"
  shows "filter (\<lambda>c. mt_phase c \<noteq> MTZ2_PHASE_TOUCHING) (out @ touch_list r) =
      filter (\<lambda>c. mt_phase c \<noteq> MTZ2_PHASE_TOUCHING) acc \<and> length (touch_list r) \<le> VM_TOUCH_QUEUE_CAP"
  using touch.run_order [OF reset_wf(1) assms] touch.run_wf [OF reset_wf(1) assms] touch.bounded [of r] reset_wf(2)
  by (simp add: is_move_def)

theorem touch_edges_in_order_witness:
  "let c = \<lparr>mt_id = 1, mt_phase = 3, mt_x = 10, mt_y = 20, mt_pressure = 160, mt_major = 58, mt_minor = 45\<rparr>;
       q = \<lparr>tq_slot = (\<lambda>_. c), tq_head = 5, tq_count = 3, tq_queued = 9, tq_coalesced = 0, tq_dropped = 0\<rparr>;
       ops = [Push c, Push (c\<lparr>mt_phase := 4\<rparr>), Take, Push (c\<lparr>mt_phase := 5\<rparr>), Take, Take]
   in filter (\<lambda>c. mt_phase c \<noteq> 4) (fst (fifo_run vm_touch_queue_push vm_touch_queue_peek vm_touch_queue_pop ops
        (vm_touch_queue_reset q))) = [c, c\<lparr>mt_phase := 5\<rparr>]"
proof -
  let ?c = "\<lparr>mt_id = 1, mt_phase = 3, mt_x = 10, mt_y = 20, mt_pressure = 160, mt_major = 58, mt_minor = 45\<rparr>"
  let ?q = "\<lparr>tq_slot = (\<lambda>_. ?c), tq_head = 5, tq_count = 3, tq_queued = 9, tq_coalesced = 0, tq_dropped = 0\<rparr>"
  let ?ops = "[Push ?c, Push (?c\<lparr>mt_phase := 4\<rparr>), Take, Push (?c\<lparr>mt_phase := 5\<rparr>), Take, Take]"
  obtain out acc r where f: "fifo_run vm_touch_queue_push vm_touch_queue_peek vm_touch_queue_pop ?ops (vm_touch_queue_reset ?q)
      = (out, acc, r)" by (cases "fifo_run vm_touch_queue_push vm_touch_queue_peek vm_touch_queue_pop ?ops (vm_touch_queue_reset ?q)")
  have "acc = [?c, ?c\<lparr>mt_phase := 4\<rparr>, ?c\<lparr>mt_phase := 5\<rparr>] \<and> touch_list r = []"
    using f by (auto simp: vm_touch_queue_push_def vm_touch_queue_reset_def vm_touch_queue_peek_def vm_touch_queue_pop_def touch_list_def)
  then show ?thesis using touch_edges_in_order [OF f] unfolding Let_def f by simp
qed

text \<open>
  Button edges are never lost, merged or reordered once accepted: the edges taken, followed by
  those still queued, are exactly the accepted ones, and a valid edge is refused only by a full queue.
\<close>

theorem button_edges_in_order:
  assumes "fifo_run button_push_event vm_button_queue_peek vm_button_queue_pop ops (vm_button_queue_reset q) = (out, acc, r)"
  shows "out @ button_list r = acc \<and> length (button_list r) \<le> VM_BUTTON_QUEUE_CAP \<and>
    (be_which e < 5 \<and> \<not> fst (button_push_event e r) \<longrightarrow> length (button_list r) = VM_BUTTON_QUEUE_CAP \<and>
       button_list (snd (button_push_event e r)) = button_list r)"
  using button.run_order [OF reset_wf(3) assms] button.run_wf [OF reset_wf(3) assms] button.bounded [of r] reset_wf(4)
    button.push_refused [of r e] by simp

theorem button_edges_in_order_witness:
  "let q = \<lparr>bq_slot = (\<lambda>_. \<lparr>be_which = 0, be_pressed = False\<rparr>), bq_head = 7, bq_count = 2, bq_queued = 0, bq_dropped = 0\<rparr>;
       down = \<lparr>be_which = 1, be_pressed = True\<rparr>; up = \<lparr>be_which = 1, be_pressed = False\<rparr>
   in fst (fifo_run button_push_event vm_button_queue_peek vm_button_queue_pop [Push down, Push up, Take, Take]
        (vm_button_queue_reset q)) = [down, up]"
proof -
  let ?q = "\<lparr>bq_slot = (\<lambda>_. \<lparr>be_which = 0, be_pressed = False\<rparr>), bq_head = 7, bq_count = 2, bq_queued = 0, bq_dropped = 0\<rparr>"
  let ?ops = "[Push \<lparr>be_which = 1, be_pressed = True\<rparr>, Push \<lparr>be_which = 1, be_pressed = False\<rparr>, Take, Take]"
  obtain out acc r where f: "fifo_run button_push_event vm_button_queue_peek vm_button_queue_pop ?ops (vm_button_queue_reset ?q)
      = (out, acc, r)" by (cases "fifo_run button_push_event vm_button_queue_peek vm_button_queue_pop ?ops (vm_button_queue_reset ?q)")
  have "acc = [\<lparr>be_which = 1, be_pressed = True\<rparr>, \<lparr>be_which = 1, be_pressed = False\<rparr>] \<and> button_list r = []"
    using f by (auto simp: button_push_event_def vm_button_queue_push_def vm_button_queue_reset_def vm_button_queue_peek_def
        vm_button_queue_pop_def button_list_def)
  then show ?thesis using button_edges_in_order [OF f] unfolding Let_def f by simp
qed

end
