(* ===== verification/Uart.thy ===== *)
theory Uart
  imports Fifo
begin

text \<open>
  The serial port of \<open>core/src/soc/uart.c\<close>: its registers, the captured output, the receive FIFO with
  its write-one-to-clear interrupt latch. Indices of the FIFO are \<open>nat\<close>; the invariant \<open>uart_wf\<close> keeps them
  far inside the bytes the C structure holds them in. A null port is not modelled: every caller has one.
\<close>

unbundle bit_operations_syntax

abbreviation (input) "UART_RX_FIFO \<equiv> (16 :: nat)"
abbreviation (input) "UART_TX_BUFFER \<equiv> (8192 :: nat)"
abbreviation (input) "UTRSTAT_RX_INT \<equiv> (0x10 :: u32)"
abbreviation (input) "UTRSTAT_LATCHED \<equiv> (0x178 :: u32)"
abbreviation (input) "UTRSTAT_RX_READY \<equiv> (1 :: u32)"
abbreviation (input) "UTRSTAT_TX_BUF_EMPTY \<equiv> (2 :: u32)"
abbreviation (input) "UTRSTAT_TX_EMPTY \<equiv> (4 :: u32)"
abbreviation (input) "UFSTAT_RX_FULL \<equiv> (0x100 :: u32)"

abbreviation (input) "UART_ULCON \<equiv> (0x00 :: u32)"
abbreviation (input) "UART_UCON \<equiv> (0x04 :: u32)"
abbreviation (input) "UART_UFCON \<equiv> (0x08 :: u32)"
abbreviation (input) "UART_UMCON \<equiv> (0x0c :: u32)"
abbreviation (input) "UART_UTRSTAT \<equiv> (0x10 :: u32)"
abbreviation (input) "UART_UERSTAT \<equiv> (0x14 :: u32)"
abbreviation (input) "UART_UFSTAT \<equiv> (0x18 :: u32)"
abbreviation (input) "UART_UMSTAT \<equiv> (0x1c :: u32)"
abbreviation (input) "UART_UTXH \<equiv> (0x20 :: u32)"
abbreviation (input) "UART_URXH \<equiv> (0x24 :: u32)"
abbreviation (input) "UART_UBRDIV \<equiv> (0x28 :: u32)"

record s5l_uart =
  ulcon :: u32
  ucon :: u32
  ufcon :: u32
  umcon :: u32
  ubrdiv :: u32
  tx :: "u8 list"
  rx_pushed :: u64
  rx_dropped :: u64
  rx_reads :: u64
  rx_underruns :: u64
  rx :: "nat \<Rightarrow> u8"
  rx_head :: nat
  rx_count :: nat
  rx_irq_suppressed :: bool
  utrstat_pending :: u32

text \<open>The bytes of the \<open>tx\<close> buffer up to \<open>tx_len\<close> are the list \<open>tx\<close>.\<close>

definition s5l_uart_reset :: "s5l_uart \<Rightarrow> s5l_uart" where
  "s5l_uart_reset u = \<lparr>ulcon = 0, ucon = 0, ufcon = 0, umcon = 0, ubrdiv = 0, tx = [], rx_pushed = 0,
     rx_dropped = 0, rx_reads = 0, rx_underruns = 0, rx = (\<lambda>_. 0), rx_head = 0, rx_count = 0,
     rx_irq_suppressed = False, utrstat_pending = 0\<rparr>"

definition s5l_uart_set_rx_irq :: "s5l_uart \<Rightarrow> bool \<Rightarrow> s5l_uart" where
  "s5l_uart_set_rx_irq u enabled = u\<lparr>rx_irq_suppressed := \<not> enabled\<rparr>"

definition s5l_uart_rx_space :: "s5l_uart \<Rightarrow> nat" where
  "s5l_uart_rx_space u = (if rx_count u \<ge> UART_RX_FIFO then 0 else UART_RX_FIFO - rx_count u)"

definition utrstat_enables :: "s5l_uart \<Rightarrow> u32" where
  "utrstat_enables u = drop_bit 8 (ucon u) AND UTRSTAT_LATCHED"

definition s5l_uart_rx_irq :: "s5l_uart \<Rightarrow> bool" where
  "s5l_uart_rx_irq u \<longleftrightarrow> \<not> rx_irq_suppressed u \<and> utrstat_pending u AND utrstat_enables u \<noteq> 0"

definition s5l_uart_rx_push :: "u8 \<Rightarrow> s5l_uart \<Rightarrow> bool \<times> s5l_uart" where
  "s5l_uart_rx_push b u =
     (if rx_count u \<ge> UART_RX_FIFO then (False, u\<lparr>rx_dropped := rx_dropped u + 1\<rparr>)
      else (True, u\<lparr>rx := (rx u)((rx_head u + rx_count u) mod UART_RX_FIFO := b),
                    rx_count := Suc (rx_count u), rx_pushed := rx_pushed u + 1,
                    utrstat_pending := utrstat_pending u OR UTRSTAT_RX_INT\<rparr>))"

text \<open>The receive holding register: the oldest byte, or a counted zero.\<close>

definition uart_read_urxh :: "s5l_uart \<Rightarrow> u32 \<times> s5l_uart" where
  "uart_read_urxh u =
     (if rx_count u = 0 then (0, u\<lparr>rx_underruns := rx_underruns u + 1\<rparr>)
      else (ucast (rx u (rx_head u)),
            u\<lparr>rx_head := (rx_head u + 1) mod UART_RX_FIFO, rx_count := rx_count u - 1, rx_reads := rx_reads u + 1\<rparr>))"

definition s5l_uart_read :: "s5l_uart \<Rightarrow> u32 \<Rightarrow> u32 \<times> s5l_uart" where
  "s5l_uart_read u off =
     (if off = UART_ULCON then (ulcon u, u)
      else if off = UART_UCON then (ucon u, u)
      else if off = UART_UFCON then (ufcon u, u)
      else if off = UART_UMCON then (umcon u, u)
      else if off = UART_UBRDIV then (ubrdiv u, u)
      else if off = UART_UTRSTAT then
        (UTRSTAT_TX_EMPTY OR UTRSTAT_TX_BUF_EMPTY OR (if rx_count u \<noteq> 0 then UTRSTAT_RX_READY else 0) OR
         utrstat_pending u, u)
      else if off = UART_UERSTAT then (0, u)
      else if off = UART_UFSTAT then
        ((of_nat (rx_count u) AND 0xf) OR (if rx_count u \<ge> UART_RX_FIFO then UFSTAT_RX_FULL else 0), u)
      else if off = UART_UMSTAT then (0, u)
      else if off = UART_URXH then uart_read_urxh u
      else (0, u))"

definition s5l_uart_write :: "s5l_uart \<Rightarrow> u32 \<Rightarrow> u32 \<Rightarrow> s5l_uart" where
  "s5l_uart_write u off val =
     (if off = UART_ULCON then u\<lparr>ulcon := val\<rparr>
      else if off = UART_UCON then u\<lparr>ucon := val\<rparr>
      else if off = UART_UFCON then u\<lparr>ufcon := val\<rparr>
      else if off = UART_UMCON then u\<lparr>umcon := val\<rparr>
      else if off = UART_UBRDIV then u\<lparr>ubrdiv := val\<rparr>
      else if off = UART_UTXH then
        (if length (tx u) < UART_TX_BUFFER - 1 then u\<lparr>tx := tx u @ [ucast val]\<rparr> else u)
      else if off = UART_UTRSTAT then u\<lparr>utrstat_pending := utrstat_pending u AND NOT val\<rparr>
      else u)"

subsection \<open>The receive FIFO\<close>

definition uart_list :: "s5l_uart \<Rightarrow> u8 list" where
  "uart_list u = ring (rx u) (rx_head u) (rx_count u) UART_RX_FIFO"

definition uart_wf :: "s5l_uart \<Rightarrow> bool" where
  "uart_wf u \<longleftrightarrow> rx_head u < UART_RX_FIFO \<and> rx_count u \<le> UART_RX_FIFO"

lemma byte_up_down: "ucast (ucast (b :: u8) :: u32) = b"
  by (rule bit_word_eqI) (simp add: bit_ucast_iff)

definition uart_peek :: "s5l_uart \<Rightarrow> u8 option" where
  "uart_peek u = (if rx_count u = 0 then None else Some (ucast (fst (uart_read_urxh u))))"

interpretation uart: bounded_fifo uart_list uart_wf s5l_uart_rx_push uart_peek "snd \<circ> uart_read_urxh"
  UART_RX_FIFO "\<lambda>_. True" "\<lambda>_. False"
proof unfold_locales
  fix u :: s5l_uart and a :: u8 assume wf: "uart_wf u"
  then have w: "rx_head u < 16" "rx_count u \<le> 16" by (simp_all add: uart_wf_def)
  show "length (uart_list u) \<le> 16" using w by (simp add: uart_list_def)
  show "uart_wf (snd (s5l_uart_rx_push a u))" using w by (simp add: s5l_uart_rx_push_def uart_wf_def)
  show "uart_wf ((snd \<circ> uart_read_urxh) u)" using w by (auto simp: uart_read_urxh_def uart_wf_def)
  show "uart_list ((snd \<circ> uart_read_urxh) u) = tl (uart_list u)"
    using ring_pop [of "rx_count u" "rx u" "rx_head u" 16]
    by (cases "rx_count u = 0") (simp_all add: uart_read_urxh_def uart_list_def)
  show "uart_peek u = (case uart_list u of [] \<Rightarrow> None | x # xs \<Rightarrow> Some x)"
  proof -
    have "uart_peek u = (if rx_count u = 0 then None else Some (rx u (rx_head u)))"
      by (simp add: uart_peek_def uart_read_urxh_def byte_up_down)
    then show ?thesis unfolding uart_list_def by (simp only: ring_peek [OF w(1)])
  qed
  show "fst (s5l_uart_rx_push a u) \<and> uart_list (snd (s5l_uart_rx_push a u)) = uart_list u @ [a]"
    if "length (uart_list u) < 16"
    using that w ring_push [of "rx_head u" 16 "rx_count u" "rx u" a] by (simp add: uart_list_def s5l_uart_rx_push_def)
  show "if fst (s5l_uart_rx_push a u) then uart_list u \<noteq> [] \<and> False \<and> False \<and>
      uart_list (snd (s5l_uart_rx_push a u)) = butlast (uart_list u) @ [a]
    else uart_list (snd (s5l_uart_rx_push a u)) = uart_list u"
    if "\<not> (True \<and> length (uart_list u) < 16)"
    using that by (auto simp: uart_list_def s5l_uart_rx_push_def)
qed

subsection \<open>The port under arbitrary traffic\<close>

datatype uart_op = Rx u8 | Rd u32 | Wr u32 u32

text \<open>
  A history of host pushes and guest accesses: the bytes the guest read from a non-empty URXH, the
  bytes the FIFO accepted, and the bytes written to UTXH.
\<close>

fun uart_run :: "uart_op list \<Rightarrow> s5l_uart \<Rightarrow> u8 list \<times> u8 list \<times> u8 list \<times> s5l_uart" where
  "uart_run [] u = ([], [], [], u)"
| "uart_run (Rx b # ops) u =
     (case s5l_uart_rx_push b u of (ok, v) \<Rightarrow>
        case uart_run ops v of (got, acc, sent, r) \<Rightarrow> (got, if ok then b # acc else acc, sent, r))"
| "uart_run (Rd off # ops) u =
     (case s5l_uart_read u off of (x, v) \<Rightarrow>
        case uart_run ops v of (got, acc, sent, r) \<Rightarrow>
          (if off = UART_URXH \<and> rx_count u \<noteq> 0 then ucast x # got else got, acc, sent, r))"
| "uart_run (Wr off x # ops) u =
     (case uart_run ops (s5l_uart_write u off x) of (got, acc, sent, r) \<Rightarrow>
        (got, acc, if off = UART_UTXH then ucast x # sent else sent, r))"

lemma read_other: "off \<noteq> UART_URXH \<Longrightarrow> snd (s5l_uart_read u off) = u"
  by (simp add: s5l_uart_read_def)

lemma write_rx: "uart_list (s5l_uart_write u off x) = uart_list u" "rx_count (s5l_uart_write u off x) = rx_count u"
  "rx_head (s5l_uart_write u off x) = rx_head u"
  by (simp_all add: s5l_uart_write_def uart_list_def)

lemma write_tx: "tx (s5l_uart_write u off x) =
    (if off = UART_UTXH \<and> length (tx u) < UART_TX_BUFFER - 1 then tx u @ [ucast x] else tx u)"
  by (simp add: s5l_uart_write_def)

lemma rx_tx: "tx (snd (s5l_uart_rx_push b u)) = tx u" "tx (snd (uart_read_urxh u)) = tx u"
  by (simp_all add: s5l_uart_rx_push_def uart_read_urxh_def)

lemma uart_run_stream:
  "uart_wf u \<Longrightarrow> length (tx u) \<le> UART_TX_BUFFER - 1 \<Longrightarrow> uart_run ops u = (got, acc, sent, r) \<Longrightarrow>
   got @ uart_list r = uart_list u @ acc \<and> tx r = take (UART_TX_BUFFER - 1) (tx u @ sent) \<and> uart_wf r"
proof (induction ops u arbitrary: got acc sent rule: uart_run.induct)
  case (1 u)
  then show ?case by simp
next
  case (2 b ops u)
  obtain ok v where p: "s5l_uart_rx_push b u = (ok, v)" by force
  have l: "uart_list v = uart_list u @ (if ok then [b] else [])" "uart_wf v" "tx v = tx u"
    using uart.push_room [of u b] uart.push_full [of u b] uart.push_wf [OF 2(2), of b] 2(2) p rx_tx(1) [of b u]
    by (cases "length (uart_list u) < 16"; auto split: if_splits)+
  show ?case using 2 p l by (auto split: prod.splits if_splits)
next
  case (3 off ops u)
  obtain x v where p: "s5l_uart_read u off = (x, v)" by force
  have l: "(if off = UART_URXH \<and> rx_count u \<noteq> 0 then [ucast x] else []) @ uart_list v = uart_list u" "uart_wf v" "tx v = tx u"
  proof -
    show "uart_wf v" "tx v = tx u"
      using p read_other [of off u] uart.pop_wf [OF 3(2)] 3(2) rx_tx(2) [of u]
      by (cases "off = UART_URXH"; auto simp: s5l_uart_read_def)+
    show "(if off = UART_URXH \<and> rx_count u \<noteq> 0 then [ucast x] else []) @ uart_list v = uart_list u"
    proof (cases "off = UART_URXH")
      case True
      then have v: "v = snd (uart_read_urxh u)" "x = fst (uart_read_urxh u)" using p by (simp_all add: s5l_uart_read_def)
      show ?thesis
        using uart.pop_tl [OF 3(2)] uart.peek_front [OF 3(2)] True v
        by (cases "uart_list u") (auto simp: uart_peek_def uart_list_def split: if_splits)
    next
      case False
      then show ?thesis using read_other [OF False, of u] p by simp
    qed
  qed
  show ?case using 3 p l by (auto split: prod.splits if_splits)
next
  case (4 off x ops u)
  have w: "uart_wf (s5l_uart_write u off x)" using 4(2) by (simp add: uart_wf_def write_rx)
  show ?case using 4 w write_rx(1) [of u off x] write_tx [of u off x]
    by (auto simp: take_Cons' split: prod.splits if_splits)
qed

lemma word_nonzero_bit: "(w :: 'a::len word) \<noteq> 0 \<longleftrightarrow> (\<exists>i. bit w i)"
  by (metis bit_0_eq bot_apply bot_bool_def bit_eqI)

text \<open>The latch holds no bit but the receive cause.\<close>

definition latch_ok :: "s5l_uart \<Rightarrow> bool" where
  "latch_ok u \<longleftrightarrow> (\<forall>i. bit (utrstat_pending u) i \<longrightarrow> i = 4)"

lemma bit_rx_int: "bit (0x10 :: u32) i \<longleftrightarrow> i = 4"
  using bit_exp_eq [of "0x10 :: u32" 4 i] by simp

lemma uart_run_latch: "latch_ok u \<Longrightarrow> uart_run ops u = (got, acc, sent, r) \<Longrightarrow> latch_ok r"
proof (induction ops u arbitrary: got acc sent rule: uart_run.induct)
  case (2 b ops u)
  have "latch_ok (snd (s5l_uart_rx_push b u))"
    using 2(2) by (auto simp: latch_ok_def s5l_uart_rx_push_def bit_or_iff bit_rx_int)
  then show ?case using 2 by (auto split: prod.splits)
next
  case (3 off ops u)
  have "latch_ok (snd (s5l_uart_read u off))"
    using 3(2) by (auto simp: latch_ok_def s5l_uart_read_def uart_read_urxh_def)
  then show ?case using 3 by (auto split: prod.splits)
next
  case (4 off x ops u)
  have "latch_ok (s5l_uart_write u off x)"
    using 4(2) by (auto simp: latch_ok_def s5l_uart_write_def bit_and_iff)
  then show ?case using 4 by (auto split: prod.splits)
qed simp

text \<open>
  C18. The serial stream survives any traffic: over every interleaving of host pushes with guest reads
  and writes of any register, the bytes the guest reads from URXH followed by those still in the FIFO
  are exactly the bytes the FIFO accepted, in order; it never holds more than sixteen, and the captured
  output is the first 8191 bytes written to UTXH.
\<close>

theorem uart_stream:
  assumes "uart_run ops (s5l_uart_reset u) = (got, acc, sent, r)"
  shows "got @ uart_list r = acc \<and> length (uart_list r) \<le> UART_RX_FIFO \<and> tx r = take (UART_TX_BUFFER - 1) sent"
proof -
  have i: "uart_wf (s5l_uart_reset u)" "length (tx (s5l_uart_reset u)) \<le> UART_TX_BUFFER - 1"
      "uart_list (s5l_uart_reset u) = []" "tx (s5l_uart_reset u) = []"
    by (simp_all add: uart_wf_def s5l_uart_reset_def uart_list_def)
  show ?thesis using uart_run_stream [OF i(1,2) assms] uart.bounded [of r] i(3,4) by simp
qed

definition uart_zero :: s5l_uart where
  "uart_zero = \<lparr>ulcon = 0, ucon = 0, ufcon = 0, umcon = 0, ubrdiv = 0, tx = [], rx_pushed = 0,
     rx_dropped = 0, rx_reads = 0, rx_underruns = 0, rx = (\<lambda>_. 0), rx_head = 0, rx_count = 0,
     rx_irq_suppressed = False, utrstat_pending = 0\<rparr>"

theorem uart_stream_witness:
  "fst (uart_run [Rx 0x7e, Wr 0x10 0x10, Rx 0x21, Rd 0x24, Wr 0x20 0x41, Rd 0x10, Rd 0x24] (s5l_uart_reset uart_zero)) = [0x7e, 0x21]"
proof -
  let ?ops = "[Rx 0x7e, Wr 0x10 0x10, Rx 0x21, Rd 0x24, Wr 0x20 0x41, Rd 0x10, Rd 0x24]"
  obtain got acc sent r where f: "uart_run ?ops (s5l_uart_reset uart_zero) = (got, acc, sent, r)"
    by (cases "uart_run ?ops (s5l_uart_reset uart_zero)")
  have "acc = [0x7e, 0x21] \<and> uart_list r = []"
    using f by (auto simp: s5l_uart_reset_def s5l_uart_rx_push_def s5l_uart_write_def s5l_uart_read_def uart_read_urxh_def uart_list_def)
  then show ?thesis using uart_stream [OF f] unfolding f by simp
qed

text \<open>
  The status registers tell the truth in every reachable state: UTRSTAT bit 0 says whether a byte
  waits, UFSTAT gives the exact fill level (its full bit standing for sixteen), and the interrupt line
  is up exactly when the receive cause is latched, enabled in UCON and not suppressed. An accepted byte
  latches the cause; acknowledging it clears the cause and touches no byte and no level.
\<close>

theorem uart_status_truthful:
  assumes "uart_run ops (s5l_uart_reset u) = (got, acc, sent, r)"
  shows "(bit (fst (s5l_uart_read r UART_UTRSTAT)) 0 \<longleftrightarrow> uart_list r \<noteq> []) \<and>
    (if bit (fst (s5l_uart_read r UART_UFSTAT)) 8 then 16 else unat (fst (s5l_uart_read r UART_UFSTAT) AND 0xf)) = length (uart_list r) \<and>
    (s5l_uart_rx_irq r \<longleftrightarrow> bit (utrstat_pending r) 4 \<and> bit (ucon r) 12 \<and> \<not> rx_irq_suppressed r) \<and>
    (case s5l_uart_rx_push b r of (ok, v) \<Rightarrow> ok \<longrightarrow> bit (fst (s5l_uart_read v UART_UTRSTAT)) 4) \<and>
    (let v = s5l_uart_write r UART_UTRSTAT 0x10
     in \<not> s5l_uart_rx_irq v \<and> uart_list v = uart_list r \<and>
        fst (s5l_uart_read v UART_UTRSTAT) = fst (s5l_uart_read r UART_UTRSTAT) AND NOT 0x10)"
proof -
  have i: "uart_wf (s5l_uart_reset u)" "length (tx (s5l_uart_reset u)) \<le> UART_TX_BUFFER - 1" "latch_ok (s5l_uart_reset u)"
    by (simp_all add: uart_wf_def s5l_uart_reset_def latch_ok_def)
  have wf: "rx_count r \<le> 16" using uart_run_stream [OF i(1,2) assms] by (simp add: uart_wf_def)
  have latch: "\<forall>i. bit (utrstat_pending r) i \<longrightarrow> i = 4" using uart_run_latch [OF i(3) assms] by (simp add: latch_ok_def)
  have list: "uart_list r \<noteq> [] \<longleftrightarrow> rx_count r \<noteq> 0" "length (uart_list r) = rx_count r"
    by (simp_all add: uart_list_def ring_def)
  have b12: "bit (0x100 :: u32) i \<longleftrightarrow> i = 8" "bit (0xf :: u32) i \<longleftrightarrow> i < 4" for i
    by (simp_all add: bit_masks)
  have b34: "bit (0x178 :: u32) 4" "bit (6 :: u32) 0 = False" by (simp_all add: bit_numeral_word_iff)
  note b = b12 b34 bit_rx_int
  have irq: "s5l_uart_rx_irq v \<longleftrightarrow> bit (utrstat_pending v) 4 \<and> bit (ucon v) 12 \<and> \<not> rx_irq_suppressed v"
    if "\<forall>i. bit (utrstat_pending v) i \<longrightarrow> i = 4" for v
  proof -
    have "utrstat_pending v AND utrstat_enables v \<noteq> 0 \<longleftrightarrow> bit (utrstat_pending v) 4 \<and> bit (utrstat_enables v) 4"
      unfolding word_nonzero_bit bit_and_iff using that by metis
    then show ?thesis using b(3) by (auto simp: s5l_uart_rx_irq_def utrstat_enables_def bit_and_iff bit_drop_bit_eq)
  qed
  show ?thesis
  proof (intro conjI)
    show "bit (fst (s5l_uart_read r UART_UTRSTAT)) 0 \<longleftrightarrow> uart_list r \<noteq> []"
      using latch list(1) b(4) by (auto simp: s5l_uart_read_def bit_or_iff)
    show "(if bit (fst (s5l_uart_read r UART_UFSTAT)) 8 then 16 else unat (fst (s5l_uart_read r UART_UFSTAT) AND 0xf)) = length (uart_list r)"
    proof (cases "rx_count r = 16")
      case True
      then show ?thesis unfolding list by (simp add: s5l_uart_read_def b(1) bit_or_iff)
    next
      case False
      then have lt: "rx_count r < 16" using wf by simp
      have m: "of_nat (rx_count r) AND 0xf = (of_nat (rx_count r) :: u32)"
      proof -
        have "(of_nat (rx_count r) :: u32) AND mask 4 = of_nat (rx_count r)"
          unfolding take_bit_eq_mask [symmetric] using lt by (simp add: take_bit_of_nat take_bit_nat_eq_self)
        then show ?thesis by (simp add: mask_eq_exp_minus_1)
      qed
      have u: "unat (of_nat (rx_count r) :: u32) = rx_count r" using lt by (simp add: unat_of_nat)
      have n8: "\<not> bit (of_nat (rx_count r) :: u32) 8" using m b(2) by (metis bit_and_iff numeral_less_iff order.asym semiring_norm(76) semiring_norm(78))
      show ?thesis unfolding list using lt by (simp add: s5l_uart_read_def m n8 u)
    qed
    show "s5l_uart_rx_irq r \<longleftrightarrow> bit (utrstat_pending r) 4 \<and> bit (ucon r) 12 \<and> \<not> rx_irq_suppressed r"
      by (rule irq [OF latch])
    show "case s5l_uart_rx_push b r of (ok, v) \<Rightarrow> ok \<longrightarrow> bit (fst (s5l_uart_read v UART_UTRSTAT)) 4"
      by (auto simp: s5l_uart_rx_push_def s5l_uart_read_def bit_or_iff b(5))
    have c: "\<forall>i. bit (utrstat_pending (s5l_uart_write r UART_UTRSTAT 0x10)) i \<longrightarrow> i = 4"
      using latch by (auto simp: s5l_uart_write_def bit_and_iff)
    have n4: "\<not> bit (utrstat_pending (s5l_uart_write r UART_UTRSTAT 0x10)) 4"
      using bit_not_exp_eq [of "- 0x11 :: u32" 4 4] by (simp add: s5l_uart_write_def bit_and_iff)
    have st: "fst (s5l_uart_read (s5l_uart_write r UART_UTRSTAT 0x10) UART_UTRSTAT) = fst (s5l_uart_read r UART_UTRSTAT) AND NOT 0x10"
    proof (rule bit_word_eqI)
      fix n
      have "bit (4 :: u32) n \<longleftrightarrow> n = 2" "bit (2 :: u32) n \<longleftrightarrow> n = 1" "bit (1 :: u32) n \<longleftrightarrow> n = 0"
          "bit (- 0x11 :: u32) n \<longleftrightarrow> n \<noteq> 4 \<and> n < 32"
        using bit_exp_eq [of "4 :: u32" 2 n] bit_exp_eq [of "2 :: u32" 1 n] bit_exp_eq [of "1 :: u32" 0 n]
          bit_not_exp_eq [of "- 0x11 :: u32" 4 n] by simp_all
      moreover assume "n < LENGTH(32)"
      ultimately show "bit (fst (s5l_uart_read (s5l_uart_write r UART_UTRSTAT 0x10) UART_UTRSTAT)) n \<longleftrightarrow>
          bit (fst (s5l_uart_read r UART_UTRSTAT) AND NOT 0x10) n"
        by (auto simp: s5l_uart_read_def s5l_uart_write_def bit_or_iff bit_and_iff)
    qed
    show "let v = s5l_uart_write r UART_UTRSTAT 0x10
     in \<not> s5l_uart_rx_irq v \<and> uart_list v = uart_list r \<and>
        fst (s5l_uart_read v UART_UTRSTAT) = fst (s5l_uart_read r UART_UTRSTAT) AND NOT 0x10"
      unfolding Let_def irq [OF c] st using n4 write_rx(1) by blast
  qed
qed

theorem uart_status_truthful_witness:
  "let r = snd (snd (snd (uart_run [Wr 0x04 0x1000, Rx 0x7e] (s5l_uart_reset uart_zero))))
   in s5l_uart_rx_irq r \<and> \<not> s5l_uart_rx_irq (s5l_uart_write r 0x10 0x10) \<and> uart_list (s5l_uart_write r 0x10 0x10) = [0x7e]"
proof -
  obtain got acc sent r where f: "uart_run [Wr 0x04 0x1000, Rx 0x7e] (s5l_uart_reset uart_zero) = (got, acc, sent, r)"
    by (cases "uart_run [Wr 0x04 0x1000, Rx 0x7e] (s5l_uart_reset uart_zero)")
  have "bit (utrstat_pending r) 4 \<and> bit (ucon r) 12 \<and> \<not> rx_irq_suppressed r \<and> uart_list r = [0x7e]"
    using f by (auto simp: s5l_uart_reset_def s5l_uart_rx_push_def s5l_uart_write_def uart_list_def ring_def bit_numeral_word_iff)
  then show ?thesis using uart_status_truthful [OF f] unfolding f by (simp add: Let_def)
qed

end
