(* ===== verification/SocTimer.thy ===== *)
theory SocTimer
  imports Prelude
begin

text \<open>
  The timer block of \<open>soc/timer.c\<close>: the free-running 64-bit timebase and the timer 4 down-counter.
  \<open>s5l_timer_tick\<close> moves the counter by any number of timebase ticks in one computation;
  \<open>timer_edge\<close> is the hardware clock edge it stands for, and the lemmas show that the computation is
  that edge iterated.
\<close>

unbundle bit_operations_syntax

subsection \<open>State and registers\<close>

record s5l_timer =
  ticks :: u64
  config :: u32
  t4_config :: u32
  t4_state :: u32
  t4_count :: u32
  t4_count2 :: u32
  t4_value :: u32
  irqlatch :: u32

abbreviation "TIMER_TICKSHIGH \<equiv> 0x80 :: u32"
abbreviation "TIMER_TICKSLOW \<equiv> 0x84 :: u32"
abbreviation "TIMER_CONFIG \<equiv> 0x88 :: u32"
abbreviation "TIMER4_CONFIG \<equiv> 0xa0 :: u32"
abbreviation "TIMER4_STATE \<equiv> 0xa4 :: u32"
abbreviation "TIMER4_COUNTBUF \<equiv> 0xa8 :: u32"
abbreviation "TIMER4_COUNTBUF2 \<equiv> 0xac :: u32"
abbreviation "TIMER4_VALUE \<equiv> 0xb4 :: u32"
abbreviation "TIMER_IRQACK \<equiv> 0xf4 :: u32"
abbreviation "TIMER_IRQLATCH \<equiv> 0xf8 :: u32"
abbreviation "TIMER_IRQSTATUS \<equiv> 0x10000 :: u32"

definition TIMER4_STATE_START :: u32 where "TIMER4_STATE_START = 1"
definition TIMER4_STATE_UPDATE :: u32 where "TIMER4_STATE_UPDATE = 2"
definition TIMER4_IRQ_BITS :: u32 where "TIMER4_IRQ_BITS = 0x30000"

definition s5l_timer_reset :: s5l_timer where
  "s5l_timer_reset = \<lparr>ticks = 0, config = 0, t4_config = 0, t4_state = 0, t4_count = 0,
     t4_count2 = 0, t4_value = 0, irqlatch = 0\<rparr>"

definition s5l_timer_read :: "s5l_timer \<Rightarrow> u32 \<Rightarrow> u32" where
  "s5l_timer_read t off =
     (if off = TIMER_TICKSLOW then ucast (ticks t)
      else if off = TIMER_TICKSHIGH then ucast (drop_bit 32 (ticks t))
      else if off = TIMER_CONFIG then config t
      else if off = TIMER4_CONFIG then t4_config t
      else if off = TIMER4_STATE then t4_state t
      else if off = TIMER4_COUNTBUF then t4_count t
      else if off = TIMER4_COUNTBUF2 then t4_count2 t
      else if off = TIMER4_VALUE then t4_value t
      else if off = TIMER_IRQLATCH then irqlatch t
      else if off = TIMER_IRQSTATUS then irqlatch t
      else 0)"

definition s5l_timer_write :: "s5l_timer \<Rightarrow> u32 \<Rightarrow> u32 \<Rightarrow> s5l_timer" where
  "s5l_timer_write t off v =
     (if off = TIMER_CONFIG then t\<lparr>config := v\<rparr>
      else if off = TIMER4_CONFIG then t\<lparr>t4_config := v\<rparr>
      else if off = TIMER4_STATE then
        let t = t\<lparr>t4_state := v\<rparr>
        in if v AND TIMER4_STATE_UPDATE \<noteq> 0 then t\<lparr>t4_value := t4_count t\<rparr> else t
      else if off = TIMER4_COUNTBUF then t\<lparr>t4_count := v, t4_value := v\<rparr>
      else if off = TIMER4_COUNTBUF2 then t\<lparr>t4_count2 := v\<rparr>
      else if off = TIMER_IRQACK \<or> off = TIMER_IRQLATCH then t\<lparr>irqlatch := irqlatch t AND NOT v\<rparr>
      else if off = TIMER_IRQSTATUS then t\<lparr>irqlatch := 0\<rparr>
      else t)"

definition s5l_timer_tick :: "s5l_timer \<Rightarrow> u32 \<Rightarrow> bool \<times> s5l_timer" where
  "s5l_timer_tick t n =
     (let t = t\<lparr>ticks := ticks t + ucast n\<rparr>;
          t = (if t4_state t AND TIMER4_STATE_START \<noteq> 0 \<and> n \<noteq> 0 then
                 let v = t4_value t;
                     period = t4_count t;
                     v = (if v = 0 then period else v)
                 in if v \<noteq> 0 then
                      if n < v then t\<lparr>t4_value := v - n\<rparr>
                      else
                        let after_first = n - v;
                            t = t\<lparr>irqlatch := irqlatch t OR TIMER4_IRQ_BITS\<rparr>
                        in if period = 0 then t\<lparr>t4_value := 0\<rparr>
                           else
                             let phase = after_first mod period
                             in t\<lparr>t4_value := if phase \<noteq> 0 then period - phase else period\<rparr>
                    else t
               else t)
      in (irqlatch t \<noteq> 0, t))"

text \<open>\<open>wake_edge_timer\<close> of \<open>machine.c\<close>: how far away the next expiry is.\<close>

definition wake_edge_timer :: "s5l_timer \<Rightarrow> u32 option" where
  "wake_edge_timer t =
     (if t4_state t AND TIMER4_STATE_START = 0 then None
      else
        let until = (if t4_value t \<noteq> 0 then t4_value t else t4_count t)
        in if until = 0 then None else Some until)"

subsection \<open>The clock edge\<close>

text \<open>
  One edge of the timebase clock: the timebase counts; a running down-counter that stands at zero is
  reloaded first, counts down by one, and on reaching zero latches the interrupt and reloads.
\<close>

definition timer_edge :: "s5l_timer \<Rightarrow> s5l_timer" where
  "timer_edge t =
     (let t = t\<lparr>ticks := ticks t + 1\<rparr>;
          live = (if t4_value t = 0 then t4_count t else t4_value t)
      in if t4_state t AND TIMER4_STATE_START = 0 \<or> live = 0 then t
         else if live = 1 then
           t\<lparr>t4_value := t4_count t, irqlatch := irqlatch t OR TIMER4_IRQ_BITS\<rparr>
         else t\<lparr>t4_value := live - 1\<rparr>)"

lemma timer_tick_0 [simp]: "snd (s5l_timer_tick t 0) = t"
  by (simp add: s5l_timer_tick_def)

lemma fst_timer_tick: "fst (s5l_timer_tick t n) \<longleftrightarrow> irqlatch (snd (s5l_timer_tick t n)) \<noteq> 0"
  by (simp add: s5l_timer_tick_def Let_def)

text \<open>The down-counter on natural numbers: from live value \<open>v\<close>, with reload \<open>p\<close>, after \<open>n\<close> ticks.\<close>

definition countdown :: "nat \<Rightarrow> nat \<Rightarrow> nat \<Rightarrow> nat \<times> bool" where
  "countdown v p n =
     (if n < v then (v - n, False)
      else if p = 0 then (0, True)
      else (p - (n - v) mod p, True))"

lemma countdown_Suc:
  assumes "0 < v"
  shows "countdown v p (Suc n) =
    (let (w, l) = countdown v p n; live = (if w = 0 then p else w)
     in if live = 0 then (w, l) else if live = 1 then (p, True) else (live - 1, l))"
proof (cases "n < v \<or> p = 0")
  case True
  then show ?thesis
    using assms by (cases "Suc n < v") (auto simp: countdown_def Let_def not_less le_Suc_eq)
next
  case False
  then have nv: "Suc n - v = Suc (n - v)" and p: "0 < p" and n: "v \<le> n" by auto
  obtain r where r: "(n - v) mod p = r" and lt: "r < p" using p by simp
  have "countdown v p (Suc n) = (p - Suc (n - v) mod p, True)"
    using n p by (simp add: countdown_def nv)
  moreover have "countdown v p n = (p - r, True)"
    using n p by (simp add: countdown_def r)
  moreover have "p - r = 1 \<longleftrightarrow> Suc r = p"
    using lt by arith
  ultimately show ?thesis
    using lt p by (auto simp: mod_Suc Let_def r)
qed

definition timer_running :: "s5l_timer \<Rightarrow> bool" where
  "timer_running t \<longleftrightarrow> t4_state t AND TIMER4_STATE_START \<noteq> 0 \<and> (t4_value t \<noteq> 0 \<or> t4_count t \<noteq> 0)"

definition timer_live :: "s5l_timer \<Rightarrow> u32" where
  "timer_live t = (if t4_value t = 0 then t4_count t else t4_value t)"

lemma timer_live_pos: "timer_running t \<Longrightarrow> 0 < unat (timer_live t)"
  by (auto simp: timer_running_def timer_live_def unat_gt_0)

lemma timer_tick_idle:
  "\<not> timer_running t \<Longrightarrow> snd (s5l_timer_tick t n) = t\<lparr>ticks := ticks t + ucast n\<rparr>"
  by (auto simp: timer_running_def s5l_timer_tick_def Let_def)

lemma timer_tick_running:
  assumes "timer_running t" "n \<noteq> 0"
  shows "snd (s5l_timer_tick t n) =
    (case countdown (unat (timer_live t)) (unat (t4_count t)) (unat n) of (w, l) \<Rightarrow>
       t\<lparr>ticks := ticks t + ucast n, t4_value := of_nat w,
         irqlatch := if l then irqlatch t OR TIMER4_IRQ_BITS else irqlatch t\<rparr>)"
proof -
  have st: "t4_state t AND TIMER4_STATE_START \<noteq> 0" and live: "timer_live t \<noteq> 0"
    using assms by (auto simp: timer_running_def timer_live_def)
  have phase: "(if (n - v) mod p \<noteq> 0 then p - (n - v) mod p else p) = of_nat (unat p - (unat n - unat v) mod unat p)"
    if "\<not> n < v" "p \<noteq> 0" for v p :: u32
  proof -
    have "(unat n - unat v) mod unat p \<le> unat n"
      by (rule order_trans [OF mod_less_eq_dividend]) simp
    then have "(unat n - unat v) mod unat p < 2 ^ LENGTH(32)"
      using unsigned_less [of n] by (rule le_less_trans)
    then have "unat (of_nat ((unat n - unat v) mod unat p) :: u32) = (unat n - unat v) mod unat p"
      by (rule unat_of_nat_len)
    then have "(n - v) mod p = of_nat ((unat n - unat v) mod unat p)"
      using that by (simp add: word_unat_eq_iff unat_mod unat_sub word_less_nat_alt not_less word_le_nat_alt)
    moreover have "(unat n - unat v) mod unat p < unat p"
      using that by (simp add: unat_gt_0)
    ultimately show ?thesis by simp
  qed
  have less: "n < v \<Longrightarrow> v - n = of_nat (unat v - unat n)" for v :: u32
    by (simp add: of_nat_diff word_less_nat_alt)
  show ?thesis
    using assms(2) st live
    by (simp add: s5l_timer_tick_def Let_def countdown_def timer_live_def [symmetric] phase word_less_nat_alt)
qed

lemma timer_edge_idle: "\<not> timer_running t \<Longrightarrow> timer_edge t = t\<lparr>ticks := ticks t + 1\<rparr>"
  by (auto simp: timer_edge_def timer_running_def Let_def)

lemma timer_edge_running:
  "timer_running t \<Longrightarrow> timer_edge t =
     (if timer_live t = 1
      then t\<lparr>ticks := ticks t + 1, t4_value := t4_count t, irqlatch := irqlatch t OR TIMER4_IRQ_BITS\<rparr>
      else t\<lparr>ticks := ticks t + 1, t4_value := timer_live t - 1\<rparr>)"
  by (auto simp: timer_edge_def timer_running_def timer_live_def Let_def)

text \<open>The state \<open>n\<close> ticks after \<open>t\<close>, read off the countdown.\<close>

definition timer_after :: "s5l_timer \<Rightarrow> nat \<Rightarrow> s5l_timer" where
  "timer_after t n =
    (case countdown (unat (timer_live t)) (unat (t4_count t)) n of (w, l) \<Rightarrow>
       t\<lparr>ticks := ticks t + of_nat n, t4_value := of_nat w,
         irqlatch := if l then irqlatch t OR TIMER4_IRQ_BITS else irqlatch t\<rparr>)"

lemma timer_tick_after:
  "timer_running t \<Longrightarrow> n < 2 ^ 32 \<Longrightarrow> n \<noteq> 0 \<Longrightarrow> snd (s5l_timer_tick t (of_nat n)) = timer_after t n"
  by (subst timer_tick_running)
     (simp_all add: timer_after_def unat_of_nat_len ucast_of_nat_u32 word_unat_eq_iff)

lemma timer_after_0: "timer_running t \<Longrightarrow> timer_after t 0 = t\<lparr>t4_value := timer_live t\<rparr>"
  using timer_live_pos [of t] by (simp add: timer_after_def countdown_def)

lemma timer_edge_live: "timer_running t \<Longrightarrow> timer_edge (t\<lparr>t4_value := timer_live t\<rparr>) = timer_edge t"
  by (auto simp: timer_edge_def timer_live_def timer_running_def Let_def)

lemma countdown_small:
  "v < 2 ^ 32 \<Longrightarrow> p < 2 ^ 32 \<Longrightarrow> fst (countdown v p n) < 2 ^ 32"
  by (auto simp: countdown_def less_imp_diff_less)

lemma timer_edge_after:
  assumes "timer_running t"
  shows "timer_edge (timer_after t n) = timer_after t (Suc n)"
proof -
  obtain w l where c: "countdown (unat (timer_live t)) (unat (t4_count t)) n = (w, l)"
    by fastforce
  have w: "w < 2 ^ 32"
    using countdown_small [of "unat (timer_live t)" "unat (t4_count t)" n] c
      unsigned_less [where 'a = nat, of "timer_live t"] unsigned_less [where 'a = nat, of "t4_count t"] by simp
  have uw: "unat (of_nat w :: u32) = w"
    using w by (simp add: unat_of_nat)
  define L where "L = (if w = 0 then unat (t4_count t) else w)"
  have Lb: "L < 2 ^ 32"
    using w unsigned_less [where 'a = nat, of "t4_count t"] by (simp add: L_def)
  have after: "timer_after t n = t\<lparr>ticks := ticks t + of_nat n, t4_value := of_nat w,
      irqlatch := if l then irqlatch t OR TIMER4_IRQ_BITS else irqlatch t\<rparr>"
    by (simp add: timer_after_def c)
  have w0: "of_nat w = (0 :: u32) \<longleftrightarrow> w = 0"
    by (simp add: word_unat_eq_iff uw)
  have live: "timer_live (timer_after t n) = of_nat L"
    by (simp add: timer_live_def after w0 L_def)
  have run: "timer_running (timer_after t n) \<longleftrightarrow> L \<noteq> 0"
    using assms by (auto simp: timer_running_def after w0 L_def unat_gt_0)
  have L1: "of_nat L = (1 :: u32) \<longleftrightarrow> L = 1"
    using Lb by (simp add: word_unat_eq_iff unat_of_nat)
  have step: "countdown (unat (timer_live t)) (unat (t4_count t)) (Suc n) =
      (if L = 0 then (w, l) else if L = 1 then (unat (t4_count t), True) else (L - 1, l))"
    by (simp add: countdown_Suc [OF timer_live_pos [OF assms]] c L_def Let_def)
  note afterS = timer_after_def [of t "Suc n", unfolded step]
  consider "L = 0" | "L = 1" | "1 < L" by linarith
  then show ?thesis
  proof cases
    case 1
    then show ?thesis
      by (simp add: timer_edge_idle run) (simp add: after afterS)
  next
    case 2
    then show ?thesis
      by (simp add: timer_edge_running run live) (simp add: after afterS)
  next
    case 3
    then show ?thesis
      by (simp add: timer_edge_running run live L1) (simp add: after afterS of_nat_diff)
  qed
qed

lemma timer_tick_Suc:
  assumes n: "Suc n < 2 ^ 32"
  shows "snd (s5l_timer_tick t (of_nat (Suc n))) = timer_edge (snd (s5l_timer_tick t (of_nat n)))"
proof (cases "timer_running t")
  case False
  then show ?thesis
    using n ucast_of_nat_u32 [of "Suc n"] ucast_of_nat_u32 [of n]
    by (simp add: timer_tick_idle timer_edge_idle timer_running_def ac_simps)
next
  case True
  then show ?thesis
    using n timer_tick_after [OF True, of "Suc n"] timer_tick_after [OF True, of n] timer_edge_after [OF True, of n]
    by (cases "n = 0") (simp_all add: timer_after_0 timer_edge_live del: of_nat_Suc)
qed

lemma timer_tick_edges: "n < 2 ^ 32 \<Longrightarrow> snd (s5l_timer_tick t (of_nat n)) = (timer_edge ^^ n) t"
  by (induction n) (simp_all add: timer_tick_Suc del: of_nat_Suc)

lemma timer_tick_iter: "snd (s5l_timer_tick t n) = (timer_edge ^^ unat n) t"
  using timer_tick_edges [of "unat n" t] unsigned_less [where 'a = nat, of n] by simp

text \<open>
  C20. Advancing the timer by \<open>n\<close> timebase ticks in one call is exactly \<open>n\<close> clock edges, so splitting
  an interval over several calls changes nothing; the result says whether the latch is up. An expiry
  is latched exactly when the interval reaches the edge \<open>wake_edge_timer\<close> predicts.
\<close>

theorem timer_tick_is_edges:
  "s5l_timer_tick t n = (irqlatch ((timer_edge ^^ unat n) t) \<noteq> 0, (timer_edge ^^ unat n) t) \<and>
   irqlatch (snd (s5l_timer_tick t n)) =
     (case wake_edge_timer t of
        Some u \<Rightarrow> if u \<le> n then irqlatch t OR TIMER4_IRQ_BITS else irqlatch t
      | None \<Rightarrow> irqlatch t)"
proof
  show "s5l_timer_tick t n = (irqlatch ((timer_edge ^^ unat n) t) \<noteq> 0, (timer_edge ^^ unat n) t)"
    by (rule prod_eqI) (simp_all add: fst_timer_tick timer_tick_iter)
  show "irqlatch (snd (s5l_timer_tick t n)) =
     (case wake_edge_timer t of
        Some u \<Rightarrow> if u \<le> n then irqlatch t OR TIMER4_IRQ_BITS else irqlatch t
      | None \<Rightarrow> irqlatch t)"
    by (auto simp: s5l_timer_tick_def wake_edge_timer_def Let_def not_less split: if_splits)
qed

end
