(* ===== verification/SocVic.thy ===== *)
theory SocVic
  imports Prelude
begin

text \<open>
  The vectored interrupt controller of \<open>soc/vic.c\<close> and the way \<open>machine.c\<close> chains the two of them
  into one source number space. The specification is the set of sources that are pending, enabled and
  routed to IRQ: the VICADDRESS dispatch must hand out its elements in increasing order.
\<close>

unbundle bit_operations_syntax

subsection \<open>State and registers\<close>

record s5l_vic =
  raw :: u32
  enable :: u32
  select :: u32
  soft :: u32

abbreviation "VIC_IRQSTATUS \<equiv> 0x0 :: u32"
abbreviation "VIC_FIQSTATUS \<equiv> 0x4 :: u32"
abbreviation "VIC_RAWINTR \<equiv> 0x8 :: u32"
abbreviation "VIC_INTSELECT \<equiv> 0xc :: u32"
abbreviation "VIC_INTENABLE \<equiv> 0x10 :: u32"
abbreviation "VIC_INTENCLEAR \<equiv> 0x14 :: u32"
abbreviation "VIC_SOFTINT \<equiv> 0x18 :: u32"
abbreviation "VIC_SOFTINTCLEAR \<equiv> 0x1c :: u32"
abbreviation "VIC_VECTADDR \<equiv> 0xf00 :: u32"

definition vic_pending :: "s5l_vic \<Rightarrow> u32" where
  "vic_pending v = raw v OR soft v"

definition s5l_vic_reset :: s5l_vic where
  "s5l_vic_reset = \<lparr>raw = 0, enable = 0, select = 0, soft = 0\<rparr>"

definition s5l_vic_irq :: "s5l_vic \<Rightarrow> bool" where
  "s5l_vic_irq v \<longleftrightarrow> vic_pending v AND enable v AND NOT (select v) \<noteq> 0"

definition s5l_vic_fiq :: "s5l_vic \<Rightarrow> bool" where
  "s5l_vic_fiq v \<longleftrightarrow> vic_pending v AND enable v AND select v \<noteq> 0"

definition s5l_vic_set_line :: "s5l_vic \<Rightarrow> nat \<Rightarrow> bool \<Rightarrow> s5l_vic" where
  "s5l_vic_set_line v line level =
     (if line > 31 then v
      else if level then v\<lparr>raw := raw v OR push_bit line 1\<rparr>
      else v\<lparr>raw := raw v AND NOT (push_bit line 1)\<rparr>)"

text \<open>
  The priority scan \<open>while (!(irq & (1u << bit))) bit++\<close>: on a word without a set bit at or above
  the start it would not end, so its value is an option.
\<close>

partial_function (option) vic_scan :: "u32 \<Rightarrow> nat \<Rightarrow> nat option" where
  "vic_scan irq k = (if irq AND push_bit k 1 \<noteq> 0 then Some k else vic_scan irq (k + 1))"

definition s5l_vic_vectaddr :: "s5l_vic \<Rightarrow> u32 \<Rightarrow> u32 option" where
  "s5l_vic_vectaddr v base_source =
     (let irq = vic_pending v AND enable v AND NOT (select v)
      in if irq = 0 then Some 0
         else case vic_scan irq 0 of
             None \<Rightarrow> None
           | Some k \<Rightarrow> Some ((base_source + of_nat k) OR 0x80000000))"

definition s5l_vic_read :: "s5l_vic \<Rightarrow> u32 \<Rightarrow> u32" where
  "s5l_vic_read v off =
     (if off = VIC_IRQSTATUS then vic_pending v AND enable v AND NOT (select v)
      else if off = VIC_FIQSTATUS then vic_pending v AND enable v AND select v
      else if off = VIC_RAWINTR then vic_pending v
      else if off = VIC_INTSELECT then select v
      else if off = VIC_INTENABLE then enable v
      else if off = VIC_SOFTINT then soft v
      else 0)"

definition s5l_vic_write :: "s5l_vic \<Rightarrow> u32 \<Rightarrow> u32 \<Rightarrow> s5l_vic" where
  "s5l_vic_write v off w =
     (if off = VIC_INTSELECT then v\<lparr>select := w\<rparr>
      else if off = VIC_INTENABLE then v\<lparr>enable := enable v OR w\<rparr>
      else if off = VIC_INTENCLEAR then v\<lparr>enable := enable v AND NOT w\<rparr>
      else if off = VIC_SOFTINT then v\<lparr>soft := soft v OR w\<rparr>
      else if off = VIC_SOFTINTCLEAR then v\<lparr>soft := soft v AND NOT w\<rparr>
      else v)"

text \<open>The reads of the two controllers' windows on the bus: VIC0 answers VICADDRESS for both.\<close>

definition vic0_bus_read :: "s5l_vic \<Rightarrow> s5l_vic \<Rightarrow> u32 \<Rightarrow> u32 option" where
  "vic0_bus_read v0 v1 off =
     (if off = VIC_VECTADDR then
        case s5l_vic_vectaddr v0 0 of
          None \<Rightarrow> None
        | Some w \<Rightarrow> if w = 0 then s5l_vic_vectaddr v1 32 else Some w
      else Some (s5l_vic_read v0 off))"

definition vic1_bus_read :: "s5l_vic \<Rightarrow> u32 \<Rightarrow> u32 option" where
  "vic1_bus_read v1 off =
     (if off = VIC_VECTADDR then s5l_vic_vectaddr v1 32 else Some (s5l_vic_read v1 off))"

text \<open>What the refresh of \<open>machine.c\<close> presents to the CPU: both controllers drive both lines.\<close>

definition vic_cpu_lines :: "s5l_vic \<Rightarrow> s5l_vic \<Rightarrow> bool \<times> bool" where
  "vic_cpu_lines v0 v1 = (s5l_vic_irq v0 \<or> s5l_vic_irq v1, s5l_vic_fiq v0 \<or> s5l_vic_fiq v1)"

subsection \<open>Sources\<close>

definition vic_sources :: "s5l_vic \<Rightarrow> nat set" where
  "vic_sources v = {i. i < 32 \<and> bit (vic_pending v AND enable v AND NOT (select v)) i}"

definition vic_chain_sources :: "s5l_vic \<Rightarrow> s5l_vic \<Rightarrow> nat set" where
  "vic_chain_sources v0 v1 = vic_sources v0 \<union> (\<lambda>i. i + 32) ` vic_sources v1"

lemma finite_vic_sources [simp]: "finite (vic_sources v)"
  by (rule finite_subset [of _ "{..< 32}"]) (auto simp: vic_sources_def)

lemma finite_vic_chain [simp]: "finite (vic_chain_sources v0 v1)"
  by (simp add: vic_chain_sources_def)

lemma vic_sources_less: "i \<in> vic_sources v \<Longrightarrow> i < 32"
  by (simp add: vic_sources_def)

lemma card_vic_chain: "card (vic_chain_sources v0 v1) \<le> 64"
proof -
  have "vic_chain_sources v0 v1 \<subseteq> {..< 64}"
    by (auto simp: vic_chain_sources_def dest: vic_sources_less)
  then show ?thesis
    using card_mono [of "{..< 64 :: nat}"] by fastforce
qed

lemma word_eq_0_bits: "w = 0 \<longleftrightarrow> (\<forall>i < 32. \<not> bit (w :: u32) i)"
  by (auto simp: bit_eq_iff)

lemma vic_sources_empty: "vic_sources v = {} \<longleftrightarrow> vic_pending v AND enable v AND NOT (select v) = 0"
  by (auto simp: vic_sources_def word_eq_0_bits)

lemma vic_scan_found:
  "bit (irq :: u32) n \<Longrightarrow> (\<And>i. k \<le> i \<Longrightarrow> i < n \<Longrightarrow> \<not> bit irq i) \<Longrightarrow> k \<le> n \<Longrightarrow> vic_scan irq k = Some n"
proof (induction "n - k" arbitrary: k)
  case 0
  then show ?case
    by (subst vic_scan.simps) (simp add: bit_iff_and_push_bit_not_eq_0)
next
  case (Suc d)
  then show ?case
    by (subst vic_scan.simps) (auto simp: bit_iff_and_push_bit_not_eq_0)
qed

lemma vic_scan_sources:
  assumes "vic_sources v \<noteq> {}"
  shows "vic_scan (vic_pending v AND enable v AND NOT (select v)) 0 = Some (Min (vic_sources v))"
proof (rule vic_scan_found)
  have "Min (vic_sources v) \<in> vic_sources v"
    using assms by simp
  then show "bit (vic_pending v AND enable v AND NOT (select v)) (Min (vic_sources v))"
    unfolding vic_sources_def by blast
  show "\<not> bit (vic_pending v AND enable v AND NOT (select v)) i" if "i < Min (vic_sources v)" for i
  proof
    assume b: "bit (vic_pending v AND enable v AND NOT (select v)) i"
    then have "i \<in> vic_sources v"
      unfolding vic_sources_def using bit_imp_le_length [OF b] by simp
    then show False
      using that by (simp add: not_le [symmetric])
  qed
qed simp

lemma vectaddr_sources:
  "s5l_vic_vectaddr v b =
    (if vic_sources v = {} then Some 0 else Some ((b + of_nat (Min (vic_sources v))) OR 0x80000000))"
  by (auto simp: s5l_vic_vectaddr_def Let_def vic_sources_empty vic_scan_sources)

subsection \<open>Serving the sources\<close>

text \<open>A source falls silent when its device drops the line and the driver clears a software request.\<close>

definition vic_quiet :: "s5l_vic \<Rightarrow> nat \<Rightarrow> s5l_vic" where
  "vic_quiet v i = s5l_vic_write (s5l_vic_set_line v i False) VIC_SOFTINTCLEAR (push_bit i 1)"

lemma vic_sources_quiet: "i < 32 \<Longrightarrow> vic_sources (vic_quiet v i) = vic_sources v - {i}"
  by (auto simp: vic_sources_def vic_quiet_def s5l_vic_write_def s5l_vic_set_line_def vic_pending_def bit_simps)

text \<open>The handler's loop: read VICADDRESS, serve the source it names, until it reads zero.\<close>

fun vic_drain :: "nat \<Rightarrow> s5l_vic \<Rightarrow> s5l_vic \<Rightarrow> nat list option" where
  "vic_drain 0 v0 v1 = None"
| "vic_drain (Suc n) v0 v1 =
     (case vic0_bus_read v0 v1 VIC_VECTADDR of
        None \<Rightarrow> None
      | Some w \<Rightarrow>
          if w = 0 then Some []
          else
            let s = unat (w AND 0x7fffffff)
            in map_option ((#) s)
                 (if s < 32 then vic_drain n (vic_quiet v0 s) v1 else vic_drain n v0 (vic_quiet v1 (s - 32))))"

lemma vic_tag_decode:
  assumes "x < 64"
  shows "unat ((of_nat x OR 0x80000000) AND 0x7fffffff :: u32) = x"
proof -
  have m: "(0x7fffffff :: u32) = mask 31"
    by (simp add: mask_eq_exp_minus_1)
  have "(of_nat x OR 0x80000000) AND 0x7fffffff = (of_nat x AND 0x7fffffff :: u32)"
    by (simp add: bit.conj_disj_distrib2)
  also have "\<dots> = take_bit 31 (of_nat x)"
    by (simp add: m take_bit_eq_mask)
  finally show ?thesis
    using assms by (simp add: unsigned_take_bit_eq unat_of_nat take_bit_nat_eq_self)
qed

lemma vic_tag_nonzero: "x OR 0x80000000 \<noteq> (0 :: u32)"
proof
  assume "x OR 0x80000000 = (0 :: u32)"
  then have "bit (x OR 0x80000000) 31 = bit (0 :: u32) 31" by simp
  then show False by (simp add: bit_or_iff bit_masks)
qed

lemma vic_chain_read:
  "vic0_bus_read v0 v1 VIC_VECTADDR =
     (if vic_chain_sources v0 v1 = {} then Some 0
      else Some (of_nat (Min (vic_chain_sources v0 v1)) OR 0x80000000))"
proof -
  have *: "Min (vic_sources v0 \<union> (\<lambda>i. i + 32) ` vic_sources v1) = Min (vic_sources v0)" if "vic_sources v0 \<noteq> {}"
  proof (rule Min_eqI)
    fix y assume "y \<in> vic_sources v0 \<union> (\<lambda>i. i + 32) ` vic_sources v1"
    moreover have "Min (vic_sources v0) < 32"
      using that vic_sources_less [OF Min_in [OF finite_vic_sources that]] by simp
    ultimately show "Min (vic_sources v0) \<le> y" by auto
  qed (use that in auto)
  have **: "Min ((\<lambda>i. i + 32) ` vic_sources v1) = Min (vic_sources v1) + 32" if "vic_sources v1 \<noteq> {}"
    by (rule mono_Min_commute [symmetric]) (auto simp: mono_def that)
  show ?thesis
    by (auto simp: vic0_bus_read_def vectaddr_sources vic_chain_sources_def * ** vic_tag_nonzero ac_simps)
qed

lemma vic_chain_quiet:
  assumes "s \<in> vic_chain_sources v0 v1"
  shows "s < 32 \<Longrightarrow> vic_chain_sources (vic_quiet v0 s) v1 = vic_chain_sources v0 v1 - {s}"
    and "\<not> s < 32 \<Longrightarrow> vic_chain_sources v0 (vic_quiet v1 (s - 32)) = vic_chain_sources v0 v1 - {s}"
  using assms by (auto simp: vic_chain_sources_def vic_sources_quiet dest: vic_sources_less)

lemma vic_drain_sorted:
  "card (vic_chain_sources v0 v1) < n \<Longrightarrow>
   vic_drain n v0 v1 = Some (sorted_list_of_set (vic_chain_sources v0 v1))"
proof (induction n v0 v1 rule: vic_drain.induct)
  case (1 v0 v1)
  then show ?case by simp
next
  case (2 n v0 v1)
  let ?S = "vic_chain_sources v0 v1"
  show ?case
  proof (cases "?S = {}")
    case True
    then show ?thesis by (simp add: vic_chain_read)
  next
    case False
    define s where "s = Min ?S"
    have s: "s \<in> ?S"
      using False by (simp add: s_def)
    then have s64: "s < 64"
      by (auto simp: vic_chain_sources_def dest: vic_sources_less)
    have read: "vic0_bus_read v0 v1 VIC_VECTADDR = Some (of_nat s OR 0x80000000)"
      using False by (simp add: vic_chain_read s_def)
    have card: "card (?S - {s}) < n"
      using "2.prems" card_Diff1_less [OF finite_vic_chain s] by linarith
    have list: "sorted_list_of_set ?S = s # sorted_list_of_set (?S - {s})"
      using False by (simp add: sorted_list_of_set_nonempty s_def)
    show ?thesis
    proof (cases "s < 32")
      case True
      then show ?thesis
        using "2.IH"(1) [OF read vic_tag_nonzero refl] card
        by (simp add: read vic_tag_nonzero vic_tag_decode [OF s64] Let_def list vic_chain_quiet(1) [OF s])
    next
      case False
      then show ?thesis
        using "2.IH"(2) [OF read vic_tag_nonzero refl] card
        by (simp add: read vic_tag_nonzero vic_tag_decode [OF s64] Let_def list vic_chain_quiet(2) [OF s])
    qed
  qed
qed

text \<open>
  C21. The priority scan always ends: VICADDRESS always answers. A handler that reads it and serves the
  source it names until it reads zero ends within 64 rounds, having served every pending, enabled,
  IRQ-routed source of both controllers exactly once, in increasing order; and the IRQ line is up
  exactly while there is such a source.
\<close>

theorem vic_drain_serves_all:
  "vic_drain 65 v0 v1 = Some (sorted_list_of_set (vic_chain_sources v0 v1)) \<and>
   (fst (vic_cpu_lines v0 v1) \<longleftrightarrow> vic_chain_sources v0 v1 \<noteq> {})"
  using vic_drain_sorted [of v0 v1 65] card_vic_chain [of v0 v1]
  by (simp add: vic_cpu_lines_def s5l_vic_irq_def vic_chain_sources_def vic_sources_empty)

end
