(* ===== verification/SocPower.thy ===== *)
theory SocPower
  imports Prelude
begin

text \<open>
  The power-gate controller of \<open>soc/power.c\<close>: STATE is moved only by the two write-one registers
  ONCTRL and OFFCTRL, and the guest driver waits for it in a polling loop. The loop may not end, so it
  is a partial function; the theorem says exactly when it does.
\<close>

unbundle bit_operations_syntax

subsection \<open>State and registers\<close>

record s5l_power =
  pstate :: u32
  cfg0 :: u32
  cfg1 :: u32
  sram :: u32
  cfg24 :: u32
  cfg28 :: u32

abbreviation "POWER_CONFIG0 \<equiv> 0x0 :: u32"
abbreviation "POWER_CONFIG1 \<equiv> 0x4 :: u32"
abbreviation "POWER_SETSTATE \<equiv> 0x8 :: u32"
abbreviation "POWER_ONCTRL \<equiv> 0xc :: u32"
abbreviation "POWER_OFFCTRL \<equiv> 0x10 :: u32"
abbreviation "POWER_STATE \<equiv> 0x14 :: u32"
abbreviation "POWER_SRAM \<equiv> 0x20 :: u32"
abbreviation "POWER_CFG24 \<equiv> 0x24 :: u32"
abbreviation "POWER_CFG28 \<equiv> 0x28 :: u32"

definition S5L_POWER_DOMAIN_MASK :: u32 where "S5L_POWER_DOMAIN_MASK = 0x3fff"
definition S5L_POWER_GATE_DEFAULTS :: u32 where "S5L_POWER_GATE_DEFAULTS = 0x12fc"

definition s5l_power_reset :: s5l_power where
  "s5l_power_reset = \<lparr>pstate = S5L_POWER_GATE_DEFAULTS, cfg0 = 0, cfg1 = 0, sram = 0, cfg24 = 0, cfg28 = 0\<rparr>"

definition s5l_power_read :: "s5l_power \<Rightarrow> u32 \<Rightarrow> u32" where
  "s5l_power_read p off =
     (if off = POWER_CONFIG0 then cfg0 p
      else if off = POWER_CONFIG1 then cfg1 p
      else if off = POWER_SETSTATE then pstate p
      else if off = POWER_STATE then pstate p
      else if off = POWER_SRAM then sram p
      else if off = POWER_CFG24 then cfg24 p
      else if off = POWER_CFG28 then cfg28 p
      else 0)"

definition s5l_power_write :: "s5l_power \<Rightarrow> u32 \<Rightarrow> u32 \<Rightarrow> s5l_power" where
  "s5l_power_write p off v =
     (if off = POWER_CONFIG0 then p\<lparr>cfg0 := v\<rparr>
      else if off = POWER_CONFIG1 then p\<lparr>cfg1 := v\<rparr>
      else if off = POWER_ONCTRL then p\<lparr>pstate := pstate p AND NOT (v AND S5L_POWER_DOMAIN_MASK)\<rparr>
      else if off = POWER_OFFCTRL then p\<lparr>pstate := pstate p OR (v AND S5L_POWER_DOMAIN_MASK)\<rparr>
      else if off = POWER_STATE then p
      else if off = POWER_SRAM then p\<lparr>sram := v\<rparr>
      else if off = POWER_CFG24 then p\<lparr>cfg24 := v\<rparr>
      else if off = POWER_CFG28 then p\<lparr>cfg28 := v\<rparr>
      else p)"

subsection \<open>Histories of writes\<close>

definition power_writes :: "(u32 \<times> u32) list \<Rightarrow> s5l_power \<Rightarrow> s5l_power" where
  "power_writes ws p = fold (\<lambda>(off, v) p. s5l_power_write p off v) ws p"

text \<open>Whether domain \<open>n\<close> is gated off: the last write of a one to its bit decides.\<close>

fun gated :: "nat \<Rightarrow> (u32 \<times> u32) list \<Rightarrow> bool \<Rightarrow> bool" where
  "gated n [] g = g"
| "gated n ((off, v) # ws) g =
     gated n ws (if n < 14 \<and> bit v n \<and> off = POWER_OFFCTRL then True
                 else if n < 14 \<and> bit v n \<and> off = POWER_ONCTRL then False else g)"

lemma bit_domain: "bit (v AND S5L_POWER_DOMAIN_MASK) n \<longleftrightarrow> n < 14 \<and> bit v n"
  by (auto simp: S5L_POWER_DOMAIN_MASK_def bit_and_iff bit_masks)

lemma power_write_other:
  "off \<noteq> POWER_ONCTRL \<Longrightarrow> off \<noteq> POWER_OFFCTRL \<Longrightarrow> pstate (s5l_power_write p off v) = pstate p"
  by (simp add: s5l_power_write_def)

lemma bit_power_off:
  "bit (pstate (s5l_power_write p POWER_OFFCTRL v)) n \<longleftrightarrow> bit (pstate p) n \<or> n < 14 \<and> bit v n"
  by (simp add: s5l_power_write_def bit_or_iff bit_domain)

lemma bit_power_on:
  "bit (pstate (s5l_power_write p POWER_ONCTRL v)) n \<longleftrightarrow> bit (pstate p) n \<and> \<not> (n < 14 \<and> bit v n)"
  by (auto simp: s5l_power_write_def bit_and_iff bit_not_iff bit_or_iff S5L_POWER_DOMAIN_MASK_def bit_masks bit_neg_masks dest: bit_imp_le_length)

lemma bit_power_write:
  "bit (pstate (s5l_power_write p off v)) n =
    (if n < 14 \<and> bit v n \<and> off = POWER_OFFCTRL then True
     else if n < 14 \<and> bit v n \<and> off = POWER_ONCTRL then False else bit (pstate p) n)"
proof (cases "off = POWER_OFFCTRL \<or> off = POWER_ONCTRL")
  case True
  then show ?thesis by (elim disjE) (auto simp: bit_power_off bit_power_on)
next
  case False
  then show ?thesis by (simp add: power_write_other)
qed

lemma power_writes_gated: "bit (pstate (power_writes ws p)) n = gated n ws (bit (pstate p) n)"
proof (induction ws arbitrary: p)
  case Nil
  then show ?case by (simp add: power_writes_def)
next
  case (Cons w ws)
  have "power_writes (w # ws) p = power_writes ws (s5l_power_write p (fst w) (snd w))"
    by (simp add: power_writes_def split_beta)
  then show ?case
    by (cases w) (simp only: Cons.IH bit_power_write gated.simps fst_conv snd_conv)
qed

subsection \<open>The driver's polling loop\<close>

text \<open>
  \<open>do { s = read(STATE); } while ((s & m) != (off ? m : 0));\<close>, the loop quoted in \<open>power.c\<close>: no
  register changes while it spins.
\<close>

partial_function (option) power_poll :: "s5l_power \<Rightarrow> u32 \<Rightarrow> u32 \<Rightarrow> u32 option" where
  "power_poll p m want =
     (let s = s5l_power_read p POWER_STATE in if s AND m = want then Some s else power_poll p m want)"

lemma power_poll_returns:
  "s5l_power_read p POWER_STATE AND m = want \<Longrightarrow> power_poll p m want = Some (s5l_power_read p POWER_STATE)"
  by (subst power_poll.simps) simp

lemma power_poll_sound: "power_poll p m want = Some s \<Longrightarrow> s5l_power_read p POWER_STATE AND m = want"
  by (rule power_poll.raw_induct [where P = "\<lambda>p m want s. s5l_power_read p POWER_STATE AND m = want"])
     (auto simp: Let_def split: if_split_asm)

lemma power_poll_spins:
  "s5l_power_read p POWER_STATE AND m \<noteq> want \<Longrightarrow> power_poll p m want = None"
  using power_poll_sound [of p m want] by (cases "power_poll p m want") auto

lemma power_read_state: "s5l_power_read p POWER_STATE = pstate p"
  by (simp add: s5l_power_read_def)

text \<open>
  STATE bit \<open>n\<close> of a domain tells which of OFFCTRL and ONCTRL last wrote a one to it, over any
  writes to any registers, and no other bit ever moves. So the driver's loop after gating a set of
  domains off or on returns at once when the set names domains only; a mask with a bit outside the
  fourteen domains that reads zero is never reported as gated, and the loop spins for ever.
\<close>

theorem power_poll_live:
  "bit (pstate (power_writes ws p)) n = gated n ws (bit (pstate p) n) \<and>
   (power_poll (s5l_power_write p POWER_OFFCTRL m) m m \<noteq> None \<longleftrightarrow>
      m AND NOT (S5L_POWER_DOMAIN_MASK OR pstate p) = 0) \<and>
   (power_poll (s5l_power_write p POWER_ONCTRL m) m 0 \<noteq> None \<longleftrightarrow>
      m AND pstate p AND NOT S5L_POWER_DOMAIN_MASK = 0)"
proof -
  have iff: "power_poll p m want \<noteq> None \<longleftrightarrow> pstate p AND m = want" for p m want
    using power_poll_returns [of p m want] power_poll_spins [of p m want]
    by (cases "pstate p AND m = want") (simp_all add: power_read_state)
  have off: "pstate (s5l_power_write p POWER_OFFCTRL m) AND m = m \<longleftrightarrow> m AND NOT (S5L_POWER_DOMAIN_MASK OR pstate p) = 0"
    by (auto simp: bit_eq_iff bit_power_off bit_simps S5L_POWER_DOMAIN_MASK_def bit_masks)
  have on: "pstate (s5l_power_write p POWER_ONCTRL m) AND m = 0 \<longleftrightarrow> m AND pstate p AND NOT S5L_POWER_DOMAIN_MASK = 0"
    by (auto simp: bit_eq_iff bit_power_on bit_simps S5L_POWER_DOMAIN_MASK_def bit_masks)
  show ?thesis
    by (simp only: iff off on power_writes_gated)
qed

end
