(* ===== verification/Lzss.thy ===== *)
theory Lzss
  imports Prelude
begin

text \<open>
  Apple's compressed kernelcache (\<open>firmware/lzss.c\<close>): the container header, the bounded LZSS decoder
  with its 4096-byte ring, and the Adler-32 check. The reference is the sliding window: a stream is a
  list of items, each a literal or a copy from a distance back in the text already produced, and
  \<open>lz_expand\<close> needs neither ring nor indices. Bytes produced are a list; the C array \<open>dst\<close> holds
  them from its start, and the return value is their number. The eighteen ring bytes the code leaves
  uninitialised are a parameter, so that a result that depends on them shows it.
\<close>

unbundle bit_operations_syntax

subsection \<open>Header\<close>

record lzss_header =
  adler32 :: u32
  uncompressed_size :: u32
  compressed_size :: u32

abbreviation "LZSS_HEADER_SIZE \<equiv> 0x180 :: nat"

definition LZSS_SIG_COMP :: u32 where "LZSS_SIG_COMP = 0x636f6d70"
definition LZSS_SIG_LZSS :: u32 where "LZSS_SIG_LZSS = 0x6c7a7373"

definition rd32be :: "u8 list \<Rightarrow> nat \<Rightarrow> u32" where
  "rd32be p k = push_bit 24 (ucast (p ! k)) OR push_bit 16 (ucast (p ! (k + 1)))
     OR push_bit 8 (ucast (p ! (k + 2))) OR ucast (p ! (k + 3))"

definition lzss_parse_header :: "u8 list \<Rightarrow> lzss_header option" where
  "lzss_parse_header buf =
     (if length buf < LZSS_HEADER_SIZE then None
      else if rd32be buf 0 \<noteq> LZSS_SIG_COMP then None
      else if rd32be buf 4 \<noteq> LZSS_SIG_LZSS then None
      else
        let adler = rd32be buf 8; unc = rd32be buf 12; cmp = rd32be buf 16
        in if LZSS_HEADER_SIZE + unat cmp > length buf then None
           else Some \<lparr>adler32 = adler, uncompressed_size = unc, compressed_size = cmp\<rparr>)"

lemma lzss_parse_header_fits:
  "lzss_parse_header buf = Some h \<Longrightarrow> LZSS_HEADER_SIZE + unat (compressed_size h) \<le> length buf"
  by (auto simp: lzss_parse_header_def Let_def split: if_split_asm)

subsection \<open>The decoder\<close>

abbreviation "LZSS_N \<equiv> 4096 :: nat"
abbreviation "LZSS_F \<equiv> 18 :: nat"
abbreviation "LZSS_THRESHOLD \<equiv> 2 :: nat"

record lzss =
  lz_ring :: "nat \<Rightarrow> u8"
  lz_r :: nat
  lz_out :: "u8 list"

text \<open>\<open>dst[out++] = c; ring[r++] = c; r &= LZSS_N - 1;\<close>\<close>

definition lz_emit :: "u8 \<Rightarrow> lzss \<Rightarrow> lzss" where
  "lz_emit c z = z\<lparr>lz_out := lz_out z @ [c], lz_ring := (lz_ring z)(lz_r z := c), lz_r := (lz_r z + 1) mod LZSS_N\<rparr>"

text \<open>The copy loop, \<open>n\<close> bytes still to go at ring offset \<open>i\<close>; false when \<open>dst\<close> is full.\<close>

fun lz_copy :: "nat \<Rightarrow> nat \<Rightarrow> nat \<Rightarrow> lzss \<Rightarrow> bool \<times> lzss" where
  "lz_copy cap i 0 z = (True, z)"
| "lz_copy cap i (Suc n) z =
     (let c = lz_ring z (i mod LZSS_N)
      in if length (lz_out z) \<ge> cap then (False, z)
         else lz_copy cap (i + 1) n (lz_emit c z))"

definition lz_flags :: "u32 \<Rightarrow> u8 list \<Rightarrow> (u32 \<times> u8 list) option" where
  "lz_flags flags src =
     (let flags = drop_bit 1 flags
      in if flags AND 0x100 = 0 then
           case src of [] \<Rightarrow> None | b # src \<Rightarrow> Some (ucast b OR 0xff00, src)
         else Some (flags, src))"

lemma lz_flags_shorter: "lz_flags flags src = Some (f, s) \<Longrightarrow> length s \<le> length src"
  by (auto simp: lz_flags_def Let_def split: if_split_asm list.split_asm)

function lz_loop :: "nat \<Rightarrow> u8 list \<Rightarrow> u32 \<Rightarrow> lzss \<Rightarrow> lzss" where
  "lz_loop cap src flags z =
     (case lz_flags flags src of
        None \<Rightarrow> z
      | Some (flags, src) \<Rightarrow>
          if flags AND 1 \<noteq> 0 then
            case src of
              [] \<Rightarrow> z
            | c # src \<Rightarrow> if length (lz_out z) \<ge> cap then z else lz_loop cap src flags (lz_emit c z)
          else
            case src of
              a # b # src \<Rightarrow>
                let i = unat (ucast a OR push_bit 4 (ucast b AND 0xf0) :: u32);
                    j = unat (ucast b AND 0x0f :: u32) + LZSS_THRESHOLD
                in (case lz_copy cap i (j + 1) z of
                      (go, z) \<Rightarrow> if go then lz_loop cap src flags z else z)
            | _ \<Rightarrow> z)"
  by pat_completeness auto

termination
  by (relation "measure (\<lambda>(cap, src, flags, z). length src)")
     (auto dest!: lz_flags_shorter)

declare lz_loop.simps [simp del]

definition lz_start :: "(nat \<Rightarrow> u8) \<Rightarrow> lzss" where
  "lz_start junk =
     \<lparr>lz_ring = (\<lambda>k. if k < LZSS_N - LZSS_F then 0x20 else junk k), lz_r = LZSS_N - LZSS_F, lz_out = []\<rparr>"

definition lzss_decompress :: "(nat \<Rightarrow> u8) \<Rightarrow> nat \<Rightarrow> u8 list \<Rightarrow> u8 list" where
  "lzss_decompress junk dstcap src = lz_out (lz_loop dstcap src 0 (lz_start junk))"

subsection \<open>Checksum\<close>

definition lzss_adler32 :: "u8 list \<Rightarrow> u32" where
  "lzss_adler32 data =
     (case fold (\<lambda>d (a, b). let a = (a + ucast d) mod 65521; b = (b + a) mod 65521 in (a, b)) data (1, 0) of
        (a, b) \<Rightarrow> push_bit 16 b OR a)"

definition adler_sum :: "u8 list \<Rightarrow> nat" where
  "adler_sum xs = 1 + sum_list (map unat xs)"

definition adler_total :: "u8 list \<Rightarrow> nat" where
  "adler_total xs = (\<Sum>k < length xs. adler_sum (take (Suc k) xs))"

lemma adler_sum_snoc: "adler_sum (xs @ [d]) = adler_sum xs + unat d"
  by (simp add: adler_sum_def)

lemma adler_total_snoc: "adler_total (xs @ [d]) = adler_total xs + adler_sum (xs @ [d])"
proof -
  have "(\<Sum>k < length xs. adler_sum (take (Suc k) (xs @ [d]))) = adler_total xs"
    unfolding adler_total_def by (rule sum.cong) (auto simp: Suc_diff_le)
  then show ?thesis by (simp add: adler_total_def)
qed

lemma adler_step:
  assumes "n < 65536"
  shows "(of_nat (m mod 65521) + of_nat n) mod 65521 = (of_nat ((m + n) mod 65521) :: u32)"
proof -
  have m: "m mod 65521 < 65521" by simp
  have "unat (of_nat (m mod 65521) + of_nat n :: u32) = m mod 65521 + n"
    using m assms by (simp only: of_nat_add [symmetric], subst unat_of_nat_len) simp_all
  then have "unat ((of_nat (m mod 65521) + of_nat n) mod 65521 :: u32) = (m + n) mod 65521"
    by (simp only: unat_mod) (simp add: mod_add_left_eq)
  moreover have "unat (of_nat ((m + n) mod 65521) :: u32) = (m + n) mod 65521"
    by (rule unat_of_nat_len) (rule less_trans [of _ 65521], simp_all)
  ultimately show ?thesis by (simp only: word_unat_eq_iff)
qed

text \<open>
  Neither running sum wraps at 32 bits, so the checksum is that of RFC 1950: the sum of the bytes plus
  one, and the sum of those sums over the prefixes, modulo 65521.
\<close>

lemma lzss_adler32_sums:
  "lzss_adler32 data = push_bit 16 (of_nat (adler_total data mod 65521)) OR of_nat (adler_sum data mod 65521)"
proof -
  let ?f = "\<lambda>d (a, b). let a = (a + ucast d) mod 65521; b = (b + a) mod 65521 in (a :: u32, b :: u32)"
  have "fold ?f data (1, 0) = (of_nat (adler_sum data mod 65521), of_nat (adler_total data mod 65521))"
  proof (induction data rule: rev_induct)
    case Nil
    then show ?case by (simp add: adler_sum_def adler_total_def)
  next
    case (snoc d xs)
    have d: "ucast d = (of_nat (unat d) :: u32)" "unat d < 65536"
      using unsigned_less [where 'a = nat, of d] by (simp_all add: word_unat_eq_iff unsigned_ucast_eq)
    have a: "adler_sum (xs @ [d]) mod 65521 < 65536"
      by (rule less_trans [of _ 65521]) simp_all
    have "fold ?f (xs @ [d]) (1, 0) = ?f d (fold ?f xs (1, 0))"
      by (simp only: fold_append fold_simps comp_def)
    also have "\<dots> = (of_nat (adler_sum (xs @ [d]) mod 65521), of_nat ((adler_total xs + adler_sum (xs @ [d]) mod 65521) mod 65521))"
      by (subst snoc.IH) (simp only: prod.case Let_def d(1) adler_step [OF d(2)] adler_sum_snoc [symmetric] adler_step [OF a])
    finally show ?case
      by (simp only: adler_total_snoc mod_add_right_eq)
  qed
  then show ?thesis
    by (simp add: lzss_adler32_def)
qed

subsection \<open>The sliding window\<close>

datatype lz_item = Literal u8 | Copy nat nat

text \<open>The items of a stream: eight per flag byte, least significant flag first; a cut-off item ends it.\<close>

fun lz_items :: "bool list \<Rightarrow> u8 list \<Rightarrow> lz_item list" where
  "lz_items [] (b # src) = lz_items (map (bit b) [0..<8]) src"
| "lz_items (True # fs) (c # src) = Literal c # lz_items fs src"
| "lz_items (False # fs) (a # b # src) =
     Copy (unat a + 256 * (unat b div 16)) (unat b mod 16 + 3) # lz_items fs src"
| "lz_items fs src = []"

text \<open>
  The byte \<open>d\<close> back from the end of the text: the text is preceded by 4078 spaces, and these by the
  bytes the decoder never initialises.
\<close>

definition lz_back :: "(nat \<Rightarrow> u8) \<Rightarrow> u8 list \<Rightarrow> nat \<Rightarrow> u8" where
  "lz_back junk text d =
     (if d \<le> length text then text ! (length text - d)
      else if d - length text \<le> LZSS_N - LZSS_F then 0x20
      else junk (LZSS_N + (LZSS_N - LZSS_F) - (d - length text)))"

text \<open>How far back ring offset \<open>i\<close> lies when the text has length \<open>n\<close>: between 1 and 4096.\<close>

definition lz_distance :: "nat \<Rightarrow> nat \<Rightarrow> nat" where
  "lz_distance n i = LZSS_N - (i + 18 + (LZSS_N - n mod LZSS_N)) mod LZSS_N"

fun lz_expand :: "(nat \<Rightarrow> u8) \<Rightarrow> u8 list \<Rightarrow> lz_item list \<Rightarrow> u8 list" where
  "lz_expand junk text [] = text"
| "lz_expand junk text (Literal c # items) = lz_expand junk (text @ [c]) items"
| "lz_expand junk text (Copy i n # items) =
     (let d = lz_distance (length text) i
      in lz_expand junk (((\<lambda>t. t @ [lz_back junk t d]) ^^ n) text) items)"

subsection \<open>The ring is the window\<close>

definition lz_inv :: "(nat \<Rightarrow> u8) \<Rightarrow> lzss \<Rightarrow> bool" where
  "lz_inv junk z \<longleftrightarrow>
     lz_r z = (LZSS_N - LZSS_F + length (lz_out z)) mod LZSS_N \<and>
     (\<forall>d. 1 \<le> d \<and> d \<le> LZSS_N \<longrightarrow> lz_ring z ((lz_r z + LZSS_N - d) mod LZSS_N) = lz_back junk (lz_out z) d)"

lemma lz_inv_start: "lz_inv junk (lz_start junk)"
proof -
  have "(LZSS_N - LZSS_F + LZSS_N - d) mod LZSS_N =
      (if d \<le> LZSS_N - LZSS_F then LZSS_N - LZSS_F - d else LZSS_N + (LZSS_N - LZSS_F) - d)"
    if "1 \<le> d" "d \<le> LZSS_N" for d :: nat
    using that by (auto simp: mod_if)
  then show ?thesis
    by (auto simp: lz_inv_def lz_start_def lz_back_def)
qed

lemma lz_back_snoc: "lz_back junk (t @ [c]) (Suc 0) = c"
  by (simp add: lz_back_def)

lemma lz_back_snoc_Suc: "1 \<le> d \<Longrightarrow> lz_back junk (t @ [c]) (Suc d) = lz_back junk t d"
  by (auto simp: lz_back_def nth_append)

lemma lz_inv_emit:
  assumes "lz_inv junk z"
  shows "lz_inv junk (lz_emit c z)"
proof -
  let ?r = "lz_r z"
  have r: "?r = (LZSS_N - LZSS_F + length (lz_out z)) mod LZSS_N"
    and w: "1 \<le> d \<Longrightarrow> d \<le> LZSS_N \<Longrightarrow> lz_ring z ((?r + LZSS_N - d) mod LZSS_N) = lz_back junk (lz_out z) d" for d
    using assms by (auto simp: lz_inv_def)
  have rlt: "?r < LZSS_N" by (simp add: r)
  have "lz_ring (lz_emit c z) (((?r + 1) mod LZSS_N + LZSS_N - d) mod LZSS_N) = lz_back junk (lz_out z @ [c]) d"
    if d: "1 \<le> d" "d \<le> LZSS_N" for d
  proof (cases "d = 1")
    case True
    have "((?r + 1) mod LZSS_N + LZSS_N - 1) mod LZSS_N = ?r"
      using rlt by (auto simp: mod_if)
    then show ?thesis
      using True by (simp add: lz_emit_def lz_back_snoc)
  next
    case False
    then obtain e where e: "d = Suc e" "1 \<le> e" "e < LZSS_N"
      using d by (cases d) auto
    have "((?r + 1) mod LZSS_N + LZSS_N - d) mod LZSS_N = (?r + LZSS_N - e) mod LZSS_N"
      using rlt e by (auto simp: mod_if)
    moreover have "(?r + LZSS_N - e) mod LZSS_N \<noteq> ?r"
      using rlt e by (auto simp: mod_if)
    ultimately show ?thesis
      using w [of e] e by (simp add: lz_emit_def lz_back_snoc_Suc)
  qed
  then show ?thesis
    by (simp add: lz_inv_def lz_emit_def r mod_Suc_eq)
qed

lemma lz_distance_bounds: "1 \<le> lz_distance n i" "lz_distance n i \<le> LZSS_N"
  by (simp_all add: lz_distance_def Suc_leI)

lemma lz_distance_index:
  "((LZSS_N - LZSS_F + n) mod LZSS_N + LZSS_N - lz_distance n i) mod LZSS_N = i mod LZSS_N"
proof -
  define q where "q = n mod LZSS_N"
  define x where "x = (i + 18 + (LZSS_N - q)) mod LZSS_N"
  have q: "q < LZSS_N" and x: "x < LZSS_N" by (simp_all add: q_def x_def)
  have "((LZSS_N - LZSS_F + n) mod LZSS_N + LZSS_N - (LZSS_N - x)) mod LZSS_N
      = ((LZSS_N - LZSS_F + n) mod LZSS_N + x) mod LZSS_N"
    using x by simp
  also have "\<dots> = (LZSS_N - LZSS_F + n + (i + 18 + (LZSS_N - q))) mod LZSS_N"
    unfolding x_def by (rule mod_add_eq)
  also have "\<dots> = (LZSS_N - LZSS_F + (n mod LZSS_N) + (i + 18 + (LZSS_N - q))) mod LZSS_N"
    by (metis mod_add_left_eq mod_add_right_eq)
  also have "\<dots> = (i + LZSS_N * 2) mod LZSS_N"
    using q by (simp add: q_def [symmetric] add.commute)
  also have "\<dots> = i mod LZSS_N"
    by (rule mod_mult_self2)
  finally show ?thesis
    by (simp add: lz_distance_def x_def q_def)
qed

lemma lz_distance_Suc: "lz_distance (Suc n) (Suc i) = lz_distance n i"
proof (cases "n mod LZSS_N = 4095")
  case True
  have "(4115 + i) mod LZSS_N = (19 + i) mod LZSS_N"
    using mod_add_self2 [of "19 + i" LZSS_N] by (simp add: add.commute)
  then show ?thesis
    using True by (simp add: lz_distance_def mod_Suc)
next
  case False
  then show ?thesis
    by (simp add: lz_distance_def mod_Suc)
qed

lemma lz_ring_read:
  assumes "lz_inv junk z"
  shows "lz_ring z (i mod LZSS_N) = lz_back junk (lz_out z) (lz_distance (length (lz_out z)) i)"
  using assms lz_distance_bounds [of "length (lz_out z)" i] lz_distance_index [of "length (lz_out z)" i]
  unfolding lz_inv_def by metis

subsection \<open>The decoder computes the reference\<close>

lemma lz_emit_out [simp]: "lz_out (lz_emit c z) = lz_out z @ [c]"
  by (simp add: lz_emit_def)

abbreviation "lz_repeat junk d n t \<equiv> ((\<lambda>u. u @ [lz_back junk u d]) ^^ n) t"

lemma length_lz_repeat [simp]: "length (lz_repeat junk d n t) = length t + n"
  by (induction n) auto

lemma lz_repeat_prefix: "\<exists>ys. lz_repeat junk d n t = t @ ys"
  by (induction n) auto

lemma lz_repeat_Suc: "lz_repeat junk d (Suc n) t = lz_repeat junk d n (t @ [lz_back junk t d])"
  by (simp only: funpow_Suc_right comp_def)

lemma lz_expand_prefix: "\<exists>ys. lz_expand junk t items = t @ ys"
proof (induction junk t items rule: lz_expand.induct)
  case (3 junk t i n items)
  then show ?case
    using lz_repeat_prefix [of n junk "lz_distance (length t) i" t]
    by (auto simp: Let_def)
qed auto

lemma take_expand: "cap \<le> length t \<Longrightarrow> take cap (lz_expand junk t items) = take cap t"
  using lz_expand_prefix [of junk t items] by auto

lemma lz_copy_repeat:
  assumes "lz_inv junk z" "length (lz_out z) \<le> cap" "lz_copy cap i n z = (go, y)"
  shows "lz_inv junk y \<and> lz_out y = take cap (lz_repeat junk (lz_distance (length (lz_out z)) i) n (lz_out z))
    \<and> (go \<longleftrightarrow> length (lz_out z) + n \<le> cap)"
  using assms
proof (induction cap i n z rule: lz_copy.induct)
  case (1 cap i z)
  then show ?case by simp
next
  case (2 cap i n z)
  let ?d = "lz_distance (length (lz_out z)) i"
  let ?c = "lz_ring z (i mod LZSS_N)"
  have c: "?c = lz_back junk (lz_out z) ?d"
    by (rule lz_ring_read [OF "2.prems"(1)])
  show ?case
  proof (cases "length (lz_out z) \<ge> cap")
    case True
    then have y: "cap = length (lz_out z)" "y = z" "\<not> go"
      using "2.prems" by auto
    moreover obtain ys where "lz_repeat junk ?d (Suc n) (lz_out z) = lz_out z @ ys"
      using lz_repeat_prefix by blast
    ultimately show ?thesis
      using "2.prems"(1) by (simp del: funpow.simps)
  next
    case False
    have "lz_copy cap (i + 1) n (lz_emit ?c z) = (go, y)"
      using "2.prems"(3) False by (simp add: Let_def)
    then have "lz_inv junk y \<and>
        lz_out y = take cap (lz_repeat junk ?d n (lz_out z @ [?c])) \<and> (go \<longleftrightarrow> length (lz_out z) + Suc n \<le> cap)"
      using "2.IH" [OF refl False lz_inv_emit [OF "2.prems"(1)]] False by (simp add: lz_distance_Suc)
    then show ?thesis
      by (simp add: c lz_repeat_Suc del: funpow.simps)
  qed
qed

text \<open>The flag word holds the flags still to be used, shifted up by one, under a run of ones.\<close>

definition lz_flags_ok :: "u32 \<Rightarrow> bool list \<Rightarrow> bool" where
  "lz_flags_ok flags fs \<longleftrightarrow>
     (\<forall>i < length fs. bit flags (Suc i) = fs ! i) \<and> (\<forall>i. bit flags (9 + i) \<longleftrightarrow> i < length fs)"

lemma bit_lz_reload: "bit (ucast (b :: u8) OR 0xff00 :: u32) i \<longleftrightarrow> (if i < 8 then bit b i else i < 16)"
proof -
  have m: "(0xff00 :: u32) = push_bit 8 (mask 8)"
    by (simp add: mask_eq_exp_minus_1)
  show ?thesis
    unfolding m by (auto simp: bit_simps dest: bit_imp_le_length)
qed

lemma lz_flags_test: "(w AND 0x100 = (0 :: u32)) \<longleftrightarrow> \<not> bit w 8" "(w AND 1 \<noteq> (0 :: u32)) \<longleftrightarrow> bit w 0"
  by (simp_all add: bit_iff_and_push_bit_not_eq_0)

lemma lz_flags_next:
  assumes "lz_flags_ok flags fs"
  shows "lz_flags flags src =
    (case fs of
       f # fs \<Rightarrow> Some (drop_bit 1 flags, src)
     | [] \<Rightarrow> (case src of [] \<Rightarrow> None | b # src \<Rightarrow> Some (ucast b OR 0xff00, src)))"
proof -
  have "bit flags 9 \<longleftrightarrow> fs \<noteq> []"
    using assms [unfolded lz_flags_ok_def] by (metis add_0_right length_greater_0_conv)
  then show ?thesis
    by (auto simp: lz_flags_def Let_def lz_flags_test bit_drop_bit_eq split: list.split)
qed

lemma lz_flags_ok_tl:
  assumes "lz_flags_ok flags (f # fs)"
  shows "lz_flags_ok (drop_bit 1 flags) fs \<and> bit (drop_bit 1 flags) 0 = f"
proof -
  have *: "bit flags (Suc i) = (f # fs) ! i" if "i < Suc (length fs)" for i
    using assms that by (simp add: lz_flags_ok_def)
  have **: "bit flags (9 + i) \<longleftrightarrow> i < Suc (length fs)" for i
    using assms by (simp add: lz_flags_ok_def)
  show ?thesis
    using * [of 0] * [of "Suc i" for i] ** [of "Suc i" for i] by (simp add: lz_flags_ok_def bit_drop_bit_eq)
qed

lemma lz_flags_ok_reload: "lz_flags_ok (ucast (b :: u8) OR 0xff00) (map (bit b) [1..<8]) \<and> bit (ucast b OR 0xff00 :: u32) 0 = bit b 0"
  by (auto simp: lz_flags_ok_def bit_lz_reload)

lemma lz_ref_fields:
  fixes a b :: u8
  shows "unat (ucast a OR push_bit 4 (ucast b AND 0xf0) :: u32) = unat a + 256 * (unat b div 16)"
    and "unat (ucast b AND 0x0f :: u32) = unat b mod 16"
proof -
  have m: "(0xf0 :: u32) = push_bit 4 (mask 4)" "(0x0f :: u32) = mask 4"
    by (simp_all add: mask_eq_exp_minus_1)
  have "ucast a OR push_bit 4 (ucast b AND 0xf0) = (ucast a + push_bit 8 (drop_bit 4 (ucast b)) :: u32)"
  proof -
    have "push_bit 4 (ucast b AND 0xf0) = (push_bit 8 (drop_bit 4 (ucast b)) :: u32)"
      unfolding m by (rule bit_word_eqI) (auto simp: bit_simps dest: bit_imp_le_length)
    moreover have "ucast a OR push_bit 8 (drop_bit 4 (ucast b)) = (ucast a + push_bit 8 (drop_bit 4 (ucast b)) :: u32)"
      by (rule disjunctive_add [symmetric]) (auto simp: bit_simps dest: bit_imp_le_length)
    ultimately show ?thesis by simp
  qed
  moreover have "unat (ucast a + push_bit 8 (drop_bit 4 (ucast b)) :: u32) = unat a + 256 * (unat b div 16)"
  proof -
    have ua: "unat a < 256" and ub: "unat b < 256"
      using unsigned_less [where 'a = nat, of a] unsigned_less [where 'a = nat, of b] by simp_all
    have d: "unat (drop_bit 4 (ucast b) :: u32) = unat b div 16"
      using ub by (simp only: unat_drop_bit_eq) (simp add: drop_bit_eq_div unsigned_ucast_eq take_bit_nat_eq_self)
    have b: "unat (push_bit 8 (drop_bit 4 (ucast b)) :: u32) = 256 * (unat b div 16)"
      using ub by (simp only: unsigned_push_bit_eq d) (simp add: push_bit_eq_mult take_bit_nat_eq_self)
    have "unat (ucast a :: u32) = unat a"
      using ua by (simp add: unsigned_ucast_eq take_bit_nat_eq_self)
    then show ?thesis
      using ua ub by (simp add: unat_word_ariths(1) b)
  qed
  ultimately show "unat (ucast a OR push_bit 4 (ucast b AND 0xf0) :: u32) = unat a + 256 * (unat b div 16)"
    by simp
  show "unat (ucast b AND 0x0f :: u32) = unat b mod 16"
    by (simp only: m take_bit_eq_mask [symmetric] unsigned_take_bit_eq)
       (use unsigned_less [where 'a = nat, of b] in \<open>simp add: take_bit_eq_mod unsigned_ucast_eq\<close>)
qed

lemma lz_loop_items:
  "lz_inv junk z \<Longrightarrow> lz_flags_ok flags fs \<Longrightarrow> length (lz_out z) \<le> cap \<Longrightarrow>
   lz_out (lz_loop cap src flags z) = take cap (lz_expand junk (lz_out z) (lz_items fs src))"
proof (induction cap src flags z arbitrary: fs rule: lz_loop.induct)
  case (1 cap src flags z)
  note inv = "1.prems"(1) and ok = "1.prems"(2) and le = "1.prems"(3)
  show ?case
  proof (cases "lz_flags flags src")
    case None
    then have "lz_items fs src = []"
      using lz_flags_next [OF ok, of src] by (auto split: list.split_asm)
    then show ?thesis
      using le by (simp add: lz_loop.simps [of cap src flags z] None)
  next
    case (Some p)
    obtain f s where p: "p = (f, s)" by fastforce
    obtain gs where gs: "lz_flags_ok f (tl gs)" "gs \<noteq> []" "bit f 0 = hd gs" "lz_items fs src = lz_items gs s"
    proof (cases fs)
      case Nil
      then obtain b where "src = b # s" "f = ucast b OR 0xff00"
        using Some lz_flags_next [OF ok, of src] by (auto simp: p split: list.split_asm)
      then show ?thesis
        using that [of "map (bit b) [0..<8]"] lz_flags_ok_reload [of b] Nil
        by (simp add: upt_conv_Cons)
    next
      case (Cons g hs)
      then have "f = drop_bit 1 flags" "s = src"
        using Some lz_flags_next [OF ok, of src] by (auto simp: p)
      then show ?thesis
        using that [of fs] lz_flags_ok_tl [of flags g hs] ok Cons by simp
    qed
    obtain hs where hs: "gs = bit f 0 # hs" "lz_flags_ok f hs"
      using gs by (cases gs) auto
    show ?thesis
    proof (cases "bit f 0")
      case True
      have t: "f AND 1 \<noteq> 0" using True by (simp only: lz_flags_test)
      show ?thesis
      proof (cases s)
        case Nil
        then show ?thesis
          using le t by (simp add: lz_loop.simps [of cap src flags z] Some p gs(4) hs(1) True)
      next
        case (Cons c s')
        then show ?thesis
          using le t "1.IH"(1) [OF Some p [symmetric] t Cons _ lz_inv_emit [OF inv] hs(2)]
          by (cases "length (lz_out z) \<ge> cap")
             (simp_all add: lz_loop.simps [of cap src flags z] Some p gs(4) hs(1) True take_expand)
      qed
    next
      case False
      then have t: "\<not> f AND 1 \<noteq> 0" using lz_flags_test(2) [of f] by blast
      consider (short) "s = [] \<or> (\<exists>a. s = [a])" | (pair) a b s' where "s = a # b # s'"
        by (metis list.exhaust)
      then show ?thesis
      proof cases
        case short
        then have "lz_items (False # hs) s = []" by auto
        then show ?thesis
          using le t short by (auto simp: lz_loop.simps [of cap src flags z] Some p gs(4) hs(1) False)
      next
        case pair
        define i where "i = unat (ucast a OR push_bit 4 (ucast b AND 0xf0) :: u32)"
        define n where "n = unat (ucast b AND 0x0f :: u32) + LZSS_THRESHOLD + 1"
        obtain go y where c: "lz_copy cap i n z = (go, y)" by fastforce
        note copy = lz_copy_repeat [OF inv le c]
        have items: "lz_items fs src = Copy i n # lz_items hs s'"
          by (simp only: gs(4) hs(1) False pair i_def n_def lz_ref_fields lz_items.simps) simp
        have loop: "lz_loop cap src flags z = (if go then lz_loop cap s' f y else y)"
          using t c by (simp add: lz_loop.simps [of cap src flags z] Some p pair i_def n_def)
        show ?thesis
        proof (cases go)
          case True
          then have "length (lz_out z) + n \<le> cap" using copy by simp
          then have y: "lz_out y = lz_repeat junk (lz_distance (length (lz_out z)) i) n (lz_out z)"
            using copy by simp
          have "lz_out (lz_loop cap s' f y) = take cap (lz_expand junk (lz_out y) (lz_items hs s'))"
            using copy by (intro "1.IH"(2) [OF Some p [symmetric] t pair refl i_def refl c [symmetric, unfolded n_def] True _ hs(2)]) auto
          then show ?thesis
            by (simp add: loop True items y Let_def)
        next
          case False
          then show ?thesis
            using copy by (simp add: loop items Let_def take_expand)
        qed
      qed
    qed
  qed
qed

lemma lz_decode: "lzss_decompress junk dstcap src = take dstcap (lz_expand junk [] (lz_items [] src))"
proof -
  have "lz_flags_ok 0 []"
    by (simp add: lz_flags_ok_def)
  then show ?thesis
    using lz_loop_items [OF lz_inv_start [of junk], of 0 "[]" dstcap src]
    by (simp add: lzss_decompress_def lz_start_def)
qed

text \<open>
  C22. The ring-buffer decoder computes the sliding-window reference, cut at the capacity of the
  destination: whatever the stream, and whatever the stack held, the output is the first \<open>dstcap\<close>
  bytes of the expansion of the stream's items.
\<close>

theorem lzss_is_window:
  "lzss_decompress junk dstcap src = take dstcap (lz_expand junk [] (lz_items [] src)) \<and>
   length (lzss_decompress junk dstcap src) \<le> dstcap"
  by (simp add: lz_decode)

text \<open>
  C23. A three-byte stream whose copy starts at ring offset 4078 makes the decoder return bytes of the
  stack that it never wrote, although the ring is said to start filled with spaces.
\<close>

theorem lzss_reads_uninitialised:
  "lzss_decompress junk 3 [0x00, 0xee, 0xf0] = [junk 4078, junk 4079, junk 4080]"
proof -
  have "lz_items [] [0x00, 0xee, 0xf0] = [Copy 4078 3]"
    by (simp add: upt_rec)
  moreover have "lz_distance 0 4078 = 4096"
    by (simp add: lz_distance_def)
  ultimately have "lz_expand junk [] (lz_items [] [0x00, 0xee, 0xf0]) = [junk 4078, junk 4079, junk 4080]"
    by (simp add: numeral_3_eq_3 lz_back_def)
  then show ?thesis
    using lz_decode [of junk 3 "[0x00, 0xee, 0xf0]"] by simp
qed

end
