(* ===== verification/Nor.thy ===== *)
theory Nor
  imports Prelude
begin

text \<open>
  The NOR flash of \<open>soc/nor.c\<close>: reads, flash-accurate programming (bits only go from one to zero),
  sector erase, and the directory of IMG3 containers rebuilt by scanning. The contents are a list of
  bytes, absent after \<open>s5l_nor_free\<close>; the directory is the list of the first \<open>image_count\<close>
  entries of the C array. Words are read and written in the little-endian order of the host.
\<close>

unbundle bit_operations_syntax

subsection \<open>State\<close>

record s5l_nor_entry =
  ne_ident :: u32
  ne_offset :: u32
  ne_size :: u32

record s5l_nor =
  nor_data :: "u8 list option"
  nor_size :: u32
  nor_images :: "s5l_nor_entry list"

abbreviation "S5L_NOR_MAX_IMAGES \<equiv> 16 :: nat"
abbreviation "S5L8900_NOR_SECTOR \<equiv> 0x1000 :: u32"
abbreviation "IMG3_HEADER \<equiv> 20 :: nat"

definition IMG3_DISK_MAGIC :: u32 where "IMG3_DISK_MAGIC = 0x496d6733"

definition nor_rd32 :: "u8 list \<Rightarrow> nat \<Rightarrow> u32" where
  "nor_rd32 p k = ucast (p ! k) OR push_bit 8 (ucast (p ! (k + 1)))
     OR push_bit 16 (ucast (p ! (k + 2))) OR push_bit 24 (ucast (p ! (k + 3)))"

text \<open>\<open>alloc\<close> is whether the host grants the memory.\<close>

definition s5l_nor_init :: "bool \<Rightarrow> u32 \<Rightarrow> s5l_nor option" where
  "s5l_nor_init alloc sz =
     (if sz = 0 then None
      else if \<not> alloc then None
      else Some \<lparr>nor_data = Some (replicate (unat sz) 0xff), nor_size = sz, nor_images = []\<rparr>)"

definition s5l_nor_free :: "s5l_nor \<Rightarrow> s5l_nor" where
  "s5l_nor_free n = n\<lparr>nor_data := None, nor_size := 0, nor_images := []\<rparr>"

definition s5l_nor_read :: "s5l_nor \<Rightarrow> u32 \<Rightarrow> nat \<Rightarrow> u32" where
  "s5l_nor_read n off bytes =
     (if bytes \<noteq> 1 \<and> bytes \<noteq> 2 \<and> bytes \<noteq> 4 then 0
      else case nor_data n of
          None \<Rightarrow> 0
        | Some d \<Rightarrow>
            if unat off + bytes > unat (nor_size n) then 0
            else le_get (take bytes (drop (unat off) d)))"

definition s5l_nor_program :: "s5l_nor \<Rightarrow> u32 \<Rightarrow> u8 list \<Rightarrow> s5l_nor" where
  "s5l_nor_program n off src =
     (case nor_data n of
        None \<Rightarrow> n
      | Some d \<Rightarrow>
          if src = [] \<or> length src > unat (nor_size n) then n
          else if unat off + length src > unat (nor_size n) then n
          else n\<lparr>nor_data := Some (splice (unat off) src d)\<rparr>)"

definition s5l_nor_write :: "s5l_nor \<Rightarrow> u32 \<Rightarrow> u32 \<Rightarrow> nat \<Rightarrow> bool \<times> s5l_nor" where
  "s5l_nor_write n off v bytes =
     (case nor_data n of
        None \<Rightarrow> (False, n)
      | Some d \<Rightarrow>
          if bytes \<noteq> 1 \<and> bytes \<noteq> 2 \<and> bytes \<noteq> 4 then (False, n)
          else if unat off + bytes > unat (nor_size n) then (False, n)
          else if list_ex (\<lambda>i. d ! (unat off + i) AND ucast (drop_bit (8 * i) v) \<noteq> ucast (drop_bit (8 * i) v)) [0..<bytes]
          then (False, n)
          else (True, n\<lparr>nor_data :=
                 Some (fold (\<lambda>i d. d[unat off + i := d ! (unat off + i) AND ucast (drop_bit (8 * i) v)]) [0..<bytes] d)\<rparr>))"

definition s5l_nor_erase_sector :: "s5l_nor \<Rightarrow> u32 \<Rightarrow> bool \<times> s5l_nor" where
  "s5l_nor_erase_sector n off =
     (case nor_data n of
        None \<Rightarrow> (False, n)
      | Some d \<Rightarrow>
          let base = off AND NOT (S5L8900_NOR_SECTOR - 1)
          in if unat base + unat S5L8900_NOR_SECTOR > unat (nor_size n) then (False, n)
             else (True, n\<lparr>nor_data := Some (splice (unat base) (replicate (unat S5L8900_NOR_SECTOR) 0xff) d)\<rparr>))"

subsection \<open>The directory scan\<close>

text \<open>\<open>(uint32_t)(((uint64_t)off + full + 3u) & ~(uint64_t)3u)\<close>, with its narrowing.\<close>

definition nor_next :: "u32 \<Rightarrow> u32 \<Rightarrow> u32" where
  "nor_next off full = ucast ((ucast off + ucast full + 3 :: u64) AND NOT 3)"

lemma nor_step: "unat off + IMG3_HEADER \<le> unat (sz :: u32) \<Longrightarrow> unat (off + 4 :: u32) = unat off + 4"
  using unsigned_less [where 'a = nat, of sz] by (simp add: unat_word_ariths(1))

lemma nor_forward: "off < off' \<Longrightarrow> 2 ^ 32 - unat off' < 2 ^ 32 - unat (off :: u32)"
  using unsigned_less [where 'a = nat, of off'] by (simp add: word_less_nat_alt)

lemma nor_forward4: "unat off + IMG3_HEADER \<le> unat (sz :: u32) \<Longrightarrow> 4294967292 - unat off < 4294967296 - unat off"
  using unsigned_less [where 'a = nat, of sz] by simp

text \<open>The scan loop; its termination needs that it never moves backwards, which the code checks.\<close>

function nor_scan_loop :: "u8 list \<Rightarrow> u32 \<Rightarrow> u32 \<Rightarrow> s5l_nor_entry list \<Rightarrow> s5l_nor_entry list" where
  "nor_scan_loop d sz off images =
     (if \<not> unat off + IMG3_HEADER \<le> unat sz then images
      else if nor_rd32 d (unat off) \<noteq> IMG3_DISK_MAGIC then nor_scan_loop d sz (off + 4) images
      else
        let full = nor_rd32 d (unat off + 4);
            ident = nor_rd32 d (unat off + 16)
        in if unat full < IMG3_HEADER \<or> unat off + unat full > unat sz then nor_scan_loop d sz (off + 4) images
           else
             let images = images @ [\<lparr>ne_ident = ident, ne_offset = off, ne_size = full\<rparr>]
             in if length images = S5L_NOR_MAX_IMAGES then images
                else
                  let next = nor_next off full
                  in if next \<le> off then images else nor_scan_loop d sz next images)"
  by pat_completeness auto

termination
  by (relation "measure (\<lambda>(d, sz, off, images). 2 ^ 32 - unat off)")
     (simp_all add: nor_forward [simplified] nor_forward4 nor_step not_less not_le)

declare nor_scan_loop.simps [simp del]

definition s5l_nor_scan :: "s5l_nor \<Rightarrow> nat \<times> s5l_nor" where
  "s5l_nor_scan n =
     (let n = n\<lparr>nor_images := []\<rparr>
      in case nor_data n of
          None \<Rightarrow> (0, n)
        | Some d \<Rightarrow>
            if unat (nor_size n) < IMG3_HEADER then (0, n)
            else let images = nor_scan_loop d (nor_size n) 0 [] in (length images, n\<lparr>nor_images := images\<rparr>))"

definition s5l_nor_find :: "s5l_nor \<Rightarrow> u32 \<Rightarrow> s5l_nor_entry option" where
  "s5l_nor_find n ident =
     (if nor_data n = None then None
      else find (\<lambda>e. ne_ident e = ident \<and> unat (ne_size e) \<ge> 20 \<and>
                     unat (ne_offset e) + unat (ne_size e) \<le> unat (nor_size n))
             (take S5L_NOR_MAX_IMAGES (nor_images n)))"

lemma clear_low_bits: "x AND NOT (mask k) = push_bit k (drop_bit k (x :: 'a::len word))"
  by (rule bit_word_eqI) (auto simp: bit_simps)

lemma clear_low_2: "x AND NOT 3 = push_bit 2 (drop_bit 2 (x :: u64))"
  using clear_low_bits [of x 2] by (simp add: mask_eq_exp_minus_1)

lemma unat_nor_next:
  assumes "unat off + unat full \<le> unat (sz :: u32)"
  shows "unat (nor_next off full) = ((unat off + unat full + 3) div 4 * 4) mod 2 ^ 32"
proof -
  have lt: "unat off + unat full < 2 ^ 32"
    using assms unsigned_less [where 'a = nat, of sz] by simp
  then have x: "unat (ucast off + ucast full + 3 :: u64) = unat off + unat full + 3"
    by (simp add: unat_word_ariths(1) unsigned_ucast_eq take_bit_nat_eq_self)
  have "unat ((ucast off + ucast full + 3 :: u64) AND NOT 3) = (unat off + unat full + 3) div 4 * 4"
    unfolding clear_low_2 unsigned_push_bit_eq unat_drop_bit_eq x
    using lt by (simp add: push_bit_eq_mult drop_bit_eq_div take_bit_nat_eq_self)
  then show ?thesis
    unfolding nor_next_def unsigned_ucast_eq by (simp add: take_bit_eq_mod)
qed

subsection \<open>The directory is right\<close>

text \<open>A container at offset \<open>p\<close> of the flash, as its header declares it.\<close>

definition img3_at :: "u8 list \<Rightarrow> u32 \<Rightarrow> u32 \<Rightarrow> bool" where
  "img3_at d sz p \<longleftrightarrow> unat p mod 4 = 0 \<and> unat p + IMG3_HEADER \<le> unat sz \<and> nor_rd32 d (unat p) = IMG3_DISK_MAGIC \<and>
     IMG3_HEADER \<le> unat (nor_rd32 d (unat p + 4)) \<and> unat p + unat (nor_rd32 d (unat p + 4)) \<le> unat sz"

definition ne_end :: "s5l_nor_entry \<Rightarrow> nat" where
  "ne_end e = unat (ne_offset e) + unat (ne_size e)"

definition nor_dir_ok :: "u8 list \<Rightarrow> u32 \<Rightarrow> s5l_nor_entry list \<Rightarrow> bool" where
  "nor_dir_ok d sz es \<longleftrightarrow>
     (\<forall>e \<in> set es. img3_at d sz (ne_offset e) \<and> ne_size e = nor_rd32 d (unat (ne_offset e) + 4) \<and>
        ne_ident e = nor_rd32 d (unat (ne_offset e) + 16)) \<and>
     sorted_wrt (\<lambda>e f. ne_end e \<le> unat (ne_offset f)) es \<and> length es \<le> S5L_NOR_MAX_IMAGES"

definition nor_dir_covers :: "u8 list \<Rightarrow> u32 \<Rightarrow> nat \<Rightarrow> s5l_nor_entry list \<Rightarrow> bool" where
  "nor_dir_covers d sz lo es \<longleftrightarrow>
     (\<forall>p. img3_at d sz p \<and> lo \<le> unat p \<longrightarrow> (\<exists>e \<in> set es. unat (ne_offset e) \<le> unat p \<and> unat p < ne_end e))"

lemma nor_covers_step:
  assumes "unat off mod 4 = 0" "\<not> img3_at d sz off" "nor_dir_covers d sz (unat off + 4) es"
  shows "nor_dir_covers d sz (unat off) es"
  unfolding nor_dir_covers_def
proof (intro allI impI)
  fix p assume p: "img3_at d sz p \<and> unat off \<le> unat p"
  then have "unat p \<noteq> unat off" "unat p mod 4 = 0"
    using assms(2) by (auto simp: img3_at_def)
  moreover have "unat off \<le> unat p" using p by simp
  ultimately have "unat off + 4 \<le> unat p"
    using assms(1) by presburger
  then show "\<exists>e\<in>set es. unat (ne_offset e) \<le> unat p \<and> unat p < ne_end e"
    using p assms(3) by (auto simp: nor_dir_covers_def)
qed

lemma nor_next_forward:
  assumes fits: "unat off + unat full \<le> unat (sz :: u32)" and pos: "0 < unat full"
    and ahead: "off < nor_next off full"
  shows "unat (nor_next off full) = (unat off + unat full + 3) div 4 * 4"
proof -
  let ?x = "(unat off + unat full + 3) div 4 * 4"
  have sz: "unat sz < 2 ^ 32"
    using unsigned_less [where 'a = nat, of sz] by simp
  have "?x \<le> 2 ^ 32"
    using fits sz by simp
  moreover have "?x \<noteq> 2 ^ 32"
    using ahead unat_nor_next [OF fits] by (auto simp: word_less_nat_alt)
  ultimately have "?x < 2 ^ 32" by linarith
  then show ?thesis
    using unat_nor_next [OF fits] by (simp only: mod_less)
qed

lemma nor_next_end:
  assumes fits: "unat off + unat full \<le> unat (sz :: u32)" and pos: "0 < unat full"
    and stuck: "\<not> off < nor_next off full" and p: "unat off + unat full \<le> p" "p mod 4 = 0"
  shows "\<not> p + IMG3_HEADER \<le> unat sz"
proof -
  let ?x = "(unat off + unat full + 3) div 4 * 4"
  have sz: "unat sz < 2 ^ 32"
    using unsigned_less [where 'a = nat, of sz] by simp
  have x: "unat off < ?x" "?x < unat off + unat full + 4" "?x \<le> p"
    using pos p by presburger+
  have "\<not> ?x < 2 ^ 32"
    using stuck unat_nor_next [OF fits] x(1) by (auto simp: word_less_nat_alt)
  then show ?thesis
    using x(3) sz by simp
qed

lemma nor_dir_ok_snoc:
  assumes "nor_dir_ok d sz es" "length es < S5L_NOR_MAX_IMAGES" "\<forall>e \<in> set es. ne_end e \<le> unat off" "img3_at d sz off"
  shows "nor_dir_ok d sz (es @ [\<lparr>ne_ident = nor_rd32 d (unat off + 16), ne_offset = off, ne_size = nor_rd32 d (unat off + 4)\<rparr>])"
  using assms by (auto simp: nor_dir_ok_def sorted_wrt_append)

lemma nor_scan_loop_right:
  assumes "unat off mod 4 = 0" "nor_dir_ok d sz images" "length images < S5L_NOR_MAX_IMAGES"
    "\<forall>e \<in> set images. ne_end e \<le> unat off"
  shows "nor_dir_ok d sz (nor_scan_loop d sz off images) \<and> set images \<subseteq> set (nor_scan_loop d sz off images) \<and>
    (length (nor_scan_loop d sz off images) < S5L_NOR_MAX_IMAGES \<longrightarrow>
     nor_dir_covers d sz (unat off) (nor_scan_loop d sz off images))"
  using assms
proof (induction d sz off images rule: nor_scan_loop.induct)
  case (1 d sz off images)
  note prems = "1.prems"
  let ?full = "nor_rd32 d (unat off + 4)"
  let ?e = "\<lparr>ne_ident = nor_rd32 d (unat off + 16), ne_offset = off, ne_size = ?full\<rparr>"
  let ?next = "nor_next off ?full"
  note simps = nor_scan_loop.simps [of d sz off images]
  show ?case
  proof (cases "unat off + IMG3_HEADER \<le> unat sz")
    case False
    then show ?thesis
      using prems by (auto simp: simps nor_dir_covers_def img3_at_def)
  next
    case True
    note fit = True
    have off4: "unat (off + 4) = unat off + 4"
      using fit by (rule nor_step)
    then have inv4: "unat (off + 4) mod 4 = 0" "\<forall>e \<in> set images. ne_end e \<le> unat (off + 4)"
      using prems by auto
    show ?thesis
    proof (cases "img3_at d sz off")
      case False
      have loop: "nor_scan_loop d sz off images = nor_scan_loop d sz (off + 4) images"
        using False fit prems(1) by (auto simp: simps img3_at_def Let_def)
      have "nor_dir_ok d sz (nor_scan_loop d sz (off + 4) images) \<and>
          set images \<subseteq> set (nor_scan_loop d sz (off + 4) images) \<and>
          (length (nor_scan_loop d sz (off + 4) images) < S5L_NOR_MAX_IMAGES \<longrightarrow>
           nor_dir_covers d sz (unat (off + 4)) (nor_scan_loop d sz (off + 4) images))"
      proof (cases "nor_rd32 d (unat off) = IMG3_DISK_MAGIC")
        case True
        then have "unat ?full < IMG3_HEADER \<or> unat sz < unat off + unat ?full"
          using False fit prems(1) by (auto simp: img3_at_def)
        with True show ?thesis
          using fit by (intro "1.IH"(2) [OF _ _ refl refl _ inv4(1) prems(2,3) inv4(2)]) auto
      next
        case False
        then show ?thesis
          using fit by (intro "1.IH"(1) [OF _ _ inv4(1) prems(2,3) inv4(2)]) auto
      qed
      then show ?thesis
        unfolding loop using nor_covers_step [OF prems(1) False] by (auto simp: off4)
    next
      case True
      note img = True
      then have full: "IMG3_HEADER \<le> unat ?full" "unat off + unat ?full \<le> unat sz" "nor_rd32 d (unat off) = IMG3_DISK_MAGIC"
        by (auto simp: img3_at_def)
      have ok: "nor_dir_ok d sz (images @ [?e])"
        by (rule nor_dir_ok_snoc [OF prems(2,3,4) img])
      have e: "ne_offset ?e = off" "ne_end ?e = unat off + unat ?full"
        by (simp_all add: ne_end_def)
      have pos: "0 < unat ?full" using full(1) by linarith
      show ?thesis
      proof (cases "length (images @ [?e]) = S5L_NOR_MAX_IMAGES \<or> \<not> off < ?next")
        case True
        then have loop: "nor_scan_loop d sz off images = images @ [?e]"
          using fit full by (auto simp: simps Let_def not_less)
        have "nor_dir_covers d sz (unat off) (images @ [?e])" if "length (images @ [?e]) < S5L_NOR_MAX_IMAGES"
          unfolding nor_dir_covers_def
        proof (intro allI impI)
          fix p assume p: "img3_at d sz p \<and> unat off \<le> unat p"
          have "unat p < unat off + unat ?full"
          proof (rule ccontr)
            assume "\<not> unat p < unat off + unat ?full"
            moreover have "\<not> off < ?next" using True that by auto
            ultimately show False
              using nor_next_end [OF full(2) pos, of "unat p"] p by (auto simp: img3_at_def)
          qed
          then show "\<exists>e\<in>set (images @ [?e]). unat (ne_offset e) \<le> unat p \<and> unat p < ne_end e"
            using p by (auto simp: ne_end_def)
        qed
        then show ?thesis
          using ok by (auto simp: loop)
      next
        case False
        then have lt: "length (images @ [?e]) < S5L_NOR_MAX_IMAGES" and fwd: "off < ?next"
          using prems(3) by auto
        have nx: "unat ?next = (unat off + unat ?full + 3) div 4 * 4"
          by (rule nor_next_forward [OF full(2) pos fwd])
        have loop: "nor_scan_loop d sz off images = nor_scan_loop d sz ?next (images @ [?e])"
          using fit full lt fwd by (simp add: simps Let_def not_le [symmetric])
        have next_ge: "unat off + unat ?full \<le> unat ?next"
          unfolding nx by presburger
        have "nor_dir_ok d sz (nor_scan_loop d sz ?next (images @ [?e])) \<and>
            set (images @ [?e]) \<subseteq> set (nor_scan_loop d sz ?next (images @ [?e])) \<and>
            (length (nor_scan_loop d sz ?next (images @ [?e])) < S5L_NOR_MAX_IMAGES \<longrightarrow>
             nor_dir_covers d sz (unat ?next) (nor_scan_loop d sz ?next (images @ [?e])))"
        proof (rule "1.IH"(3) [OF _ _ refl refl _ refl _ refl])
          show "\<forall>e\<in>set (images @ [?e]). ne_end e \<le> unat ?next"
            using prems(4) next_ge e by auto
        qed (use fit full lt fwd ok nx in auto)
        moreover have "nor_dir_covers d sz (unat off) es"
          if "nor_dir_covers d sz (unat ?next) es" "?e \<in> set es" for es
          unfolding nor_dir_covers_def
        proof (intro allI impI)
          fix p assume p: "img3_at d sz p \<and> unat off \<le> unat p"
          show "\<exists>e\<in>set es. unat (ne_offset e) \<le> unat p \<and> unat p < ne_end e"
          proof (cases "unat p < unat off + unat ?full")
            case True
            then show ?thesis
              using p that(2) e by (intro bexI [of _ ?e]) auto
          next
            case False
            moreover have "unat p mod 4 = 0" using p by (simp add: img3_at_def)
            ultimately have "unat ?next \<le> unat p"
              unfolding nx by presburger
            then show ?thesis
              using p that(1) by (auto simp: nor_dir_covers_def)
          qed
        qed
        ultimately show ?thesis
          unfolding loop by auto
      qed
    qed
  qed
qed

subsection \<open>Programming and erasing\<close>

definition nor_wf :: "s5l_nor \<Rightarrow> bool" where
  "nor_wf n \<longleftrightarrow> (case nor_data n of None \<Rightarrow> nor_size n = 0 | Some d \<Rightarrow> length d = unat (nor_size n))"

definition nor_burn :: "nat \<Rightarrow> u32 \<Rightarrow> nat \<Rightarrow> u8 list \<Rightarrow> u8 list" where
  "nor_burn off v k d = fold (\<lambda>i d. d[off + i := d ! (off + i) AND ucast (drop_bit (8 * i) v)]) [0..<k] d"

lemma length_nor_burn [simp]: "length (nor_burn off v k d) = length d"
  unfolding nor_burn_def by (induction k) auto

lemma nth_nor_burn:
  "off + k \<le> length d \<Longrightarrow> j < length d \<Longrightarrow>
   nor_burn off v k d ! j = (if off \<le> j \<and> j < off + k then d ! j AND ucast (drop_bit (8 * (j - off)) v) else d ! j)"
proof (induction k)
  case 0
  then show ?case by (auto simp: nor_burn_def)
next
  case (Suc k)
  have "nor_burn off v (Suc k) d = (nor_burn off v k d)[off + k := nor_burn off v k d ! (off + k) AND ucast (drop_bit (8 * k) v)]"
    by (simp add: nor_burn_def)
  then show ?case
    using Suc by (auto simp: nth_list_update)
qed

lemma nor_burn_allowed:
  assumes "\<not> list_ex (\<lambda>i. d ! (off + i) AND ucast (drop_bit (8 * i) v) \<noteq> ucast (drop_bit (8 * i) v)) [0..<k]"
    "off + k \<le> length d"
  shows "nor_burn off v k d = splice off (le_put k v) d"
proof (rule nth_equalityI)
  show "length (nor_burn off v k d) = length (splice off (le_put k v) d)"
    using assms(2) by simp
next
  fix j assume "j < length (nor_burn off v k d)"
  then have j: "j < length d" by simp
  have "d ! (off + i) AND ucast (drop_bit (8 * i) v) = ucast (drop_bit (8 * i) v)" if "i < k" for i
    using assms(1) that by (auto simp: list_ex_iff)
  from this [of "j - off"] show "nor_burn off v k d ! j = splice off (le_put k v) d ! j"
    using j assms(2) by (auto simp: nth_nor_burn nth_splice nth_le_put)
qed

lemma nor_write_sets:
  assumes "nor_wf n" "s5l_nor_write n off v k = (True, n')"
  shows "\<exists>d. nor_data n = Some d \<and> unat off + k \<le> length d \<and> n' = n\<lparr>nor_data := Some (splice (unat off) (le_put k v) d)\<rparr> \<and>
    s5l_nor_read n' off k = take_bit (8 * k) v"
proof -
  obtain d where d: "nor_data n = Some d"
    using assms(2) by (auto simp: s5l_nor_write_def split: option.split_asm)
  then have len: "length d = unat (nor_size n)" and
    k: "k = 1 \<or> k = 2 \<or> k = 4" and fit: "unat off + k \<le> length d" and
    allowed: "\<not> list_ex (\<lambda>i. d ! (unat off + i) AND ucast (drop_bit (8 * i) v) \<noteq> ucast (drop_bit (8 * i) v)) [0..<k]" and
    n': "n' = n\<lparr>nor_data := Some (nor_burn (unat off) v k d)\<rparr>"
    using assms by (auto simp: nor_wf_def s5l_nor_write_def nor_burn_def split: if_split_asm)
  have "s5l_nor_read n' off k = le_get (le_put k v)"
    using k fit len take_drop_splice [of "unat off" "le_put k v" d]
    by (auto simp: s5l_nor_read_def n' nor_burn_allowed [OF allowed fit])
  then show ?thesis
    using d fit n' nor_burn_allowed [OF allowed fit] by (auto simp: le_get_put)
qed

lemma nor_erased_writable:
  assumes "nor_wf n" "s5l_nor_erase_sector n s = (True, n')" "k = 1 \<or> k = 2 \<or> k = 4"
    "unat (s AND NOT 0xfff) \<le> unat off" "unat off + k \<le> unat (s AND NOT 0xfff) + 4096"
  shows "fst (s5l_nor_write n' off v k)"
proof -
  obtain d where d: "nor_data n = Some d"
    using assms(2) by (auto simp: s5l_nor_erase_sector_def split: option.split_asm)
  define b where "b = unat (s AND NOT 0xfff)"
  have len: "length d = unat (nor_size n)" and fit: "b + 4096 \<le> length d" and
    n': "n' = n\<lparr>nor_data := Some (splice b (replicate 4096 0xff) d)\<rparr>"
    using assms(1,2) d by (auto simp: nor_wf_def s5l_nor_erase_sector_def Let_def b_def split: if_split_asm)
  have "splice b (replicate 4096 0xff) d ! (unat off + i) = 0xff" if "i < k" for i
    using that assms(4,5) fit by (simp add: nth_splice b_def)
  moreover have "(0xff :: u8) = - 1" by simp
  then have "(0xff :: u8) AND w = w" for w
    by (simp only: and.left_neutral)
  ultimately show ?thesis
    using assms(3,5) fit len by (auto simp: s5l_nor_write_def n' list_ex_iff b_def)
qed

text \<open>
  C24. The scan ends whatever the flash holds, also for headers whose size field would wrap the offset,
  and its directory is right: every entry is a container that lies inside the flash, entries are in
  increasing order and do not overlap, there are at most sixteen, and if there are fewer then every
  word-aligned container of the flash is listed or lies inside a listed one. A find returns a listed
  container with the ident asked for, and fails only if there is none.
\<close>

theorem nor_scan_directory:
  assumes "nor_data n = Some d"
  shows "case s5l_nor_scan n of (count, n') \<Rightarrow>
      n' = n\<lparr>nor_images := nor_images n'\<rparr> \<and> count = length (nor_images n') \<and>
      nor_dir_ok d (nor_size n) (nor_images n') \<and>
      (count < S5L_NOR_MAX_IMAGES \<longrightarrow> nor_dir_covers d (nor_size n) 0 (nor_images n')) \<and>
      (case s5l_nor_find n' ident of
         Some e \<Rightarrow> e \<in> set (nor_images n') \<and> ne_ident e = ident
       | None \<Rightarrow> \<forall>e \<in> set (nor_images n'). ne_ident e \<noteq> ident)"
proof -
  let ?es = "if unat (nor_size n) < IMG3_HEADER then [] else nor_scan_loop d (nor_size n) 0 []"
  have scan: "s5l_nor_scan n = (length ?es, n\<lparr>nor_images := ?es\<rparr>)"
    using assms by (simp add: s5l_nor_scan_def Let_def)
  have right: "nor_dir_ok d (nor_size n) ?es \<and> (length ?es < S5L_NOR_MAX_IMAGES \<longrightarrow> nor_dir_covers d (nor_size n) 0 ?es)"
    using nor_scan_loop_right [of 0 d "nor_size n" "[]"]
    by (auto simp: nor_dir_ok_def nor_dir_covers_def img3_at_def)
  have "case s5l_nor_find (n\<lparr>nor_images := es\<rparr>) ident of
      Some e \<Rightarrow> e \<in> set es \<and> ne_ident e = ident
    | None \<Rightarrow> \<forall>e \<in> set es. ne_ident e \<noteq> ident" if "nor_dir_ok d (nor_size n) es" for es
  proof -
    have "take S5L_NOR_MAX_IMAGES es = es" and
      inside: "e \<in> set es \<Longrightarrow> unat (ne_size e) \<ge> 20 \<and> unat (ne_offset e) + unat (ne_size e) \<le> unat (nor_size n)" for e
      using that by (auto simp: nor_dir_ok_def img3_at_def)
    then show ?thesis
      using assms by (auto simp: s5l_nor_find_def find_Some_iff find_None_iff split: option.split)
  qed
  then have "case s5l_nor_find (n\<lparr>nor_images := ?es\<rparr>) ident of
      Some e \<Rightarrow> e \<in> set ?es \<and> ne_ident e = ident
    | None \<Rightarrow> \<forall>e \<in> set ?es. ne_ident e \<noteq> ident"
    using right by blast
  moreover define es where "es = ?es"
  ultimately show ?thesis
    using right unfolding scan es_def [symmetric] by (simp cong: option.case_cong)
qed

definition nor_sample :: s5l_nor where
  "nor_sample = \<lparr>nor_data = Some [0x33, 0x67, 0x6d, 0x49, 20, 0, 0, 0, 0, 0, 0, 0, 0, 0, 0, 0, 0x74, 0x6f, 0x62, 0x69, 0xff, 0xff],
     nor_size = 22, nor_images = []\<rparr>"

lemma nor_sample_scan:
  "s5l_nor_scan nor_sample =
     (1, nor_sample\<lparr>nor_images := [\<lparr>ne_ident = 0x69626f74, ne_offset = 0, ne_size = 20\<rparr>]\<rparr>)"
  by (simp add: s5l_nor_scan_def nor_sample_def nor_scan_loop.simps nor_rd32_def IMG3_DISK_MAGIC_def
      nor_next_def Let_def)

theorem nor_scan_directory_witness:
  "\<exists>d. nor_data nor_sample = Some d \<and>
     (case s5l_nor_scan nor_sample of (count, n') \<Rightarrow>
        count = 1 \<and> nor_dir_ok d 22 (nor_images n') \<and> nor_dir_covers d 22 0 (nor_images n') \<and>
        s5l_nor_find n' 0x69626f74 \<noteq> None)"
proof -
  obtain d where d: "nor_data nor_sample = Some d"
    by (simp add: nor_sample_def)
  have sz: "nor_size nor_sample = 22" by (simp add: nor_sample_def)
  show ?thesis
    using nor_scan_directory [OF d, of "0x69626f74"] d
    by (auto simp: nor_sample_scan sz split: option.split_asm)
qed

end
