(* ===== verification/Nand.thy ===== *)
theory Nand
  imports Prelude
begin

text \<open>
  The raw NAND device of \<open>soc/nand.c\<close>: geometry, pages with spare bytes, block erase, bad blocks.
  The three arrays are lists of bytes, absent when the C pointer is null. Programming may only clear
  bits, so a page is programmed completely or not at all.
\<close>

unbundle bit_operations_syntax

datatype nand_status = NAND_OK | NAND_ERR_RANGE | NAND_ERR_BAD_BLOCK | NAND_ERR_NOT_ERASED

record nand =
  page_size :: u32
  spare_size :: u32
  pages_per_block :: u32
  block_count :: u32
  ndata :: "u8 list option"
  nspare :: "u8 list option"
  nbad :: "u8 list option"

definition nand_total_pages :: "nand \<Rightarrow> u32" where
  "nand_total_pages n = pages_per_block n * block_count n"

definition nand_free :: "nand \<Rightarrow> nand" where
  "nand_free n = n\<lparr>ndata := None, nspare := None, nbad := None, block_count := 0\<rparr>"

definition nand_zero :: nand where
  "nand_zero = \<lparr>page_size = 0, spare_size = 0, pages_per_block = 0, block_count = 0,
     ndata = None, nspare = None, nbad = None\<rparr>"

text \<open>
  \<open>a1\<close>, \<open>a2\<close>, \<open>a3\<close> are whether the host grants the three allocations; \<open>size_t\<close> has 64 bits.
\<close>

definition nand_init :: "bool \<Rightarrow> bool \<Rightarrow> bool \<Rightarrow> u32 \<Rightarrow> u32 \<Rightarrow> u32 \<Rightarrow> u32 \<Rightarrow> bool \<times> nand" where
  "nand_init a1 a2 a3 ps ss ppb bc =
     (if ps = 0 \<or> ppb = 0 \<or> bc = 0 then (False, nand_zero)
      else
        let pages = ucast ppb * ucast bc :: u64;
            dbytes = pages * ucast ps;
            sbytes = pages * ucast ss
        in if pages > 0xffffffff \<or> dbytes > 0xffffffffffffffff \<or> sbytes > 0xffffffffffffffff then (False, nand_zero)
           else
             let n = \<lparr>page_size = ps, spare_size = ss, pages_per_block = ppb, block_count = bc,
                   ndata = if a1 then Some (replicate (unat dbytes) 0xff) else None,
                   nspare = if ss \<noteq> 0 \<and> a2 then Some (replicate (unat sbytes) 0xff) else None,
                   nbad = if a3 then Some (replicate (unat bc) 0) else None\<rparr>
             in if ndata n = None \<or> ss \<noteq> 0 \<and> nspare n = None \<or> nbad n = None then (False, nand_free n)
                else (True, n))"

definition page_of :: "u8 list \<Rightarrow> nat \<Rightarrow> nat \<Rightarrow> u8 list" where
  "page_of bytes page sz = take sz (drop (page * sz) bytes)"

definition nand_read_page :: "nand \<Rightarrow> u32 \<Rightarrow> nand_status \<times> u8 list option \<times> u8 list option" where
  "nand_read_page n page =
     (case ndata n of
        None \<Rightarrow> (NAND_ERR_RANGE, None, None)
      | Some d \<Rightarrow>
          if page \<ge> nand_total_pages n then (NAND_ERR_RANGE, None, None)
          else (NAND_OK, Some (page_of d (unat page) (unat (page_size n))),
                map_option (\<lambda>s. page_of s (unat page) (unat (spare_size n))) (nspare n)))"

text \<open>\<open>(old[i] & new[i]) != new[i]\<close> for some \<open>i\<close>: the program would have to set a bit.\<close>

definition needs_erase :: "u8 list \<Rightarrow> u8 list \<Rightarrow> nat \<Rightarrow> bool" where
  "needs_erase old new sz \<longleftrightarrow> list_ex (\<lambda>i. old ! i AND new ! i \<noteq> new ! i) [0..<sz]"

definition burn_page :: "u8 list \<Rightarrow> nat \<Rightarrow> u8 list \<Rightarrow> nat \<Rightarrow> u8 list" where
  "burn_page bytes page new sz = splice (page * sz) (map (\<lambda>i. page_of bytes page sz ! i AND new ! i) [0..<sz]) bytes"

definition nand_program_page :: "nand \<Rightarrow> u32 \<Rightarrow> u8 list option \<Rightarrow> u8 list option \<Rightarrow> nand_status \<times> nand" where
  "nand_program_page n page data spare =
     (case (ndata n, nbad n) of
        (Some d, Some bad) \<Rightarrow>
          if page \<ge> nand_total_pages n then (NAND_ERR_RANGE, n)
          else
            let block = page div pages_per_block n; p = unat page;
                ps = unat (page_size n); ss = unat (spare_size n)
            in if bad ! unat block \<noteq> 0 then (NAND_ERR_BAD_BLOCK, n)
               else if (case data of None \<Rightarrow> False | Some x \<Rightarrow> needs_erase (page_of d p ps) x ps) then (NAND_ERR_NOT_ERASED, n)
               else if (case (spare, nspare n) of
                          (Some y, Some s) \<Rightarrow> needs_erase (page_of s p ss) y ss
                        | _ \<Rightarrow> False) then (NAND_ERR_NOT_ERASED, n)
               else
                 let n = (case data of None \<Rightarrow> n | Some x \<Rightarrow> n\<lparr>ndata := Some (burn_page d p x ps)\<rparr>);
                     n = (case (spare, nspare n) of
                            (Some y, Some s) \<Rightarrow> n\<lparr>nspare := Some (burn_page s p y ss)\<rparr>
                          | _ \<Rightarrow> n)
                 in (NAND_OK, n)
      | _ \<Rightarrow> (NAND_ERR_RANGE, n))"

definition nand_erase_block :: "nand \<Rightarrow> u32 \<Rightarrow> nand_status \<times> nand" where
  "nand_erase_block n block =
     (case (ndata n, nbad n) of
        (Some d, Some bad) \<Rightarrow>
          if block \<ge> block_count n then (NAND_ERR_RANGE, n)
          else if bad ! unat block \<noteq> 0 then (NAND_ERR_BAD_BLOCK, n)
          else
            let first = unat block * unat (pages_per_block n);
                clear = (\<lambda>bytes sz. splice (first * sz) (replicate (unat (pages_per_block n) * sz) 0xff) bytes)
            in (NAND_OK, n\<lparr>ndata := Some (clear d (unat (page_size n))),
                           nspare := map_option (\<lambda>s. clear s (unat (spare_size n))) (nspare n)\<rparr>)
      | _ \<Rightarrow> (NAND_ERR_RANGE, n))"

definition nand_mark_bad :: "nand \<Rightarrow> u32 \<Rightarrow> nand" where
  "nand_mark_bad n block =
     (case nbad n of
        None \<Rightarrow> n
      | Some bad \<Rightarrow> if block < block_count n then n\<lparr>nbad := Some (bad[unat block := 1])\<rparr> else n)"

definition nand_is_bad :: "nand \<Rightarrow> u32 \<Rightarrow> bool" where
  "nand_is_bad n block \<longleftrightarrow>
     (case nbad n of None \<Rightarrow> False | Some bad \<Rightarrow> block < block_count n \<and> bad ! unat block \<noteq> 0)"

subsection \<open>Pages\<close>

lemma page_index_less: "i < sz \<Longrightarrow> q * sz + i < b * sz \<longleftrightarrow> q < (b :: nat)"
  using div_less_iff_less_mult [of sz "q * sz + i" b] by simp

lemma page_index_le: "i < sz \<Longrightarrow> b * sz \<le> q * sz + i \<longleftrightarrow> (b :: nat) \<le> q"
  using page_index_less [of i sz q b] by (simp add: not_less [symmetric])

lemma page_end_le: "q < (p :: nat) \<Longrightarrow> q * sz + sz \<le> p * sz"
  using mult_le_mono1 [of "Suc q" p sz] by simp

lemma length_page_of: "q < p \<Longrightarrow> length bytes = p * sz \<Longrightarrow> length (page_of bytes q sz) = sz"
  using page_end_le [of q p sz] by (simp add: page_of_def)

lemma nth_page_of: "i < sz \<Longrightarrow> q < p \<Longrightarrow> length bytes = p * sz \<Longrightarrow> page_of bytes q sz ! i = bytes ! (q * sz + i)"
  using page_end_le [of q p sz] by (simp add: page_of_def)

lemma page_of_splice:
  assumes "length bytes = p * sz" "length xs = k * sz" "a + k \<le> p" "q < p"
  shows "page_of (splice (a * sz) xs bytes) q sz =
    (if a \<le> q \<and> q < a + k then page_of xs (q - a) sz else page_of bytes q sz)"
proof (rule nth_equalityI)
  have fit: "a * sz + length xs \<le> length bytes"
    using mult_le_mono1 [OF assms(3), of sz] by (simp add: assms(1,2) add_mult_distrib)
  then have len: "length (splice (a * sz) xs bytes) = p * sz"
    using assms(1) by simp
  show "length (page_of (splice (a * sz) xs bytes) q sz) =
    length (if a \<le> q \<and> q < a + k then page_of xs (q - a) sz else page_of bytes q sz)"
    using assms len by (auto simp: length_page_of [where p = p] length_page_of [where p = k])
  fix i assume "i < length (page_of (splice (a * sz) xs bytes) q sz)"
  then have i: "i < sz"
    using assms(4) len by (simp add: length_page_of [where p = p])
  have in_range: "q * sz + i < length bytes"
    using page_index_less [OF i, of q p] assms(1,4) by simp
  have mid: "a * sz \<le> q * sz + i \<and> q * sz + i < a * sz + length xs \<longleftrightarrow> a \<le> q \<and> q < a + k"
    using page_index_le [OF i, of a q] page_index_less [OF i, of q "a + k"]
    by (simp add: assms(2) add_mult_distrib)
  have sub: "q * sz + i - a * sz = (q - a) * sz + i" if "a \<le> q"
    using that by (simp add: diff_mult_distrib)
  show "page_of (splice (a * sz) xs bytes) q sz ! i =
    (if a \<le> q \<and> q < a + k then page_of xs (q - a) sz else page_of bytes q sz) ! i"
    using assms len i in_range mid sub fit
    by (auto simp: nth_page_of [where p = p] nth_page_of [where p = k] nth_splice)
qed

lemma page_of_whole: "length xs = sz \<Longrightarrow> page_of xs 0 sz = xs"
  by (simp add: page_of_def)

lemma page_of_replicate: "q < k \<Longrightarrow> page_of (replicate (k * sz) x) q sz = replicate sz x"
  using page_end_le [of q k sz] by (simp add: page_of_def min_def)

lemma page_of_put:
  "length bytes = p * sz \<Longrightarrow> length xs = sz \<Longrightarrow> a < p \<Longrightarrow> q < p \<Longrightarrow>
   page_of (splice (a * sz) xs bytes) q sz = (if q = a then xs else page_of bytes q sz)"
  using page_of_splice [of bytes p sz xs 1 a q] by (auto simp: page_of_whole)

lemma page_of_clear:
  "length bytes = p * sz \<Longrightarrow> a + k \<le> p \<Longrightarrow> q < p \<Longrightarrow>
   page_of (splice (a * sz) (replicate (k * sz) x) bytes) q sz =
     (if a \<le> q \<and> q < a + k then replicate sz x else page_of bytes q sz)"
  using page_of_splice [of bytes p sz "replicate (k * sz) x" k a q] page_of_replicate [of "q - a" k sz x] by auto

lemma burn_exact:
  assumes "\<not> needs_erase (page_of bytes a sz) new sz" "length new = sz"
  shows "burn_page bytes a new sz = splice (a * sz) new bytes"
proof -
  have "map (\<lambda>i. page_of bytes a sz ! i AND new ! i) [0..<sz] = map ((!) new) [0..<length new]"
    using assms by (auto simp: needs_erase_def list_ex_iff)
  then show ?thesis
    by (simp add: burn_page_def map_nth)
qed

lemma erased_accepts: "length new = sz \<Longrightarrow> \<not> needs_erase (replicate sz 0xff) new sz"
proof -
  have "(0xff :: u8) = - 1" by simp
  then have "(0xff :: u8) AND w = w" for w
    by (simp only: and.left_neutral)
  then show ?thesis by (simp add: needs_erase_def list_ex_iff)
qed

subsection \<open>Well-formed devices\<close>

definition nand_pages :: "nand \<Rightarrow> nat" where
  "nand_pages n = unat (pages_per_block n) * unat (block_count n)"

definition nand_wf :: "nand \<Rightarrow> bool" where
  "nand_wf n \<longleftrightarrow> 0 < unat (pages_per_block n) \<and> nand_pages n < 2 ^ 32 \<and>
     (\<exists>d. ndata n = Some d \<and> length d = nand_pages n * unat (page_size n)) \<and>
     (if spare_size n = 0 then nspare n = None
      else \<exists>s. nspare n = Some s \<and> length s = nand_pages n * unat (spare_size n)) \<and>
     (\<exists>b. nbad n = Some b \<and> length b = unat (block_count n))"

lemma nand_wf_total: "nand_wf n \<Longrightarrow> unat (nand_total_pages n) = nand_pages n"
  by (simp add: nand_wf_def nand_total_pages_def nand_pages_def unat_word_ariths(2))

lemma nand_block_pages:
  "nand_wf n \<Longrightarrow> b < unat (block_count n) \<Longrightarrow>
   b * unat (pages_per_block n) + unat (pages_per_block n) \<le> nand_pages n"
  using page_end_le [of b "unat (block_count n)" "unat (pages_per_block n)"] by (simp add: nand_pages_def mult.commute)

lemma nand_page_block:
  assumes "nand_wf n" "page < nand_total_pages n"
  shows "unat (page div pages_per_block n) < unat (block_count n)"
proof -
  have "unat page < unat (block_count n) * unat (pages_per_block n)"
    using assms nand_wf_total [OF assms(1)] by (simp add: word_less_nat_alt nand_pages_def mult.commute)
  then show ?thesis
    using assms(1) by (simp add: unat_div less_mult_imp_div_less)
qed

lemma u64_mult_small:
  assumes "unat (x :: u64) < 2 ^ 32"
  shows "unat (x * ucast (w :: u32)) = unat x * unat w"
proof -
  have "unat x * unat w < 2 ^ 32 * 2 ^ 32"
    by (rule mult_strict_mono) (use assms unsigned_less [where 'a = nat, of w] in auto)
  then show ?thesis
    by (simp add: unat_word_ariths(2) unat_ucast_u64)
qed

lemma u64_mult: "unat (ucast (v :: u32) * ucast (w :: u32) :: u64) = unat v * unat w"
  using u64_mult_small [of "ucast v" w] unsigned_less [where 'a = nat, of v] by (simp add: unat_ucast_u64)

lemma nand_init_wf:
  assumes "nand_init a1 a2 a3 ps ss ppb bc = (True, n)"
  shows "nand_wf n"
proof -
  define pages where "pages = (ucast ppb * ucast bc :: u64)"
  have g: "ppb \<noteq> 0" "\<not> pages > 0xffffffff" and
    n: "n = \<lparr>page_size = ps, spare_size = ss, pages_per_block = ppb, block_count = bc,
        ndata = Some (replicate (unat (pages * ucast ps)) 0xff),
        nspare = if ss \<noteq> 0 then Some (replicate (unat (pages * ucast ss)) 0xff) else None,
        nbad = Some (replicate (unat bc) 0)\<rparr>"
    using assms by (auto simp: nand_init_def Let_def pages_def split: if_split_asm)
  have p: "unat pages = unat ppb * unat bc"
    unfolding pages_def by (rule u64_mult)
  have small: "unat pages < 2 ^ 32"
    using g(2) by (simp add: word_less_nat_alt)
  show ?thesis
    using small g(1) by (simp add: nand_wf_def nand_pages_def n u64_mult_small [OF small] p [symmetric] unat_gt_0)
qed

lemma nand_wf_update:
  "nand_wf n \<Longrightarrow> ndata n = Some d \<Longrightarrow> length d' = length d \<Longrightarrow> nand_wf (n\<lparr>ndata := Some d'\<rparr>)"
  "nand_wf n \<Longrightarrow> nspare n = Some s \<Longrightarrow> length s' = length s \<Longrightarrow> nand_wf (n\<lparr>nspare := Some s'\<rparr>)"
  by (auto simp: nand_wf_def nand_pages_def split: if_split_asm)

lemma nand_mark_bad_wf: "nand_wf n \<Longrightarrow> nand_wf (nand_mark_bad n b)"
  by (auto simp: nand_mark_bad_def nand_wf_def nand_pages_def split: option.split if_split_asm)

lemma nand_read_wf:
  assumes "nand_wf n" "ndata n = Some d"
  shows "nand_read_page n page =
    (if unat page < nand_pages n
     then (NAND_OK, Some (page_of d (unat page) (unat (page_size n))),
           map_option (\<lambda>s. page_of s (unat page) (unat (spare_size n))) (nspare n))
     else (NAND_ERR_RANGE, None, None))"
  using assms nand_wf_total [OF assms(1)] by (simp add: nand_read_page_def word_le_nat_alt)

lemma nand_erase_ok:
  assumes "nand_wf n" "nand_erase_block n b = (NAND_OK, n')"
  shows "nand_wf n' \<and> b < block_count n \<and> nbad n' = nbad n \<and> nand_pages n' = nand_pages n \<and>
    page_size n' = page_size n \<and> spare_size n' = spare_size n \<and> pages_per_block n' = pages_per_block n \<and>
    block_count n' = block_count n \<and> \<not> nand_is_bad n b \<and>
    nand_read_page n' q =
      (if unat q < nand_pages n \<and> q div pages_per_block n = b
       then (NAND_OK, Some (replicate (unat (page_size n)) 0xff),
             if spare_size n = 0 then None else Some (replicate (unat (spare_size n)) 0xff))
       else nand_read_page n q)"
proof -
  let ?ppb = "unat (pages_per_block n)"
  obtain d bad where d: "ndata n = Some d" "nbad n = Some bad" "length d = nand_pages n * unat (page_size n)"
    using assms(1) by (auto simp: nand_wf_def)
  have ppb: "0 < ?ppb"
    using assms(1) by (simp add: nand_wf_def)
  have b: "b < block_count n" "bad ! unat b = 0" and
    n': "n' = n\<lparr>ndata := Some (splice (unat b * ?ppb * unat (page_size n)) (replicate (?ppb * unat (page_size n)) 0xff) d),
             nspare := map_option (\<lambda>s. splice (unat b * ?ppb * unat (spare_size n)) (replicate (?ppb * unat (spare_size n)) 0xff) s) (nspare n)\<rparr>"
    using assms(2) d by (auto simp: nand_erase_block_def Let_def split: if_split_asm)
  have fit: "unat b * ?ppb + ?ppb \<le> nand_pages n"
    using nand_block_pages [OF assms(1)] b(1) by (simp add: word_less_nat_alt)
  have fits: "unat b * ?ppb * sz + ?ppb * sz \<le> nand_pages n * sz" for sz
    using mult_le_mono1 [OF fit, of sz] by (simp add: add_mult_distrib)
  have block: "q div pages_per_block n = b \<longleftrightarrow> unat b * ?ppb \<le> unat q \<and> unat q < unat b * ?ppb + ?ppb"
    using less_eq_div_iff_mult_less_eq [OF ppb, of "unat b" "unat q"] div_less_iff_less_mult [OF ppb, of "unat q" "unat b + 1"]
    unfolding word_unat_eq_iff unat_div by auto
  have wf: "nand_wf n'"
    using assms(1) d fits by (auto simp: nand_wf_def nand_pages_def n' split: if_split_asm)
  show ?thesis
  proof (intro conjI)
    show "nand_wf n'" by (rule wf)
    show "b < block_count n" by (rule b)
    show "\<not> nand_is_bad n b"
      using b d by (simp add: nand_is_bad_def)
    have pages: "nand_pages n' = nand_pages n"
      by (simp add: nand_pages_def n')
    show "nand_pages n' = nand_pages n" by (rule pages)
    have spare: "map_option (\<lambda>s. page_of s (unat q) (unat (spare_size n))) (nspare n') =
        (if q div pages_per_block n = b then (if spare_size n = 0 then None else Some (replicate (unat (spare_size n)) 0xff))
         else map_option (\<lambda>s. page_of s (unat q) (unat (spare_size n))) (nspare n))"
      if q: "unat q < nand_pages n"
      using assms(1) page_of_clear [OF _ fit q] by (auto simp: nand_wf_def n' block split: if_split_asm)
    show "nand_read_page n' q = (if unat q < nand_pages n \<and> q div pages_per_block n = b
       then (NAND_OK, Some (replicate (unat (page_size n)) 0xff),
             if spare_size n = 0 then None else Some (replicate (unat (spare_size n)) 0xff))
       else nand_read_page n q)"
    proof (cases "unat q < nand_pages n")
      case True
      have "ndata n' = Some (splice (unat b * ?ppb * unat (page_size n)) (replicate (?ppb * unat (page_size n)) 0xff) d)"
        by (simp add: n')
      note read = nand_read_wf [OF wf this, of q, unfolded pages]
      have "page_size n' = page_size n" "spare_size n' = spare_size n"
        by (simp_all add: n')
      then show ?thesis
        unfolding read nand_read_wf [OF assms(1) d(1)] using True spare [OF True]
        by (simp add: block page_of_clear [OF d(3) fit True])
    next
      case False
      then show ?thesis
        using nand_wf_total [OF assms(1)] nand_wf_total [OF wf] d
        by (simp add: nand_read_page_def pages word_le_nat_alt split: option.split)
    qed
  qed (simp_all add: n')
qed

lemma nand_program_ok:
  assumes wf: "nand_wf n" and prog: "nand_program_page n page data spare = (st, n')"
    and data: "\<And>x. data = Some x \<Longrightarrow> length x = unat (page_size n)"
    and spare: "\<And>y. spare = Some y \<Longrightarrow> length y = unat (spare_size n)"
  shows "nand_wf n' \<and> (st \<noteq> NAND_OK \<longrightarrow> n' = n) \<and>
    (st = NAND_OK \<longrightarrow>
       page < nand_total_pages n \<and> nbad n' = nbad n \<and> nand_pages n' = nand_pages n \<and>
       nand_read_page n' q =
         (case nand_read_page n q of (r, d, s) \<Rightarrow>
            if q = page then (r, if data = None then d else data, if spare = None \<or> s = None then s else spare)
            else (r, d, s)))"
proof -
  obtain d bad where d: "ndata n = Some d" "nbad n = Some bad" "length d = nand_pages n * unat (page_size n)"
    using wf by (auto simp: nand_wf_def)
  let ?p = "unat page" and ?ps = "unat (page_size n)" and ?ss = "unat (spare_size n)"
  define d1 where "d1 = (case data of None \<Rightarrow> d | Some x \<Rightarrow> splice (?p * ?ps) x d)"
  define s1 where "s1 = (case spare of None \<Rightarrow> nspare n | Some y \<Rightarrow> map_option (splice (?p * ?ss) y) (nspare n))"
  show ?thesis
  proof (cases "st = NAND_OK")
    case False
    then have "n' = n"
      using prog d by (auto simp: nand_program_page_def Let_def split: if_split_asm)
    then show ?thesis using wf False by simp
  next
    case True
    then have page: "page < nand_total_pages n"
      and dok: "\<And>x. data = Some x \<Longrightarrow> \<not> needs_erase (page_of d ?p ?ps) x ?ps"
      and sok: "\<And>y s. spare = Some y \<Longrightarrow> nspare n = Some s \<Longrightarrow> \<not> needs_erase (page_of s ?p ?ss) y ?ss"
      using prog d by (auto simp: nand_program_page_def Let_def split: if_split_asm)
    have p: "?p < nand_pages n"
      using page nand_wf_total [OF wf] by (simp add: word_less_nat_alt)
    have n': "n' = n\<lparr>ndata := Some d1, nspare := s1\<rparr>"
      using prog True d dok sok data spare
      by (auto simp: nand_program_page_def Let_def d1_def s1_def burn_exact split: if_split_asm option.split option.split_asm)
    have d1: "length d1 = length d" "q < nand_pages n \<Longrightarrow>
        page_of d1 q ?ps = (case data of Some x \<Rightarrow> if q = ?p then x else page_of d q ?ps | None \<Rightarrow> page_of d q ?ps)" for q
      using page_end_le [OF p, of ?ps] d(3) data p
      by (auto simp: d1_def page_of_put [OF d(3)] split: option.split)
    have len: "length s = nand_pages n * ?ss" if "nspare n = Some s" for s
      using wf that by (auto simp: nand_wf_def split: if_split_asm)
    have s1: "map_option length s1 = map_option length (nspare n)" "q < nand_pages n \<Longrightarrow>
        map_option (\<lambda>s. page_of s q ?ss) s1 =
          (case nspare n of None \<Rightarrow> None | Some s \<Rightarrow>
             (case spare of Some y \<Rightarrow> Some (if q = ?p then y else page_of s q ?ss) | None \<Rightarrow> Some (page_of s q ?ss)))" for q
      using page_end_le [OF p, of ?ss] spare p
      by (cases "nspare n"; auto simp: s1_def page_of_put [OF len] len split: option.split)+
    have wf': "nand_wf n'"
      using wf d d1(1) s1(1) by (auto simp: nand_wf_def nand_pages_def n' split: if_split_asm)
    have same: "nand_pages n' = nand_pages n" "page_size n' = page_size n" "spare_size n' = spare_size n"
      "nbad n' = nbad n" "ndata n' = Some d1" "nspare n' = s1"
      by (simp_all add: n' nand_pages_def)
    have "nand_read_page n' q =
        (case nand_read_page n q of (r, e, s) \<Rightarrow>
           if q = page then (r, if data = None then e else data, if spare = None \<or> s = None then s else spare)
           else (r, e, s))"
    proof (cases "unat q < nand_pages n")
      case True
      then show ?thesis
        unfolding nand_read_wf [OF wf' same(5)] nand_read_wf [OF wf d(1)] same
        by (cases "nspare n"; cases data; cases spare) (auto simp: d1(2) s1(2) word_unat_eq_iff [of q])
    next
      case False
      then show ?thesis
        using p unfolding nand_read_wf [OF wf' same(5)] nand_read_wf [OF wf d(1)] same by auto
    qed
    then show ?thesis
      using wf' True page same by simp
  qed
qed

text \<open>
  C25. After the erase of its block succeeds, programming a page succeeds whatever the bytes: the page
  reads back as the data and spare bytes given, the other pages of the block read as ones, and no page
  outside the block has changed. (\<open>nand_program_ok\<close> covers programming without an erase: it is all or
  nothing.)
\<close>

theorem nand_erase_program_read:
  assumes wf: "nand_wf n" and erase: "nand_erase_block n b = (NAND_OK, n1)"
    and page: "page < nand_total_pages n" "page div pages_per_block n = b"
    and len: "length x = unat (page_size n)" "length y = unat (spare_size n)"
  shows "case nand_program_page n1 page (Some x) (Some y) of (st, n2) \<Rightarrow>
    st = NAND_OK \<and> nand_wf n2 \<and>
    nand_read_page n2 q =
      (if q = page then (NAND_OK, Some x, if spare_size n = 0 then None else Some y)
       else if q < nand_total_pages n \<and> q div pages_per_block n = b
       then (NAND_OK, Some (replicate (unat (page_size n)) 0xff),
             if spare_size n = 0 then None else Some (replicate (unat (spare_size n)) 0xff))
       else nand_read_page n q)"
proof -
  note e = nand_erase_ok [OF wf erase]
  have wf1: "nand_wf n1" using e by blast
  have same: "page_size n1 = page_size n" "spare_size n1 = spare_size n" "pages_per_block n1 = pages_per_block n"
    "block_count n1 = block_count n" "nbad n1 = nbad n" "nand_pages n1 = nand_pages n"
    using e by blast+
  have total: "nand_total_pages n1 = nand_total_pages n"
    by (simp add: nand_total_pages_def same)
  have p: "unat page < nand_pages n"
    using page(1) nand_wf_total [OF wf] by (simp add: word_less_nat_alt)
  obtain d bad where d: "ndata n1 = Some d" "nbad n = Some bad"
    using wf1 wf by (auto simp: nand_wf_def)
  have "bad ! unat b = 0"
    using e d(2) by (auto simp: nand_is_bad_def)
  moreover have read: "page_of d (unat page) (unat (page_size n)) = replicate (unat (page_size n)) 0xff"
    "\<And>s. nspare n1 = Some s \<Longrightarrow> page_of s (unat page) (unat (spare_size n)) = replicate (unat (spare_size n)) 0xff"
    using e [of page] p page(2) by (auto simp: nand_read_wf [OF wf1 d(1)] same split: if_split_asm)
  ultimately have ok: "fst (nand_program_page n1 page (Some x) (Some y)) = NAND_OK"
    using d page erased_accepts [OF len(1)] erased_accepts [OF len(2)]
    by (auto simp: nand_program_page_def Let_def total same not_le split: option.split)
  obtain st n2 where prog: "nand_program_page n1 page (Some x) (Some y) = (st, n2)"
    by fastforce
  have "st = NAND_OK" using ok prog by simp
  then show ?thesis
    using nand_program_ok [OF wf1 prog, of q] len e [of q] nand_wf_total [OF wf] page
    by (simp add: prog same word_less_nat_alt split: prod.split)
qed

definition nand_sample :: nand where
  "nand_sample = \<lparr>page_size = 2, spare_size = 1, pages_per_block = 2, block_count = 2,
     ndata = Some [1, 2, 3, 4, 5, 6, 7, 8], nspare = Some [1, 2, 3, 4], nbad = Some [1, 0]\<rparr>"

lemma nand_sample_wf: "nand_wf nand_sample"
  by (simp add: nand_wf_def nand_pages_def nand_sample_def)

theorem nand_erase_program_read_witness:
  "\<exists>n1 n2. nand_erase_block nand_sample 1 = (NAND_OK, n1) \<and>
     nand_program_page n1 3 (Some [0x5a, 0xa5]) (Some [0x11]) = (NAND_OK, n2) \<and>
     nand_read_page n2 3 = (NAND_OK, Some [0x5a, 0xa5], Some [0x11]) \<and>
     nand_read_page n2 2 = (NAND_OK, Some [0xff, 0xff], Some [0xff]) \<and>
     nand_read_page n2 0 = nand_read_page nand_sample 0"
proof -
  have "fst (nand_erase_block nand_sample 1) = NAND_OK"
    by (simp add: nand_erase_block_def nand_sample_def Let_def word_le_nat_alt)
  then obtain n1 where e: "nand_erase_block nand_sample 1 = (NAND_OK, n1)"
    by (metis prod.collapse)
  obtain st n2 where p: "nand_program_page n1 3 (Some [0x5a, 0xa5]) (Some [0x11]) = (st, n2)"
    by fastforce
  have g: "3 < nand_total_pages nand_sample" "3 div pages_per_block nand_sample = 1"
    "length [0x5a, 0xa5 :: u8] = unat (page_size nand_sample)" "length [0x11 :: u8] = unat (spare_size nand_sample)"
    by (simp_all add: nand_sample_def nand_total_pages_def)
  note t = nand_erase_program_read [OF nand_sample_wf e g]
  have "page_size nand_sample = 2" "spare_size nand_sample = 1" "pages_per_block nand_sample = 2"
    "nand_total_pages nand_sample = 4"
    by (simp_all add: nand_sample_def nand_total_pages_def)
  moreover have "replicate 2 (0xff :: u8) = [0xff, 0xff]"
    by (simp add: numeral_2_eq_2)
  ultimately show ?thesis
    using t [of 3] t [of 2] t [of 0] by (simp add: e p word_less_nat_alt)
qed

end
