(* ===== verification/MachineClock.thy ===== *)
theory MachineClock
  imports ArmState SocTimer SocVic
begin

text \<open>
  The clock of \<open>soc/machine.c\<close>: conversion of CPU ticks into timebase ticks with the remainder carried,
  the early-out of \<open>s5l8900_tick\<close>, the refresh that advances the devices and recomputes the
  interrupt lines, the wake-source reduction and the fast-forward of a wait for interrupt. The timer
  and the two interrupt controllers are the models of their own theories. The other devices of the
  refresh (display, graphics, I2C, SPI, UART, DMA, GPIO, buttons) are a state of type \<open>'d\<close> with the
  functions of \<open>other_devices\<close>: what is proved holds whatever they do.
\<close>

unbundle bit_operations_syntax

subsection \<open>State\<close>

record 'd soc_parts =
  mtimer :: s5l_timer
  vic0 :: s5l_vic
  vic1 :: s5l_vic
  rest :: 'd

record 'd devices =
  level_dirty :: bool
  ext_seen :: u32
  parts :: "'d soc_parts"

record 'd s5l8900 =
  cpu_hz :: u32
  tb_hz :: u32
  tb_accum :: u64
  mcpu :: arm_cpu
  mdev :: "'d devices"

datatype wake = WAKE_NEVER | WAKE_AT u32 | WAKE_UNKNOWN

text \<open>
  \<open>advance\<close>: the other devices after some timebase ticks, the level each drives on its line, and
  whether their own bus traffic marked the levels dirty; \<open>ext_inputs\<close> and the two edges as in
  \<open>machine.c\<close>; \<open>tick_eager\<close>: the switch that disables the early-out.
\<close>

record 'd other_devices =
  tick_eager :: bool
  ext_inputs :: "'d \<Rightarrow> u32"
  advance :: "u32 \<Rightarrow> 'd \<Rightarrow> 'd \<times> (nat \<Rightarrow> bool) \<times> bool"
  wake_edge_clcd :: "'d \<Rightarrow> wake"
  wake_edge_tvout :: "'d \<Rightarrow> wake"

subsection \<open>Refresh and tick\<close>

definition set_flat_line :: "(nat \<Rightarrow> bool) \<Rightarrow> nat \<Rightarrow> s5l_vic \<times> s5l_vic \<Rightarrow> s5l_vic \<times> s5l_vic" where
  "set_flat_line level line v =
     (if line div 32 = 0 then (s5l_vic_set_line (fst v) (line mod 32) (level line), snd v)
      else (fst v, s5l_vic_set_line (snd v) (line mod 32) (level line)))"

text \<open>The lines the refresh drives after the timer's, in its order.\<close>

definition REFRESH_LINES :: "nat list" where
  "REFRESH_LINES = [13, 12, 30, 21, 22, 9, 10, 28, 16, 17, 33, 32, 31, 3, 2, 1, 0]"

definition s5l8900_refresh :: "'d other_devices \<Rightarrow> 'd s5l8900 \<Rightarrow> u32 \<Rightarrow> 'd s5l8900" where
  "s5l8900_refresh g m tb =
     (let p = parts (mdev m);
          (timer_irq, t) = s5l_timer_tick (mtimer p) tb;
          v0 = s5l_vic_set_line (vic0 p) 7 timer_irq;
          (r, level, dirty) = advance g tb (rest p);
          (v0, v1) = fold (set_flat_line level) REFRESH_LINES (v0, vic1 p);
          (irq, fiq) = vic_cpu_lines v0 v1
      in m\<lparr>mcpu := (mcpu m)\<lparr>irq_line := irq, fiq_line := fiq\<rparr>,
           mdev := \<lparr>level_dirty = dirty, ext_seen = ext_inputs g r,
                    parts = \<lparr>mtimer = t, vic0 = v0, vic1 = v1, rest = r\<rparr>\<rparr>\<rparr>)"

text \<open>Nothing has moved a level since the last refresh.\<close>

definition levels_seen :: "'d other_devices \<Rightarrow> 'd devices \<Rightarrow> bool" where
  "levels_seen g d \<longleftrightarrow> \<not> level_dirty d \<and> ext_inputs g (rest (parts d)) = ext_seen d"

definition s5l8900_tick :: "'d other_devices \<Rightarrow> 'd s5l8900 \<Rightarrow> u32 \<Rightarrow> 'd s5l8900" where
  "s5l8900_tick g m n =
     (if cpu_hz m \<noteq> 0 \<and> tb_hz m \<noteq> 0 then
        let acc = tb_accum m + ucast n * ucast (tb_hz m)
        in if n \<noteq> 0 \<and> levels_seen g (mdev m) \<and> \<not> tick_eager g \<and> acc < ucast (cpu_hz m)
           then m\<lparr>tb_accum := acc\<rparr>
           else
             let tb = ucast (acc div ucast (cpu_hz m))
             in s5l8900_refresh g (m\<lparr>tb_accum := acc mod ucast (cpu_hz m)\<rparr>) tb
      else s5l8900_refresh g m n)"

subsection \<open>Wake sources\<close>

definition wake_line_enabled :: "s5l_vic \<Rightarrow> s5l_vic \<Rightarrow> nat \<Rightarrow> bool" where
  "wake_line_enabled v0 v1 line =
     (if line \<ge> 64 then False
      else enable (if line div 32 = 0 then v0 else v1) AND push_bit (line mod 32) 1 \<noteq> 0)"

fun next_wake :: "(nat \<Rightarrow> bool) \<Rightarrow> (nat \<times> wake option) list \<Rightarrow> u32 option \<Rightarrow> wake" where
  "next_wake enabled [] best = (case best of None \<Rightarrow> WAKE_NEVER | Some b \<Rightarrow> WAKE_AT b)"
| "next_wake enabled ((line, edge) # srcs) best =
     (if \<not> enabled line then next_wake enabled srcs best
      else case edge of
          None \<Rightarrow> WAKE_UNKNOWN
        | Some WAKE_NEVER \<Rightarrow> next_wake enabled srcs best
        | Some WAKE_UNKNOWN \<Rightarrow> WAKE_UNKNOWN
        | Some (WAKE_AT at) \<Rightarrow>
            if at = 0 then WAKE_UNKNOWN
            else next_wake enabled srcs
                   (case best of None \<Rightarrow> Some at | Some b \<Rightarrow> if at < b then Some at else best))"

definition wake_timer :: "s5l_timer \<Rightarrow> wake" where
  "wake_timer t = (case wake_edge_timer t of None \<Rightarrow> WAKE_NEVER | Some u \<Rightarrow> WAKE_AT u)"

text \<open>
  The table of \<open>machine.c\<close>: every source other than the timer and the two display outputs answers that
  it has no future edge.
\<close>

definition WAKE_SOURCES :: "'d other_devices \<Rightarrow> 'd soc_parts \<Rightarrow> (nat \<times> wake option) list" where
  "WAKE_SOURCES g p =
     [(7, Some (wake_timer (mtimer p))), (13, Some (wake_edge_clcd g (rest p))), (30, Some (wake_edge_tvout g (rest p)))] @
     map (\<lambda>line. (line, Some WAKE_NEVER)) [9, 10, 33, 32, 31, 3, 2, 1, 0, 28, 16, 17]"

definition s5l8900_next_wake :: "'d soc_parts \<Rightarrow> (nat \<times> wake option) list \<Rightarrow> wake" where
  "s5l8900_next_wake p srcs = next_wake (wake_line_enabled (vic0 p) (vic1 p)) srcs None"

subsection \<open>Waiting\<close>

text \<open>\<open>cpu_ticks\<close> of the wait: how many CPU ticks reach the edge, or refusal of odd clock rates.\<close>

definition wfi_cpu_ticks :: "'d s5l8900 \<Rightarrow> u32 \<Rightarrow> u64 option" where
  "wfi_cpu_ticks m edge =
     (if cpu_hz m \<noteq> 0 \<and> tb_hz m \<noteq> 0 then
        if tb_hz m > cpu_hz m \<or> tb_accum m \<ge> ucast (cpu_hz m) then None
        else
          let need = ucast edge * ucast (cpu_hz m) - tb_accum m
          in Some (need div ucast (tb_hz m) + (if need mod ucast (tb_hz m) \<noteq> 0 then 1 else 0))
      else Some (ucast edge))"

definition irq_or_fiq :: "'d s5l8900 \<Rightarrow> bool" where
  "irq_or_fiq m \<longleftrightarrow> irq_line (mcpu m) \<or> fiq_line (mcpu m)"

function wfi_loop :: "'d other_devices \<Rightarrow> 'd s5l8900 \<Rightarrow> u64 \<Rightarrow> bool \<times> 'd s5l8900" where
  "wfi_loop g m k =
     (if k > 0xffffffff then
        let m = s5l8900_tick g m 0xffffffff
        in if irq_or_fiq m then (True, m) else wfi_loop g m (k - 0xffffffff)
      else
        let m = (if k \<noteq> 0 then s5l8900_tick g m (ucast k) else m)
        in (irq_or_fiq m, m))"
  by pat_completeness auto

termination
  by (relation "measure (\<lambda>(g, m, k). unat k)")
     (auto simp: word_less_nat_alt unat_sub word_le_nat_alt)

declare wfi_loop.simps [simp del]

definition machine_wait_for_interrupt :: "'d other_devices \<Rightarrow> 'd s5l8900 \<Rightarrow> bool \<times> 'd s5l8900" where
  "machine_wait_for_interrupt g m =
     (if irq_or_fiq m then (True, m)
      else
        let m = s5l8900_tick g m 0
        in if irq_or_fiq m then (True, m)
           else
             let p = parts (mdev m)
             in case s5l8900_next_wake p (WAKE_SOURCES g p) of
                 WAKE_AT edge \<Rightarrow>
                   (case wfi_cpu_ticks m edge of
                      None \<Rightarrow> (False, m)
                    | Some k \<Rightarrow> wfi_loop g m k)
               | _ \<Rightarrow> (False, m))"

subsection \<open>Conversion of ticks\<close>

text \<open>Timebase ticks in \<open>j\<close> CPU ticks, and the remainder they leave.\<close>

definition timebase :: "'d s5l8900 \<Rightarrow> nat \<Rightarrow> nat" where
  "timebase m j = (unat (tb_accum m) + j * unat (tb_hz m)) div unat (cpu_hz m)"

definition clock_ok :: "'d s5l8900 \<Rightarrow> bool" where
  "clock_ok m \<longleftrightarrow> 0 < unat (tb_hz m) \<and> unat (tb_hz m) \<le> unat (cpu_hz m) \<and> unat (tb_accum m) < unat (cpu_hz m)"

lemma unat_acc:
  fixes n :: u32
  assumes "unat (tb_accum m) < unat (cpu_hz m)"
  shows "unat (tb_accum m + ucast n * ucast (tb_hz m)) = unat (tb_accum m) + unat n * unat (tb_hz m)"
proof -
  have "unat n * unat (tb_hz m) \<le> (2 ^ 32 - 1) * (2 ^ 32 - 1)"
    using unsigned_less [where 'a = nat, of n] unsigned_less [where 'a = nat, of "tb_hz m"]
    by (intro mult_le_mono) simp_all
  moreover have "unat (tb_accum m) < 2 ^ 32"
    using assms unsigned_less [where 'a = nat, of "cpu_hz m"] by simp
  ultimately show ?thesis
    by (simp add: unat_word_ariths unat_ucast_u64 mult_le_mono)
qed

lemma ceiling_ticks:
  fixes a c h e :: nat
  assumes h: "0 < h" "h \<le> c" and a: "a < c" and e: "0 < e"
    and k: "k = (e * c - a) div h + (if (e * c - a) mod h \<noteq> 0 then 1 else 0)"
  shows "0 < k" "(a + k * h) div c = e" "j < k \<Longrightarrow> (a + j * h) div c < e"
proof -
  define q r where "q = (e * c - a) div h" and "r = (e * c - a) mod h"
  have c: "0 < c" using h by simp
  have ec: "a < e * c"
    using mult_le_mono1 [of 1 e c] a e by linarith
  have need: "e * c - a = q * h + r" and r: "r < h"
    using h by (simp_all add: q_def r_def)
  have sum: "e * c = a + q * h + r"
    using need ec by linarith
  have k': "k = q + (if r \<noteq> 0 then 1 else 0)"
    by (simp add: k q_def r_def)
  show "0 < k"
    using need ec by (cases "r = 0"; cases "q = 0") (auto simp: k')
  have "e * c \<le> a + k * h" "a + k * h < e * c + c"
    unfolding k' using sum r h by (cases "r = 0"; simp add: add_mult_distrib)+
  then show "(a + k * h) div c = e"
    using c by (intro div_nat_eqI) (auto simp: mult.commute)
  show "(a + j * h) div c < e" if "j < k"
  proof -
    have "j * h + h \<le> k * h"
      using mult_le_mono1 [of "Suc j" k h] that by (simp add: add.commute)
    moreover have "k * h = q * h + (if r = 0 then 0 else h)"
      by (simp add: k' add_mult_distrib)
    ultimately have "j * h < q * h + r"
      using h(1) by (cases "r = 0"; simp only: if_True if_False simp_thms; linarith)
    then have "a + j * h < e * c"
      using sum by linarith
    then show ?thesis
      using c by (simp add: div_less_iff_less_mult)
  qed
qed

lemma wfi_ticks_exact:
  assumes "clock_ok m" "edge \<noteq> 0"
  shows "\<exists>k. wfi_cpu_ticks m edge = Some k \<and> k \<noteq> 0 \<and> timebase m (unat k) = unat edge \<and>
    (\<forall>j < unat k. timebase m j < unat edge)"
proof -
  let ?c = "unat (cpu_hz m)" and ?h = "unat (tb_hz m)" and ?a = "unat (tb_accum m)" and ?e = "unat edge"
  have h: "0 < ?h" "?h \<le> ?c" and a: "?a < ?c" and e: "0 < ?e"
    using assms by (simp_all add: clock_ok_def unat_gt_0)
  define need where "need = ucast edge * ucast (cpu_hz m) - tb_accum m"
  define k where "k = need div ucast (tb_hz m) + (if need mod ucast (tb_hz m) \<noteq> 0 then 1 else 0)"
  have wfi: "wfi_cpu_ticks m edge = Some k"
    using h a by (auto simp: wfi_cpu_ticks_def need_def k_def Let_def word_less_nat_alt word_le_nat_alt unat_ucast_u64)
  have "?e * ?c \<le> (2 ^ 32 - 1) * (2 ^ 32 - 1)"
    using unsigned_less [where 'a = nat, of edge] unsigned_less [where 'a = nat, of "cpu_hz m"]
    by (intro mult_le_mono) simp_all
  then have prod: "unat (ucast edge * ucast (cpu_hz m) :: u64) = ?e * ?c" and small: "?e * ?c < 2 ^ 64 - 1"
    by (simp_all add: unat_word_ariths(2) unat_ucast_u64)
  have "?a < ?e * ?c"
    using mult_le_mono1 [of 1 ?e ?c] a e by linarith
  then have need: "unat need = ?e * ?c - ?a"
    unfolding need_def by (subst unat_sub) (simp_all add: prod word_le_nat_alt)
  have "unat (need div ucast (tb_hz m)) \<le> unat need"
    by (simp add: unat_div unat_ucast_u64)
  then have "unat k = (?e * ?c - ?a) div ?h + (if (?e * ?c - ?a) mod ?h \<noteq> 0 then 1 else 0)"
  proof -
    have "unat (need div ucast (tb_hz m)) + 1 < 2 ^ 64"
      using \<open>unat (need div ucast (tb_hz m)) \<le> unat need\<close> small need by simp
    then have "unat (need div ucast (tb_hz m) + 1) = unat (need div ucast (tb_hz m)) + 1"
      by (simp add: unat_word_ariths(1))
    moreover have "need mod ucast (tb_hz m) = 0 \<longleftrightarrow> unat need mod unat (tb_hz m) = 0"
      by (simp only: word_unat_eq_iff unat_mod unat_ucast_u64 unat_0)
    ultimately show ?thesis
      by (simp add: k_def need unat_div unat_ucast_u64)
  qed
  note t = ceiling_ticks [OF h a e this]
  show ?thesis
    using wfi t(1) t(2) t(3) by (auto simp: timebase_def unat_gt_0)
qed

lemma word_unatI: "unat v = unat w \<Longrightarrow> v = (w :: 'a::len word)"
  by (simp add: word_unat_eq_iff)

lemma timebase_add:
  assumes "unat (tb_accum m') = (unat (tb_accum m) + i * unat (tb_hz m)) mod unat (cpu_hz m)"
    "cpu_hz m' = cpu_hz m" "tb_hz m' = tb_hz m" "0 < unat (cpu_hz m)"
  shows "timebase m (i + j) = timebase m i + timebase m' j"
proof -
  let ?c = "unat (cpu_hz m)" and ?x = "unat (tb_accum m) + i * unat (tb_hz m)" and ?y = "j * unat (tb_hz m)"
  have "?x + ?y = ?x mod ?c + ?y + ?x div ?c * ?c"
    using mod_div_mult_eq [of ?x ?c] by linarith
  then have "(?x + ?y) div ?c = (?x mod ?c + ?y + ?x div ?c * ?c) div ?c"
    by (rule arg_cong)
  also have "\<dots> = ?x div ?c + (?x mod ?c + ?y) div ?c"
    using assms(4) by (intro div_mult_self1) simp
  finally have "(?x + ?y) div ?c = ?x div ?c + (?x mod ?c + ?y) div ?c" .
  then show ?thesis
    by (simp add: timebase_def assms(1-3) add_mult_distrib add.assoc)
qed

lemma timebase_le:
  assumes "clock_ok m"
  shows "timebase m n \<le> n"
proof -
  have "unat (tb_accum m) + n * unat (tb_hz m) < Suc n * unat (cpu_hz m)"
    using assms mult_le_mono2 [of "unat (tb_hz m)" "unat (cpu_hz m)" n] unfolding clock_ok_def mult_Suc by linarith
  then show ?thesis
    using assms by (simp add: timebase_def clock_ok_def div_less_iff_less_mult less_Suc_eq_le [symmetric])
qed

subsection \<open>What a refresh does to the timer and its line\<close>

abbreviation "timer_of m \<equiv> mtimer (parts (mdev m))"
abbreviation "timer_line_enabled m \<equiv> bit (enable (vic0 (parts (mdev m)))) 7"

lemma set_flat_line_other:
  assumes "line \<noteq> 7"
  shows "bit (raw (fst (set_flat_line level line v))) 7 = bit (raw (fst v)) 7"
    and "enable (fst (set_flat_line level line v)) = enable (fst v)"
proof -
  show "bit (raw (fst (set_flat_line level line v))) 7 = bit (raw (fst v)) 7"
    using assms by (auto simp: set_flat_line_def s5l_vic_set_line_def bit_simps)
  show "enable (fst (set_flat_line level line v)) = enable (fst v)"
    by (simp add: set_flat_line_def s5l_vic_set_line_def)
qed

lemma fold_flat_lines:
  "7 \<notin> set ls \<Longrightarrow> bit (raw (fst (fold (set_flat_line level) ls v))) 7 = bit (raw (fst v)) 7 \<and>
   enable (fst (fold (set_flat_line level) ls v)) = enable (fst v)"
  by (induction ls arbitrary: v) (auto simp: set_flat_line_other)

lemma refresh_timer:
  shows "timer_of (s5l8900_refresh g m tb) = snd (s5l_timer_tick (timer_of m) tb)"
    and "timer_line_enabled (s5l8900_refresh g m tb) = timer_line_enabled m"
    and "cpu_hz (s5l8900_refresh g m tb) = cpu_hz m" "tb_hz (s5l8900_refresh g m tb) = tb_hz m"
      "tb_accum (s5l8900_refresh g m tb) = tb_accum m"
    and "timer_line_enabled m \<Longrightarrow> irqlatch (snd (s5l_timer_tick (timer_of m) tb)) \<noteq> 0 \<Longrightarrow> irq_or_fiq (s5l8900_refresh g m tb)"
proof -
  obtain irq t where t: "s5l_timer_tick (timer_of m) tb = (irq, t)" by fastforce
  obtain r level dirty where a: "advance g tb (rest (parts (mdev m))) = (r, level, dirty)"
    by (metis prod_cases3)
  define v where "v = (s5l_vic_set_line (vic0 (parts (mdev m))) 7 irq, vic1 (parts (mdev m)))"
  obtain w0 w1 where w: "fold (set_flat_line level) REFRESH_LINES v = (w0, w1)" by fastforce
  have "7 \<notin> set REFRESH_LINES" by (simp add: REFRESH_LINES_def)
  note fold = fold_flat_lines [OF this, of level v]
  have "bit (raw (fst v)) 7 = irq" "enable (fst v) = enable (vic0 (parts (mdev m)))"
    by (auto simp: v_def s5l_vic_set_line_def bit_simps bit_masks)
  then have w0: "bit (raw w0) 7 = irq" "enable w0 = enable (vic0 (parts (mdev m)))"
    using fold by (simp_all add: w)
  have r: "s5l8900_refresh g m tb =
      m\<lparr>mcpu := (mcpu m)\<lparr>irq_line := fst (vic_cpu_lines w0 w1), fiq_line := snd (vic_cpu_lines w0 w1)\<rparr>,
        mdev := \<lparr>level_dirty = dirty, ext_seen = ext_inputs g r,
                 parts = \<lparr>mtimer = t, vic0 = w0, vic1 = w1, rest = r\<rparr>\<rparr>\<rparr>"
    using w by (simp add: s5l8900_refresh_def t a v_def split_beta)
  show "timer_of (s5l8900_refresh g m tb) = snd (s5l_timer_tick (timer_of m) tb)"
    "timer_line_enabled (s5l8900_refresh g m tb) = timer_line_enabled m"
    "cpu_hz (s5l8900_refresh g m tb) = cpu_hz m" "tb_hz (s5l8900_refresh g m tb) = tb_hz m"
    "tb_accum (s5l8900_refresh g m tb) = tb_accum m"
    by (simp_all add: r t w0)
  assume e: "timer_line_enabled m" and l: "irqlatch (snd (s5l_timer_tick (timer_of m) tb)) \<noteq> 0"
  have "irq"
    using fst_timer_tick [of "timer_of m" tb] l by (simp add: t)
  then have p: "bit (vic_pending w0) 7" "bit (enable w0) 7"
    using e w0 by (simp_all add: vic_pending_def bit_or_iff)
  have "bit (vic_pending w0 AND enable w0 AND NOT (select w0)) 7 \<or> bit (vic_pending w0 AND enable w0 AND select w0) 7"
    using p by (auto simp: bit_and_iff bit_not_iff)
  then show "irq_or_fiq (s5l8900_refresh g m tb)"
    by (auto simp: r irq_or_fiq_def vic_cpu_lines_def s5l_vic_irq_def s5l_vic_fiq_def)
qed

lemma tick_timer:
  assumes ok: "clock_ok m"
  shows "timer_of (s5l8900_tick g m n) = snd (s5l_timer_tick (timer_of m) (of_nat (timebase m (unat n))))"
    and "timer_line_enabled (s5l8900_tick g m n) = timer_line_enabled m"
    and "clock_ok (s5l8900_tick g m n)"
    and "timebase m (unat n + j) = timebase m (unat n) + timebase (s5l8900_tick g m n) j"
    and "timebase m (unat n) \<noteq> 0 \<Longrightarrow> timer_line_enabled m \<Longrightarrow> irqlatch (timer_of (s5l8900_tick g m n)) \<noteq> 0 \<Longrightarrow>
      irq_or_fiq (s5l8900_tick g m n)"
proof -
  let ?c = "unat (cpu_hz m)" and ?acc = "tb_accum m + ucast n * ucast (tb_hz m) :: u64"
  define t where "t = timebase m (unat n)"
  have hz: "cpu_hz m \<noteq> 0" "tb_hz m \<noteq> 0" and lt: "unat (tb_accum m) < ?c" and c: "0 < ?c"
    using ok by (auto simp: clock_ok_def)
  have acc: "unat ?acc = unat (tb_accum m) + unat n * unat (tb_hz m)"
    by (rule unat_acc [OF lt])
  have t32: "t < 2 ^ 32"
    using timebase_le [OF ok, of "unat n"] unsigned_less [where 'a = nat, of n] by (simp add: t_def)
  have d: "unat (?acc div ucast (cpu_hz m)) = t"
    by (simp only: unat_div acc unat_ucast_u64 t_def timebase_def)
  have tb: "ucast (?acc div ucast (cpu_hz m)) = (of_nat t :: u32)"
    by (rule word_unatI) (use t32 in \<open>simp only: unsigned_ucast_eq d, simp add: unat_of_nat take_bit_eq_mod\<close>)
  let ?m' = "s5l8900_tick g m n"
  have cases: "(t = 0 \<and> ?m' = m\<lparr>tb_accum := ?acc\<rparr> \<and> unat ?acc < ?c) \<or>
      ?m' = s5l8900_refresh g (m\<lparr>tb_accum := ?acc mod ucast (cpu_hz m)\<rparr>) (of_nat t)"
    using hz by (auto simp: s5l8900_tick_def Let_def tb word_less_nat_alt unat_ucast_u64 t_def timebase_def acc)
  have accum: "unat (tb_accum ?m') = (unat (tb_accum m) + unat n * unat (tb_hz m)) mod ?c"
    using cases by (auto simp: refresh_timer unat_mod unat_ucast_u64 acc)
  have hz': "cpu_hz ?m' = cpu_hz m" "tb_hz ?m' = tb_hz m"
    using cases by (auto simp: refresh_timer)
  show "timer_of ?m' = snd (s5l_timer_tick (timer_of m) (of_nat (timebase m (unat n))))"
    using cases by (auto simp: refresh_timer t_def [symmetric])
  show "timer_line_enabled ?m' = timer_line_enabled m"
    using cases by (auto simp: refresh_timer)
  show "clock_ok ?m'"
    using ok c by (simp add: clock_ok_def accum hz')
  show "timebase m (unat n + j) = timebase m (unat n) + timebase ?m' j"
    using timebase_add [OF accum hz' c] .
  show "irq_or_fiq ?m'" if "timebase m (unat n) \<noteq> 0" "timer_line_enabled m" "irqlatch (timer_of ?m') \<noteq> 0"
    using cases that refresh_timer(6) [of "m\<lparr>tb_accum := ?acc mod ucast (cpu_hz m)\<rparr>" "of_nat t" g]
    by (auto simp: refresh_timer t_def [symmetric])
qed

subsection \<open>The wait reaches the timer's edge\<close>

lemma wake_edge_step:
  assumes "wake_edge_timer t = Some u" "n < u"
  shows "wake_edge_timer (snd (s5l_timer_tick t n)) = Some (u - n)"
  using assms by (auto simp: wake_edge_timer_def s5l_timer_tick_def Let_def split: if_split_asm)

lemma wake_edge_pos: "wake_edge_timer t = Some u \<Longrightarrow> u \<noteq> 0"
  by (auto simp: wake_edge_timer_def Let_def split: if_split_asm)

lemma wake_edge_latch:
  "wake_edge_timer t = Some u \<Longrightarrow> irqlatch (snd (s5l_timer_tick t u)) \<noteq> 0"
proof -
  assume "wake_edge_timer t = Some u"
  moreover have "x OR TIMER4_IRQ_BITS \<noteq> 0" for x
  proof
    assume "x OR TIMER4_IRQ_BITS = 0"
    then have "bit (x OR TIMER4_IRQ_BITS) 16 = bit (0 :: u32) 16" by simp
    then show False
      by (simp add: bit_or_iff TIMER4_IRQ_BITS_def bit_numeral_word_iff)
  qed
  ultimately show ?thesis
    by (auto simp: wake_edge_timer_def s5l_timer_tick_def Let_def split: if_split_asm)
qed

lemma timer_edges_tick: "snd (s5l_timer_tick t n) = (timer_edge ^^ unat n) t"
  by (rule timer_tick_iter)

lemma wfi_loop_wakes:
  assumes "clock_ok m" "timer_line_enabled m" "wake_edge_timer (timer_of m) = Some u" "timebase m (unat k) = unat u"
  shows "\<exists>m' j. wfi_loop g m k = (True, m') \<and> irq_or_fiq m' \<and> j \<le> unat u \<and> timer_of m' = (timer_edge ^^ j) (timer_of m)"
  using assms
proof (induction g m k arbitrary: u rule: wfi_loop.induct)
  case (1 g m k)
  note ok = "1.prems"(1) and en = "1.prems"(2) and edge = "1.prems"(3) and tbk = "1.prems"(4)
  have upos: "0 < unat u"
    using wake_edge_pos [OF edge] by (simp add: unat_gt_0)
  show ?case
  proof (cases "k > 0xffffffff")
    case True
    define m1 where "m1 = s5l8900_tick g m 0xffffffff"
    define t where "t = timebase m (unat (0xffffffff :: u32))"
    have k: "unat (0xffffffff :: u32) \<le> unat k" "unat k = unat (0xffffffff :: u32) + unat (k - 0xffffffff)"
      using True by (simp_all add: word_less_nat_alt unat_sub word_le_nat_alt)
    note tick = tick_timer [OF ok, where g = g and n = "0xffffffff", folded m1_def t_def]
    have split: "unat u = t + timebase m1 (unat (k - 0xffffffff))"
      using tick(4) [of "unat (k - 0xffffffff)"] tbk k(2) by simp
    have t32: "unat (of_nat t :: u32) = t"
      using split unsigned_less [where 'a = nat, of u] by (simp add: unat_of_nat)
    have tm: "timer_of m1 = (timer_edge ^^ t) (timer_of m)"
      using tick(1) by (simp add: timer_edges_tick t32)
    show ?thesis
    proof (cases "irq_or_fiq m1")
      case True
      then have "wfi_loop g m k = (True, m1)"
        using \<open>k > 0xffffffff\<close> by (simp add: wfi_loop.simps [of g m k] m1_def Let_def)
      then show ?thesis
        using True tm split by (intro exI [of _ m1] exI [of _ t]) simp
    next
      case False
      then have loop: "wfi_loop g m k = wfi_loop g m1 (k - 0xffffffff)"
        using \<open>k > 0xffffffff\<close> by (simp add: wfi_loop.simps [of g m k] m1_def Let_def)
      have "t < unat u"
      proof (rule ccontr)
        assume "\<not> t < unat u"
        then have t: "t = unat u" using split by simp
        then have "irqlatch (timer_of m1) \<noteq> 0"
          using tick(1) wake_edge_latch [OF edge] by simp
        then show False
          using tick(5) en False t upos by simp
      qed
      then have less: "of_nat t < u"
        by (simp add: word_less_nat_alt t32)
      have "wake_edge_timer (timer_of m1) = Some (u - of_nat t)"
        using wake_edge_step [OF edge less] tick(1) by simp
      moreover have "timebase m1 (unat (k - 0xffffffff)) = unat (u - of_nat t)"
        using split less by (simp add: unat_sub word_less_nat_alt t32 word_le_nat_alt)
      ultimately obtain m' j where ih: "wfi_loop g m1 (k - 0xffffffff) = (True, m')" "irq_or_fiq m'"
        "j \<le> unat (u - of_nat t)" "timer_of m' = (timer_edge ^^ j) (timer_of m1)"
        using "1.IH" [OF \<open>k > 0xffffffff\<close> m1_def False tick(3)] tick(2) en by blast
      have "t + j \<le> unat u"
        using ih(3) less by (simp add: unat_sub word_less_nat_alt t32 word_le_nat_alt)
      moreover have "timer_of m' = (timer_edge ^^ (t + j)) (timer_of m)"
        using ih(4) tm by (simp add: add.commute [of t j] funpow_add)
      ultimately show ?thesis
        using ih(1,2) loop by auto
    qed
  next
    case False
    have k0: "k \<noteq> 0"
    proof
      assume "k = 0"
      then have "timebase m (unat k) = 0"
        using ok by (simp add: timebase_def clock_ok_def)
      then show False using tbk upos by simp
    qed
    have k: "unat (ucast k :: u32) = unat k"
      using False by (simp add: unsigned_ucast_eq take_bit_nat_eq_self word_less_nat_alt)
    define m1 where "m1 = s5l8900_tick g m (ucast k)"
    note tick = tick_timer [OF ok, where g = g and n = "ucast k", folded m1_def, unfolded k tbk]
    have tm: "timer_of m1 = snd (s5l_timer_tick (timer_of m) u)"
      using tick(1) by simp
    have "irq_or_fiq m1"
      using tick(5) en upos wake_edge_latch [OF edge] tm by simp
    moreover have "wfi_loop g m k = (irq_or_fiq m1, m1)"
      using False k0 by (simp add: wfi_loop.simps [of g m k] m1_def Let_def)
    ultimately show ?thesis
      using tm by (auto simp: timer_edges_tick)
  qed
qed

definition not_before :: "u32 \<Rightarrow> wake \<Rightarrow> bool" where
  "not_before u w \<longleftrightarrow> (case w of WAKE_NEVER \<Rightarrow> True | WAKE_AT x \<Rightarrow> u \<le> x | WAKE_UNKNOWN \<Rightarrow> False)"

lemma next_wake_never: "\<forall>(line, e) \<in> set srcs. e = Some WAKE_NEVER \<Longrightarrow>
  next_wake enabled srcs best = (case best of None \<Rightarrow> WAKE_NEVER | Some b \<Rightarrow> WAKE_AT b)"
  by (induction enabled srcs best rule: next_wake.induct) auto

lemma next_wake_later:
  "u \<noteq> 0 \<Longrightarrow> not_before u w \<Longrightarrow> next_wake enabled ((line, Some w) # srcs) (Some u) = next_wake enabled srcs (Some u)"
  by (cases w) (auto simp: not_before_def not_less)

lemma next_wake_timer:
  assumes "wake_line_enabled (vic0 p) (vic1 p) 7" "wake_edge_timer (mtimer p) = Some u"
    "not_before u (wake_edge_clcd g (rest p))" "not_before u (wake_edge_tvout g (rest p))"
  shows "s5l8900_next_wake p (WAKE_SOURCES g p) = WAKE_AT u"
proof -
  have first: "next_wake (wake_line_enabled (vic0 p) (vic1 p)) ((7, Some (wake_timer (mtimer p))) # srcs) None
      = next_wake (wake_line_enabled (vic0 p) (vic1 p)) srcs (Some u)" for srcs
    using assms(1,2) wake_edge_pos [OF assms(2)] by (simp add: wake_timer_def)
  show ?thesis
    unfolding s5l8900_next_wake_def WAKE_SOURCES_def append.simps first
      next_wake_later [OF wake_edge_pos [OF assms(2)] assms(3)] next_wake_later [OF wake_edge_pos [OF assms(2)] assms(4)]
    by (subst next_wake_never) auto
qed

lemma wake_line_timer: "wake_line_enabled v0 v1 7 \<longleftrightarrow> bit (enable v0) 7"
  by (simp add: wake_line_enabled_def bit_iff_and_push_bit_not_eq_0)

text \<open>
  C26. A wait for interrupt ends, and does not oversleep. If the timer runs, its line is enabled and no
  display output has an earlier edge, then the wait returns with an interrupt line up, whatever the
  other devices do, after at most as many timebase ticks as the timer's next expiry is away: the
  conversion to CPU ticks, the carried remainder and the splitting of long waits lose nothing.
\<close>

theorem wfi_wakes_on_timer:
  assumes ok: "clock_ok m" and en: "timer_line_enabled m" and edge: "wake_edge_timer (timer_of m) = Some u"
    and clcd: "not_before u (wake_edge_clcd g (rest (parts (mdev (s5l8900_tick g m 0)))))"
    and tvout: "not_before u (wake_edge_tvout g (rest (parts (mdev (s5l8900_tick g m 0)))))"
  shows "\<exists>m' j. machine_wait_for_interrupt g m = (True, m') \<and> irq_or_fiq m' \<and> j \<le> unat u \<and>
    timer_of m' = (timer_edge ^^ j) (timer_of m)"
proof (cases "irq_or_fiq m")
  case True
  then show ?thesis
    by (intro exI [of _ m] exI [of _ 0]) (simp add: machine_wait_for_interrupt_def)
next
  case False
  define m1 where "m1 = s5l8900_tick g m 0"
  note tick = tick_timer [OF ok, where g = g and n = 0, folded m1_def]
  have zero: "timebase m 0 = 0"
    using ok by (simp add: timebase_def clock_ok_def)
  have tm: "timer_of m1 = timer_of m"
    using tick(1) by (simp add: zero)
  show ?thesis
  proof (cases "irq_or_fiq m1")
    case True
    then show ?thesis
      using False tm by (intro exI [of _ m1] exI [of _ 0]) (simp add: machine_wait_for_interrupt_def m1_def Let_def)
  next
    case False
    have wake: "s5l8900_next_wake (parts (mdev m1)) (WAKE_SOURCES g (parts (mdev m1))) = WAKE_AT u"
      using en edge clcd tvout tick(2) tm by (intro next_wake_timer) (simp_all add: m1_def wake_line_timer)
    obtain k where k: "wfi_cpu_ticks m1 u = Some k" "timebase m1 (unat k) = unat u"
      using wfi_ticks_exact [OF tick(3) wake_edge_pos [OF edge]] by blast
    have "machine_wait_for_interrupt g m = wfi_loop g m1 k"
      using False \<open>\<not> irq_or_fiq m\<close> wake k(1) by (simp add: machine_wait_for_interrupt_def m1_def Let_def)
    then show ?thesis
      using wfi_loop_wakes [OF tick(3) _ _ k(2), where g = g] en edge tick(2) tm by auto
  qed
qed

definition idle_devices :: "unit other_devices" where
  "idle_devices = \<lparr>tick_eager = False, ext_inputs = (\<lambda>_. 0), advance = (\<lambda>n d. (d, (\<lambda>_. False), False)),
     wake_edge_clcd = (\<lambda>_. WAKE_NEVER), wake_edge_tvout = (\<lambda>_. WAKE_AT 9000)\<rparr>"

definition idle_machine :: "unit s5l8900" where
  "idle_machine = \<lparr>cpu_hz = 412000000, tb_hz = 6000000, tb_accum = 5000000, mcpu = cpu_zero,
     mdev = \<lparr>level_dirty = False, ext_seen = 0,
       parts = \<lparr>mtimer = s5l_timer_reset\<lparr>t4_state := 1, t4_value := 800, t4_count := 1000\<rparr>,
               vic0 = s5l_vic_reset\<lparr>enable := 0x80, select := 0x80\<rparr>, vic1 = s5l_vic_reset, rest = ()\<rparr>\<rparr>\<rparr>"

theorem wfi_wakes_on_timer_witness:
  "\<exists>m' j. machine_wait_for_interrupt idle_devices idle_machine = (True, m') \<and> irq_or_fiq m' \<and> j \<le> 800 \<and>
     timer_of m' = (timer_edge ^^ j) (timer_of idle_machine)"
proof -
  have "\<exists>m' j. machine_wait_for_interrupt idle_devices idle_machine = (True, m') \<and> irq_or_fiq m' \<and> j \<le> unat (800 :: u32) \<and>
     timer_of m' = (timer_edge ^^ j) (timer_of idle_machine)"
  proof (rule wfi_wakes_on_timer)
    show "clock_ok idle_machine"
      by (simp add: clock_ok_def idle_machine_def)
    show "timer_line_enabled idle_machine"
      by (simp add: idle_machine_def bit_masks)
    show "wake_edge_timer (timer_of idle_machine) = Some 800"
      by (simp add: idle_machine_def wake_edge_timer_def TIMER4_STATE_START_def)
  qed (simp_all add: idle_devices_def not_before_def)
  then show ?thesis by simp
qed

end
