(* ===== verification/MachineRun.thy ===== *)
theory MachineRun
  imports MachineClock ArmUser
begin

text \<open>
  The run loop of \<open>soc/machine.c\<close>. In User mode it batches instructions and gives the devices one tick
  for the whole batch; the reference is the loop that ticks after every instruction. An instruction
  that starts in User mode is \<open>arm_step\<close> over the devices; in the other modes a step may reach the wait
  and host-call hooks, which act on the whole machine, so there the step is an argument.
\<close>

unbundle bit_operations_syntax

subsection \<open>Pre-step hook\<close>

record 'd pre_step =
  pre_step_target :: "u32 list"
  pre_step_filter :: u64
  pre_step_hook :: "'d s5l8900 \<Rightarrow> bool \<times> 'd s5l8900"

definition pre_step_filter_bit :: "u32 \<Rightarrow> nat" where
  "pre_step_filter_bit pc =
     (let word = drop_bit 1 pc in unat ((word XOR drop_bit 10 word XOR drop_bit 20 word) AND 63))"

definition pre_step_target_matches :: "'d pre_step option \<Rightarrow> u32 \<Rightarrow> bool" where
  "pre_step_target_matches hk pc =
     (case hk of
        None \<Rightarrow> False
      | Some h \<Rightarrow>
          if pre_step_target h = [] then False
          else
            let pc = pc AND NOT 1
            in if pre_step_filter h AND push_bit (pre_step_filter_bit pc) 1 = 0 then False
               else list_ex (\<lambda>t. t = pc) (pre_step_target h))"

abbreviation "S5L_PRE_STEP_TARGET_MAX \<equiv> 16 :: nat"

text \<open>Installing a hook: \<open>None\<close> when the request is refused and the policy stays as it was.\<close>

definition s5l8900_set_pre_step_hook ::
  "('d s5l8900 \<Rightarrow> bool \<times> 'd s5l8900) option \<Rightarrow> u32 list \<Rightarrow> 'd pre_step option option" where
  "s5l8900_set_pre_step_hook fn targets =
     (case fn of
        None \<Rightarrow> if targets \<noteq> [] then None else Some None
      | Some f \<Rightarrow>
          if targets = [] \<or> length targets > S5L_PRE_STEP_TARGET_MAX then None
          else if list_ex (\<lambda>t. t AND 1 \<noteq> 0) targets then None
          else if \<not> distinct targets then None
          else Some (Some \<lparr>pre_step_target = targets,
                 pre_step_filter = fold (\<lambda>t w. w OR push_bit (pre_step_filter_bit t) 1) targets 0,
                 pre_step_hook = f\<rparr>))"

text \<open>The 64-bit filter is only a shortcut: an installed table matches exactly its targets.\<close>

lemma pre_step_filter_bit_less: "pre_step_filter_bit pc < 64"
  unfolding pre_step_filter_bit_def Let_def by (rule le_less_trans [OF unat_and_le_right]) simp

lemma bit_filter_fold:
  "bit (fold (\<lambda>t w. w OR push_bit (pre_step_filter_bit t) 1) ts (w :: u64)) i \<longleftrightarrow>
     bit w i \<or> (\<exists>t \<in> set ts. pre_step_filter_bit t = i)"
  using pre_step_filter_bit_less by (induction ts arbitrary: w) (auto simp: bit_or_iff bit_exp_iff)

lemma pre_step_matches_targets:
  assumes "s5l8900_set_pre_step_hook (Some f) targets = Some hk"
  shows "pre_step_target_matches hk pc \<longleftrightarrow> pc AND NOT 1 \<in> set targets"
proof -
  define w where "w = fold (\<lambda>t w. w OR push_bit (pre_step_filter_bit t) 1) targets (0 :: u64)"
  have hk: "hk = Some \<lparr>pre_step_target = targets, pre_step_filter = w, pre_step_hook = f\<rparr>" "targets \<noteq> []"
    using assms by (auto simp: s5l8900_set_pre_step_hook_def w_def split: if_split_asm)
  have "w AND push_bit (pre_step_filter_bit t) 1 \<noteq> 0" if "t \<in> set targets" for t
  proof -
    have "bit w (pre_step_filter_bit t)"
      unfolding w_def bit_filter_fold using that by blast
    then show ?thesis by (rule bit_iff_and_push_bit_not_eq_0 [THEN iffD1])
  qed
  then show ?thesis
    by (auto simp: pre_step_target_matches_def hk Let_def list_ex_iff)
qed

subsection \<open>Batching\<close>

definition retirement_batch_limit :: "'d other_devices \<Rightarrow> 'd s5l8900 \<Rightarrow> nat \<Rightarrow> nat" where
  "retirement_batch_limit g m remaining =
     (if remaining = 0 \<or> tick_eager g \<or> \<not> levels_seen g (mdev m) \<or> cpu_hz m = 0 \<or> tb_hz m = 0 \<or>
         tb_hz m > cpu_hz m \<or> tb_accum m \<ge> ucast (cpu_hz m) then 0
      else
        let until_edge = (ucast (cpu_hz m) - tb_accum m + ucast (tb_hz m) - 1) div ucast (tb_hz m)
        in if unat until_edge < remaining then unat until_edge else remaining)"

definition interpreter_tick_batch_limit :: "'d other_devices \<Rightarrow> 'd pre_step option \<Rightarrow> 'd s5l8900 \<Rightarrow> nat \<Rightarrow> nat" where
  "interpreter_tick_batch_limit g hk m remaining =
     (if \<not> in_user (mcpu m) \<or> hk \<noteq> None then 0 else retirement_batch_limit g m remaining)"

definition user_step ::
  "('d devices \<Rightarrow> arm_cpu \<Rightarrow> arm_status \<times> arm_cpu \<times> 'd devices) \<Rightarrow> 'd s5l8900 \<Rightarrow> arm_status \<times> 'd s5l8900" where
  "user_step step m = (case step (mdev m) (mcpu m) of (st, c, d) \<Rightarrow> (st, m\<lparr>mcpu := c, mdev := d\<rparr>))"

text \<open>The inner loop, with room for \<open>k\<close> more instructions and \<open>r\<close> retired.\<close>

fun user_batch ::
  "'d other_devices \<Rightarrow> ('d devices \<Rightarrow> arm_cpu \<Rightarrow> arm_status \<times> arm_cpu \<times> 'd devices) \<Rightarrow>
   nat \<Rightarrow> nat \<Rightarrow> 'd s5l8900 \<Rightarrow> arm_status \<times> nat \<times> 'd s5l8900" where
  "user_batch g step 0 r m = (ARM_OK, r, m)"
| "user_batch g step (Suc k) r m =
     (case user_step step m of (st, m) \<Rightarrow>
        if st \<noteq> ARM_OK then (st, r, m)
        else if \<not> levels_seen g (mdev m) \<or> \<not> in_user (mcpu m) then (ARM_OK, r + 1, m)
        else user_batch g step k (r + 1) m)"

definition machine_step ::
  "('d devices \<Rightarrow> arm_cpu \<Rightarrow> arm_status \<times> arm_cpu \<times> 'd devices) \<Rightarrow> ('d s5l8900 \<Rightarrow> arm_status \<times> 'd s5l8900) \<Rightarrow>
   'd s5l8900 \<Rightarrow> arm_status \<times> 'd s5l8900" where
  "machine_step step kernel_step m = (if in_user (mcpu m) then user_step step m else kernel_step m)"

text \<open>
  The loop may run for ever, when a hook claims every step, so it is a partial function. It returns
  the instructions retired, the last status and the machine.
\<close>

partial_function (option) s5l8900_run ::
  "'d other_devices \<Rightarrow> 'd pre_step option \<Rightarrow> ('d devices \<Rightarrow> arm_cpu \<Rightarrow> arm_status \<times> arm_cpu \<times> 'd devices) \<Rightarrow>
   ('d s5l8900 \<Rightarrow> arm_status \<times> 'd s5l8900) \<Rightarrow> nat \<Rightarrow> nat \<Rightarrow> 'd s5l8900 \<Rightarrow> (nat \<times> arm_status \<times> 'd s5l8900) option" where
  "s5l8900_run g hk step kernel_step max_steps n m =
     (if n < max_steps then
        let hooked = (if pre_step_target_matches hk (regs (mcpu m) 15) then pre_step_hook (the hk) m else (False, m));
            m = snd hooked
        in if fst hooked then s5l8900_run g hk step kernel_step max_steps n (s5l8900_tick g m 1)
           else
             let limit = interpreter_tick_batch_limit g hk m (max_steps - n)
             in if limit > 1 then
                  let batch = user_batch g step limit 0 m;
                      st = fst batch; retired = fst (snd batch); m = snd (snd batch);
                      m = (if retired \<noteq> 0 then s5l8900_tick g m (of_nat retired) else m)
                  in if st \<noteq> ARM_OK then Some (n + retired, st, m)
                     else s5l8900_run g hk step kernel_step max_steps (n + retired) m
                else
                  let stepped = machine_step step kernel_step m
                  in if fst stepped \<noteq> ARM_OK then Some (n, fst stepped, snd stepped)
                     else s5l8900_run g hk step kernel_step max_steps (n + 1) (s5l8900_tick g (snd stepped) 1)
      else Some (n, ARM_OK, m))"

subsection \<open>The literal loop\<close>

fun literal_run ::
  "'d other_devices \<Rightarrow> ('d s5l8900 \<Rightarrow> arm_status \<times> 'd s5l8900) \<Rightarrow> nat \<Rightarrow> 'd s5l8900 \<Rightarrow> nat \<times> arm_status \<times> 'd s5l8900" where
  "literal_run g step 0 m = (0, ARM_OK, m)"
| "literal_run g step (Suc k) m =
     (case step m of (st, m) \<Rightarrow>
        if st \<noteq> ARM_OK then (0, st, m)
        else case literal_run g step k (s5l8900_tick g m 1) of (n, st, m) \<Rightarrow> (Suc n, st, m))"

subsection \<open>A batch is the literal loop\<close>

lemma retirement_limit:
  assumes "0 < retirement_batch_limit g m remaining"
  shows "clock_ok m \<and> \<not> tick_eager g \<and> levels_seen g (mdev m) \<and> retirement_batch_limit g m remaining \<le> remaining \<and>
    retirement_batch_limit g m remaining < 2 ^ 32 \<and>
    (\<forall>i < retirement_batch_limit g m remaining. unat (tb_accum m) + i * unat (tb_hz m) < unat (cpu_hz m))"
proof -
  let ?c = "unat (cpu_hz m)" and ?h = "unat (tb_hz m)" and ?a = "unat (tb_accum m)"
  have g: "\<not> tick_eager g" "levels_seen g (mdev m)" "cpu_hz m \<noteq> 0" "tb_hz m \<noteq> 0" "?h \<le> ?c" "?a < ?c"
    using assms by (auto simp: retirement_batch_limit_def word_le_nat_alt word_less_nat_alt unat_ucast_u64 split: if_split_asm)
  then have ok: "clock_ok m" and h: "0 < ?h"
    by (simp_all add: clock_ok_def unat_gt_0)
  have c32: "?c < 2 ^ 32"
    using unsigned_less [where 'a = nat, of "cpu_hz m"] by simp
  let ?until = "(ucast (cpu_hz m) - tb_accum m + ucast (tb_hz m) - 1) div ucast (tb_hz m) :: u64"
  have d: "unat (ucast (cpu_hz m) - tb_accum m) = ?c - ?a"
    using g(6) by (subst unat_sub) (simp_all add: unat_ucast_u64 word_le_nat_alt)
  have e: "unat (ucast (cpu_hz m) - tb_accum m + ucast (tb_hz m)) = ?c - ?a + ?h"
    using c32 g(5) by (simp add: unat_word_ariths(1) d unat_ucast_u64)
  have "1 \<le> ucast (cpu_hz m) - tb_accum m + ucast (tb_hz m)"
    using h by (simp add: word_le_nat_alt e)
  then have u: "unat ?until = (?c - ?a + ?h - 1) div ?h"
    by (simp add: unat_div unat_ucast_u64 unat_sub e)
  have L: "retirement_batch_limit g m remaining \<le> unat ?until" "retirement_batch_limit g m remaining \<le> remaining"
    using assms by (auto simp: retirement_batch_limit_def Let_def)
  have fits: "?a + i * ?h < ?c" if i: "i < retirement_batch_limit g m remaining" for i
  proof -
    have "Suc i \<le> (?c - ?a + ?h - 1) div ?h"
      using i L(1) by (simp only: u)
    then have "Suc i * ?h \<le> ?c - ?a + ?h - 1"
      using h by (simp add: less_eq_div_iff_mult_less_eq)
    then show ?thesis
      using g(6) h by simp
  qed
  have "unat ?until \<le> ?c"
  proof -
    have "?c - ?a + ?h - 1 < Suc ?c * ?h"
      using h g(6) mult_le_mono2 [of 1 ?h ?c] unfolding mult_Suc by linarith
    then show ?thesis
      unfolding u using h by (simp add: div_less_iff_less_mult less_Suc_eq_le [symmetric])
  qed
  then show ?thesis
    using ok g L fits c32 by auto
qed

definition accrued :: "nat \<Rightarrow> 'd s5l8900 \<Rightarrow> 'd s5l8900" where
  "accrued r m = m\<lparr>tb_accum := tb_accum m + of_nat r * ucast (tb_hz m)\<rparr>"

lemma accrued_simps [simp]:
  "mcpu (accrued r m) = mcpu m" "mdev (accrued r m) = mdev m" "cpu_hz (accrued r m) = cpu_hz m"
  "tb_hz (accrued r m) = tb_hz m" "accrued 0 m = m"
  by (simp_all add: accrued_def)

lemma tick_accrued:
  assumes "cpu_hz m \<noteq> 0" "tb_hz m \<noteq> 0" "Suc r < 2 ^ 32"
  shows "s5l8900_tick g (accrued r m) 1 = s5l8900_tick g m (of_nat (Suc r))"
proof -
  have acc: "tb_accum m + of_nat r * ucast (tb_hz m) + ucast (1 :: u32) * ucast (tb_hz m)
      = tb_accum m + ucast (of_nat (Suc r) :: u32) * ucast (tb_hz m)"
    by (simp add: ucast_of_nat_u32 [OF assms(3)] distrib_right del: of_nat_Suc) (simp add: distrib_right)
  have "(of_nat (Suc r) :: u32) \<noteq> 0"
    using assms(3) by (simp add: word_unat_eq_iff unat_of_nat del: of_nat_Suc)
  then show ?thesis
    using assms(1,2) by (simp add: s5l8900_tick_def acc [symmetric] Let_def accrued_def del: of_nat_Suc)
qed

lemma tick_early:
  assumes "clock_ok m" "levels_seen g (mdev m)" "\<not> tick_eager g" "n \<noteq> 0"
    "unat (tb_accum m) + unat n * unat (tb_hz m) < unat (cpu_hz m)"
  shows "s5l8900_tick g m n = accrued (unat n) m"
proof -
  have "cpu_hz m \<noteq> 0" "tb_hz m \<noteq> 0" "unat (tb_accum m) < unat (cpu_hz m)"
    using assms(1) by (auto simp: clock_ok_def)
  moreover have "ucast n = (of_nat (unat n) :: u64)"
    by (simp add: unat_ucast_u64 word_unat_eq_iff)
  ultimately show ?thesis
    using assms by (simp add: s5l8900_tick_def Let_def accrued_def word_less_nat_alt unat_ucast_u64 unat_acc)
qed

lemma user_step_accrued:
  "user_step step m = (st, m') \<Longrightarrow> user_step step (accrued r m) = (st, accrued r m')"
  by (auto simp: user_step_def accrued_def split: prod.splits)

lemma user_step_clock:
  "user_step step m = (st, m') \<Longrightarrow> cpu_hz m' = cpu_hz m \<and> tb_hz m' = tb_hz m \<and> tb_accum m' = tb_accum m"
  by (auto simp: user_step_def split: prod.splits)

definition add_retired :: "nat \<Rightarrow> nat \<times> arm_status \<times> 'd s5l8900 \<Rightarrow> nat \<times> arm_status \<times> 'd s5l8900" where
  "add_retired k x = (fst x + k, snd x)"

lemma add_retired_simps [simp]: "add_retired k (n, s, m) = (n + k, s, m)" "add_retired k (add_retired l x) = add_retired (l + k) x"
  by (simp_all add: add_retired_def)

lemma literal_run_Suc:
  "step m = (ARM_OK, m') \<Longrightarrow> literal_run g step (Suc k) m = add_retired 1 (literal_run g step k (s5l8900_tick g m' 1))"
  by (cases "literal_run g step k (s5l8900_tick g m' 1)") auto

lemma user_batch_literal:
  assumes "clock_ok m" "\<not> tick_eager g" "in_user (mcpu m)" "r + Suc k < 2 ^ 32"
    "\<forall>i < r + Suc k. unat (tb_accum m) + i * unat (tb_hz m) < unat (cpu_hz m)"
    "user_batch g step (Suc k) r m = (st, r', m')"
  shows "r \<le> r' \<and> cpu_hz m' = cpu_hz m \<and> tb_hz m' = tb_hz m \<and> tb_accum m' = tb_accum m \<and>
    (if st = ARM_OK
     then r < r' \<and> r' \<le> r + Suc k \<and>
       (\<forall>j. literal_run g (machine_step step kstep) ((r' - r) + j) (accrued r m) =
          add_retired (r' - r) (literal_run g (machine_step step kstep) j (s5l8900_tick g m' (of_nat r'))))
     else r' < r + Suc k \<and>
       (\<forall>j. literal_run g (machine_step step kstep) (Suc (r' - r) + j) (accrued r m) = (r' - r, st, accrued r' m')))"
  using assms
proof (induction k arbitrary: r m)
  case (0 r m)
  obtain st1 m1 where s: "user_step step m = (st1, m1)" by fastforce
  have ms: "machine_step step kstep (accrued r m) = (st1, accrued r m1)"
    using 0 user_step_accrued [OF s] by (simp add: machine_step_def)
  have hz: "cpu_hz m1 \<noteq> 0" "tb_hz m1 \<noteq> 0"
    using 0(1) user_step_clock [OF s] by (auto simp: clock_ok_def)
  have "st1 \<noteq> ARM_OK \<and> st = st1 \<and> r' = r \<and> m' = m1 \<or> st1 = ARM_OK \<and> st = ARM_OK \<and> r' = Suc r \<and> m' = m1"
    using 0(6) s by (auto split: if_split_asm)
  then show ?case
    using user_step_clock [OF s] ms literal_run_Suc [where step = "machine_step step kstep" and m = "accrued r m" and m' = "accrued r m1" and g = g]
      tick_accrued [OF hz, of r g] 0(4)
    by auto
next
  case (Suc k r m)
  obtain st1 m1 where s: "user_step step m = (st1, m1)" by fastforce
  have ms: "machine_step step kstep (accrued r m) = (st1, accrued r m1)"
    using Suc.prems user_step_accrued [OF s] by (simp add: machine_step_def)
  note clock = user_step_clock [OF s]
  have ok: "clock_ok m1"
    using Suc.prems(1) clock by (simp add: clock_ok_def)
  then have hz: "cpu_hz m1 \<noteq> 0" "tb_hz m1 \<noteq> 0"
    by (auto simp: clock_ok_def)
  have tick: "s5l8900_tick g (accrued r m1) 1 = s5l8900_tick g m1 (of_nat (Suc r))"
    using tick_accrued [OF hz, of r g] Suc.prems(4) by simp
  consider (bad) "st1 \<noteq> ARM_OK" | (event) "st1 = ARM_OK" "\<not> levels_seen g (mdev m1) \<or> \<not> in_user (mcpu m1)"
    | (go) "st1 = ARM_OK" "levels_seen g (mdev m1)" "in_user (mcpu m1)" by blast
  then show ?case
  proof cases
    case bad
    then have "st = st1" "r' = r" "m' = m1"
      using Suc.prems(6) s by auto
    then show ?thesis using bad clock ms by simp
  next
    case event
    then have "st = ARM_OK" "r' = Suc r" "m' = m1"
      using Suc.prems(6) s by auto
    then show ?thesis
      using clock tick ms event(1) literal_run_Suc [where step = "machine_step step kstep" and m = "accrued r m" and m' = "accrued r m1" and g = g]
      by simp
  next
    case go
    have rec: "user_batch g step (Suc k) (Suc r) m1 = (st, r', m')"
      using Suc.prems(6) s go by simp
    have fit: "unat (tb_accum m1) + Suc r * unat (tb_hz m1) < unat (cpu_hz m1)"
      using Suc.prems(5) [rule_format, of "Suc r"] clock by simp
    have sr: "unat (of_nat (Suc r) :: u32) = Suc r" "of_nat (Suc r) \<noteq> (0 :: u32)"
      using Suc.prems(4) by (simp_all add: unat_of_nat word_unat_eq_iff del: of_nat_Suc)
    have early: "s5l8900_tick g (accrued r m1) 1 = accrued (Suc r) m1"
      unfolding tick using tick_early [OF ok go(2) Suc.prems(2) sr(2)] fit sr(1) by simp
    have ih: "Suc r \<le> r' \<and> cpu_hz m' = cpu_hz m1 \<and> tb_hz m' = tb_hz m1 \<and> tb_accum m' = tb_accum m1 \<and>
      (if st = ARM_OK
       then Suc r < r' \<and> r' \<le> Suc r + Suc k \<and>
         (\<forall>j. literal_run g (machine_step step kstep) ((r' - Suc r) + j) (accrued (Suc r) m1) =
            add_retired (r' - Suc r) (literal_run g (machine_step step kstep) j (s5l8900_tick g m' (of_nat r'))))
       else r' < Suc r + Suc k \<and>
         (\<forall>j. literal_run g (machine_step step kstep) (Suc (r' - Suc r) + j) (accrued (Suc r) m1) = (r' - Suc r, st, accrued r' m')))"
      using Suc.prems clock by (intro Suc.IH [OF ok Suc.prems(2) go(3) _ _ rec]) auto
    have first: "literal_run g (machine_step step kstep) (Suc j) (accrued r m) =
        add_retired 1 (literal_run g (machine_step step kstep) j (accrued (Suc r) m1))" for j
      using literal_run_Suc [where step = "machine_step step kstep" and m = "accrued r m" and m' = "accrued r m1" and g = g and k = j] ms go(1) early by simp
    have "Suc r \<le> r'" using ih by (rule conjunct1)
    then have d: "r' - r = Suc (r' - Suc r)" by simp
    show ?thesis
      using ih clock first unfolding d by (auto simp del: literal_run.simps split: if_split_asm)
  qed
qed

subsection \<open>The run loop is the literal loop\<close>

text \<open>
  What the caller of the literal loop would see: the same machine, except that after a failed last
  instruction a zero-tick refresh may have been added.
\<close>

definition same_run :: "'d other_devices \<Rightarrow> nat \<times> arm_status \<times> 'd s5l8900 \<Rightarrow> nat \<times> arm_status \<times> 'd s5l8900 \<Rightarrow> bool" where
  "same_run g x y \<longleftrightarrow> fst x = fst y \<and> fst (snd x) = fst (snd y) \<and>
     (snd (snd x) = snd (snd y) \<or> fst (snd x) \<noteq> ARM_OK \<and> snd (snd x) = s5l8900_tick g (snd (snd y)) 0)"

lemma same_run_add: "same_run g (n + k, s, m) (add_retired k (a, t, x)) \<longleftrightarrow> same_run g (n, s, m) (a, t, x)"
  by (auto simp: same_run_def)

lemma failed_tick:
  assumes "clock_ok m" "\<not> tick_eager g" "r \<noteq> 0" "r < 2 ^ 32"
    "unat (tb_accum m) + r * unat (tb_hz m) < unat (cpu_hz m)"
  shows "s5l8900_tick g m (of_nat r) = accrued r m \<or> s5l8900_tick g m (of_nat r) = s5l8900_tick g (accrued r m) 0"
proof (cases "levels_seen g (mdev m)")
  case True
  have "unat (of_nat r :: u32) = r" using assms(4) by (simp add: unat_of_nat)
  then show ?thesis
    using tick_early [OF assms(1) True assms(2), of "of_nat r"] assms(3,5) by (auto simp: word_unat_eq_iff)
next
  case False
  have "cpu_hz m \<noteq> 0" "tb_hz m \<noteq> 0"
    using assms(1) by (auto simp: clock_ok_def)
  then show ?thesis
    using False by (simp add: s5l8900_tick_def Let_def accrued_def ucast_of_nat_u32 [OF assms(4)])
qed

lemma run_literal:
  "n \<le> max_steps \<Longrightarrow> \<exists>x. s5l8900_run g None step kstep max_steps n m = Some x \<and>
     same_run g x (add_retired n (literal_run g (machine_step step kstep) (max_steps - n) m))"
proof (induction "max_steps - n" arbitrary: n m rule: less_induct)
  case less
  note run = s5l8900_run.simps [of g None step kstep max_steps n m]
  let ?lit = "literal_run g (machine_step step kstep)"
  show ?case
  proof (cases "n < max_steps")
    case False
    then have "n = max_steps" using less.prems by simp
    then show ?thesis
      by (subst run) (simp add: same_run_def)
  next
    case True
    define L where "L = interpreter_tick_batch_limit g None m (max_steps - n)"
    show ?thesis
    proof (cases "L > 1")
      case False
      obtain st m1 where s: "machine_step step kstep m = (st, m1)" by fastforce
      obtain d where d: "max_steps - n = Suc d" "d = max_steps - (n + 1)"
        using True by (cases "max_steps - n") auto
      have step_run: "s5l8900_run g None step kstep max_steps n m =
          (if st \<noteq> ARM_OK then Some (n, st, m1) else s5l8900_run g None step kstep max_steps (n + 1) (s5l8900_tick g m1 1))"
        using True False by (subst run) (simp add: pre_step_target_matches_def L_def [symmetric] s Let_def)
      show ?thesis
      proof (cases "st = ARM_OK")
        case False
        then show ?thesis
          by (simp add: step_run d(1) s same_run_def)
      next
        case True
        obtain x where x: "s5l8900_run g None step kstep max_steps (n + 1) (s5l8900_tick g m1 1) = Some x"
          "same_run g x (add_retired (n + 1) (?lit d (s5l8900_tick g m1 1)))"
          using less.hyps [of "n + 1"] \<open>n < max_steps\<close> d(2) by fastforce
        have "?lit (Suc d) m = add_retired 1 (?lit d (s5l8900_tick g m1 1))"
          using s True by (intro literal_run_Suc) simp
        then show ?thesis
          using x True by (simp add: step_run d(1) add.commute)
      qed
    next
      case True
      note lim = retirement_limit [of g m "max_steps - n"]
      have user: "in_user (mcpu m)" and Leq: "L = retirement_batch_limit g m (max_steps - n)"
        using True by (auto simp: L_def interpreter_tick_batch_limit_def split: if_split_asm)
      have lim: "clock_ok m" "\<not> tick_eager g" "L \<le> max_steps - n" "L < 2 ^ 32"
        "\<forall>i < L. unat (tb_accum m) + i * unat (tb_hz m) < unat (cpu_hz m)"
        using retirement_limit [of g m "max_steps - n"] True unfolding Leq by auto
      obtain k where k: "L = Suc k" using True by (cases L) auto
      obtain st r m1 where b: "user_batch g step L 0 m = (st, r, m1)"
        by (metis prod_cases3)
      have clock: "cpu_hz m1 = cpu_hz m" "tb_hz m1 = tb_hz m" "tb_accum m1 = tb_accum m" and
        good: "st = ARM_OK \<Longrightarrow> 0 < r \<and> r \<le> L \<and> (\<forall>j. ?lit (r + j) m = add_retired r (?lit j (s5l8900_tick g m1 (of_nat r))))" and
        bad: "st \<noteq> ARM_OK \<Longrightarrow> r < L \<and> (\<forall>j. ?lit (Suc r + j) m = (r, st, accrued r m1))"
        using user_batch_literal [OF lim(1,2) user _ _ b [unfolded k], of kstep] lim(4,5) k by (auto split: if_split_asm)
      have ok1: "clock_ok m1" using lim(1) clock by (simp add: clock_ok_def)
      define m2 where "m2 = (if r \<noteq> 0 then s5l8900_tick g m1 (of_nat r) else m1)"
      have step_run: "s5l8900_run g None step kstep max_steps n m =
          (if st \<noteq> ARM_OK then Some (n + r, st, m2) else s5l8900_run g None step kstep max_steps (n + r) m2)"
        using True \<open>n < max_steps\<close> by (subst run) (simp add: pre_step_target_matches_def L_def [symmetric] b m2_def Let_def)
      show ?thesis
      proof (cases "st = ARM_OK")
        case True
        then have g: "0 < r" "n + r \<le> max_steps" "?lit (r + j) m = add_retired r (?lit j m2)" for j
          using good lim(3) \<open>n < max_steps\<close> by (auto simp: m2_def)
        obtain x where x: "s5l8900_run g None step kstep max_steps (n + r) m2 = Some x"
          "same_run g x (add_retired (n + r) (?lit (max_steps - (n + r)) m2))"
          using less.hyps [of "n + r"] g(1,2) by fastforce
        have "max_steps - n = r + (max_steps - (n + r))" using g(2) by simp
        then show ?thesis
          using x True g(3) [of "max_steps - (n + r)"] by (simp add: step_run add.commute)
      next
        case False
        then have r: "r < L" "?lit (Suc r + j) m = (r, st, accrued r m1)" for j
          using bad by auto
        have "m2 = accrued r m1 \<or> m2 = s5l8900_tick g (accrued r m1) 0"
          using failed_tick [OF ok1 lim(2), of r] r(1) lim(4,5) clock by (auto simp: m2_def)
        moreover have "?lit (max_steps - n) m = (r, st, accrued r m1)"
        proof -
          have "Suc r + (max_steps - n - Suc r) = max_steps - n"
            using r(1) lim(3) by simp
          then show ?thesis
            using r(2) [of "max_steps - n - Suc r"] by (simp only:)
        qed
        ultimately show ?thesis
          using False by (auto simp: step_run same_run_def)
      qed
    qed
  qed
qed

text \<open>
  C27. With no hook installed the run loop returns, and batching is invisible: for every program, every
  device graph and every budget it retires the same number of instructions, ends with the same
  status and leaves the same machine (processor, memory, devices, carried clock remainder) as the
  loop that ticks the devices after each instruction. The one difference: when the last instruction
  of a batch fails, the devices may have been refreshed once at zero elapsed time.
\<close>

theorem batched_run_is_literal:
  "\<exists>n st m'. s5l8900_run g None (arm_step vfp bus) kernel_step max_steps 0 m = Some (n, st, m') \<and>
     same_run g (n, st, m') (literal_run g (machine_step (arm_step vfp bus) kernel_step) max_steps m)"
proof -
  obtain x where "s5l8900_run g None (arm_step vfp bus) kernel_step max_steps 0 m = Some x"
    "same_run g x (add_retired 0 (literal_run g (machine_step (arm_step vfp bus) kernel_step) max_steps m))"
    using run_literal [of 0 max_steps g "arm_step vfp bus" kernel_step m] by auto
  then show ?thesis
    by (cases x) (auto simp: add_retired_def)
qed

end
