(* ===== verification/Ppp.thy ===== *)
theory Ppp
  imports Fifo
begin

text \<open>
  The host's end of the guest's serial link, first half: HDLC-async framing and the transmit ring of
  core/src/net/ppp.c, with the data types of core/include/ppp.h.

  The receive buffer is the list of the octets assembled so far, which the guard of
  \<open>ppp_input_byte\<close> keeps within the C array. The transmit ring is the C array, indexed by the two
  free-running 32-bit counters. The IP sink is a callback of the caller: the model keeps whether one
  is installed and the datagrams it was handed, in order.
\<close>

subsection \<open>Data\<close>

datatype ppp_state = S_INITIAL | S_STARTING | S_CLOSED | S_STOPPED | S_CLOSING | S_STOPPING
  | S_REQSENT | S_ACKRCVD | S_ACKSENT | S_OPENED

datatype ppp_phase_t = PHASE_DEAD | PHASE_ESTABLISH | PHASE_NETWORK | PHASE_OPEN | PHASE_TERMINATE

record ppp_config =
  local_ip :: u32
  remote_ip :: u32
  dns1 :: u32
  dns2 :: u32
  cfg_magic :: u32

record ppp_stats =
  rx_bytes :: u64
  tx_bytes :: u64
  frames_in :: u64
  frames_out :: u64
  fcs_errors :: u64
  short_frames :: u64
  long_frames :: u64
  aborts :: u64
  unknown_protos :: u64
  unknown_codes :: u64
  ip_frames_in :: u64
  ip_frames_dropped :: u64
  ip_frames_out :: u64
  ip_bytes_in :: u64
  ip_bytes_out :: u64
  tx_overflows :: u64
  echo_replies :: u64
  ipcp_dns_requests :: u64
  ipcp_dns_acked :: u64
  ipcp_dns_naked :: u64

record ppp_fsm =
  fsm_state :: ppp_state
  next_id :: u8
  last_req_id :: u8
  restarts :: u8
  failures :: u8
  req_opts :: u8
  restart_at_ms :: u32
  timer_running :: bool

record ppp_peer =
  cfg :: ppp_config
  stats :: ppp_stats
  ip_sink :: bool
  sunk :: "u8 list list"
  lcp :: ppp_fsm
  ipcp :: ppp_fsm
  opened :: bool
  now_ms :: u32
  our_magic :: u32
  peer_magic :: u32
  peer_magic_valid :: bool
  peer_asyncmap :: u32
  peer_mru :: u16
  peer_pcomp :: bool
  peer_accomp :: bool
  assigned_ip :: u32
  assigned :: bool
  tx_accm :: u32
  rxbuf :: "u8 list"
  in_frame :: bool
  escaped :: bool
  overlong :: bool
  txbuf :: "nat \<Rightarrow> u8"
  tx_head :: u32
  tx_tail :: u32

abbreviation ppp_mru_default :: nat where "ppp_mru_default \<equiv> 1500"
abbreviation ppp_max_frame :: nat where "ppp_max_frame \<equiv> 1506"
abbreviation ppp_tx_ring :: nat where "ppp_tx_ring \<equiv> 12056"

subsection \<open>FCS-16\<close>

definition fcs_bit :: "u16 \<Rightarrow> u16" where
  "fcs_bit fcs = (if fcs AND 1 \<noteq> 0 then drop_bit 1 fcs XOR 0x8408 else drop_bit 1 fcs)"

definition fcs_byte :: "u8 \<Rightarrow> u16 \<Rightarrow> u16" where
  "fcs_byte b fcs = (fcs_bit ^^ 8) (fcs XOR ucast b)"

definition ppp_fcs16 :: "u16 \<Rightarrow> u8 list \<Rightarrow> u16" where
  "ppp_fcs16 fcs bs = fold fcs_byte bs fcs"

subsection \<open>Framing\<close>

definition needs_escape :: "u8 \<Rightarrow> u32 \<Rightarrow> bool" where
  "needs_escape c accm =
     (if c = 0x7e \<or> c = 0x7d then True
      else if c < 0x20 then accm AND push_bit (unat c) 1 \<noteq> 0
      else False)"

text \<open>The octets written so far, or \<open>None\<close> when one did not fit (the C code's \<open>cap + 1\<close>).\<close>

definition emit :: "nat \<Rightarrow> u32 \<Rightarrow> u8 \<Rightarrow> u8 list \<Rightarrow> u8 list option" where
  "emit cap accm c out =
     (if needs_escape c accm
      then (if length out + 2 > cap then None else Some (out @ [0x7d, c XOR 0x20]))
      else (if length out + 1 > cap then None else Some (out @ [c])))"

primrec emit_all :: "nat \<Rightarrow> u32 \<Rightarrow> u8 list \<Rightarrow> u8 list \<Rightarrow> u8 list option" where
  "emit_all cap accm [] out = Some out"
| "emit_all cap accm (c # cs) out =
     (case emit cap accm c out of None \<Rightarrow> None | Some out \<Rightarrow> emit_all cap accm cs out)"

definition frame_header :: "u16 \<Rightarrow> u8 list" where
  "frame_header proto = [0xff, 0x03, ucast (drop_bit 8 proto), ucast (proto AND 0xff)]"

definition frame_fcs :: "u16 \<Rightarrow> u8 list \<Rightarrow> u16" where
  "frame_fcs proto info = ppp_fcs16 (ppp_fcs16 0xffff (frame_header proto)) info XOR 0xffff"

definition ppp_frame :: "u16 \<Rightarrow> u8 list \<Rightarrow> u32 \<Rightarrow> nat \<Rightarrow> u8 list option" where
  "ppp_frame proto info accm cap =
     (if length info > ppp_mru_default then None
      else if 1 > cap then None
      else case emit_all cap accm (frame_header proto) [0x7e] of
        None \<Rightarrow> None
      | Some out \<Rightarrow>
          (case emit_all cap accm info out of
             None \<Rightarrow> None
           | Some out \<Rightarrow>
               (case emit_all cap accm [ucast (frame_fcs proto info AND 0xff),
                                        ucast (drop_bit 8 (frame_fcs proto info))] out of
                  None \<Rightarrow> None
                | Some out \<Rightarrow> if length out + 1 > cap then None else Some (out @ [0x7e]))))"

subsection \<open>The transmit ring\<close>

definition tx_used :: "ppp_peer \<Rightarrow> u64" where
  "tx_used p = ucast (tx_head p - tx_tail p)"

primrec tx_store :: "u8 list \<Rightarrow> u32 \<Rightarrow> (nat \<Rightarrow> u8) \<Rightarrow> nat \<Rightarrow> u8" where
  "tx_store [] at ring_bytes = ring_bytes"
| "tx_store (b # bs) at ring_bytes =
     tx_store bs (at + 1) (ring_bytes(unat (at mod 12056) := b))"

definition count_overflow :: "ppp_peer \<Rightarrow> ppp_peer" where
  "count_overflow p = p\<lparr>stats := (stats p)\<lparr>tx_overflows := tx_overflows (stats p) + 1\<rparr>\<rparr>"

definition tx_frame :: "u16 \<Rightarrow> u8 list \<Rightarrow> ppp_peer \<Rightarrow> ppp_peer" where
  "tx_frame proto info p =
     (case ppp_frame proto info (tx_accm p) (2 * ppp_max_frame + 2) of
        None \<Rightarrow> count_overflow p
      | Some enc \<Rightarrow>
          if (of_nat (length enc) :: u64) > 12056 - tx_used p then count_overflow p
          else p\<lparr>txbuf := tx_store enc (tx_head p) (txbuf p),
                 tx_head := tx_head p + of_nat (length enc),
                 stats := (stats p)\<lparr>frames_out := frames_out (stats p) + 1,
                                   tx_bytes := tx_bytes (stats p) + of_nat (length enc)\<rparr>\<rparr>)"

definition ppp_output_pending :: "ppp_peer \<Rightarrow> u64" where
  "ppp_output_pending p = tx_used p"

definition ppp_output_byte :: "ppp_peer \<Rightarrow> u8 option \<times> ppp_peer" where
  "ppp_output_byte p =
     (if tx_head p = tx_tail p then (None, p)
      else (Some (txbuf p (unat (tx_tail p mod 12056))), p\<lparr>tx_tail := tx_tail p + 1\<rparr>))"

primrec ppp_output :: "nat \<Rightarrow> ppp_peer \<Rightarrow> u8 list \<times> ppp_peer" where
  "ppp_output 0 p = ([], p)"
| "ppp_output (Suc cap) p =
     (case ppp_output_byte p of
        (None, p) \<Rightarrow> ([], p)
      | (Some b, p) \<Rightarrow> (case ppp_output cap p of (bs, p) \<Rightarrow> (b # bs, p)))"

definition put_be32 :: "u32 \<Rightarrow> u8 list" where
  "put_be32 v = [ucast (drop_bit 24 v), ucast (drop_bit 16 v), ucast (drop_bit 8 v), ucast v]"

definition get_be32 :: "u8 list \<Rightarrow> nat \<Rightarrow> u32" where
  "get_be32 bs i = push_bit 24 (ucast (bs ! i)) OR push_bit 16 (ucast (bs ! (i + 1)))
     OR push_bit 8 (ucast (bs ! (i + 2))) OR ucast (bs ! (i + 3))"

definition send_cp :: "u16 \<Rightarrow> u8 \<Rightarrow> u8 \<Rightarrow> u8 list \<Rightarrow> ppp_peer \<Rightarrow> ppp_peer" where
  "send_cp proto code i body p =
     (if length body + 4 > ppp_mru_default then count_overflow p
      else tx_frame proto
             ([code, i, ucast (drop_bit 8 (of_nat (length body + 4) :: u64)),
               ucast ((of_nat (length body + 4) :: u64) AND 0xff)] @ body) p)"

subsection \<open>The frame check sequence leaves its residue\<close>

lemma fcs_bit_xor: "fcs_bit (a XOR b) = fcs_bit a XOR fcs_bit b"
proof (rule bit_word_eqI)
  fix i assume "i < LENGTH(16)"
  have odd: "x AND 1 \<noteq> 0 \<longleftrightarrow> bit x 0" for x :: u16
    by (simp add: and_one_eq odd_iff_mod_2_eq_one bit_0)
  show "bit (fcs_bit (a XOR b)) i = bit (fcs_bit a XOR fcs_bit b) i"
    by (auto simp: fcs_bit_def odd bit_simps)
qed

lemma fcs_bit_0 [simp]: "fcs_bit 0 = 0"
  by (simp add: fcs_bit_def)

lemma fcs_bits_xor: "(fcs_bit ^^ n) (a XOR b) = (fcs_bit ^^ n) a XOR (fcs_bit ^^ n) b"
  by (induction n) (simp_all add: fcs_bit_xor)

lemma fcs_bits_shift: "n \<le> 8 \<Longrightarrow> (fcs_bit ^^ n) (push_bit 8 (ucast (b :: u8))) = push_bit (8 - n) (ucast b)"
proof (induction n)
  case 0 then show ?case by simp
next
  case (Suc n)
  have "push_bit (8 - n) (ucast b) AND (1 :: u16) = 0"
    using Suc.prems by (simp add: and_one_eq mod_2_eq_odd even_push_bit_iff)
  moreover have "drop_bit 1 (push_bit (8 - n) (ucast b :: u16)) = push_bit (8 - Suc n) (ucast b)"
    using Suc.prems by (intro bit_word_eqI) (auto simp: bit_simps dest: bit_imp_le_length)
  ultimately show ?case
    using Suc by (simp add: fcs_bit_def)
qed

lemma fcs_const: "(fcs_bit ^^ 8) 0xff = 0x0f78" "(fcs_bit ^^ 8) (0x0f78 XOR 0xff) = 0xf0b8"
  by code_simp+

lemma fcs_masks: "bit (0xffff :: u16) i \<longleftrightarrow> i < 16" "bit (0xff :: u16) i \<longleftrightarrow> i < 8"
proof -
  have "(0xffff :: u16) = - 1" by simp
  then show "bit (0xffff :: u16) i \<longleftrightarrow> i < 16" by (simp only: bit_minus_1_iff) simp
qed (rule bit_low_eq [where k = 8], simp_all)

lemma fcs_residue:
  "ppp_fcs16 fcs [ucast ((fcs XOR 0xffff) AND 0xff), ucast (drop_bit 8 (fcs XOR 0xffff))] = 0xf0b8"
proof -
  define hi :: u8 where "hi = ucast (drop_bit 8 fcs)"
  have lo: "fcs XOR ucast (ucast ((fcs XOR 0xffff) AND 0xff) :: u8) = push_bit 8 (ucast hi) XOR 0xff"
    by (rule bit_word_eqI)
      (auto simp: hi_def bit_simps fcs_masks dest: bit_imp_le_length)
  have up: "(ucast (ucast (drop_bit 8 (fcs XOR 0xffff)) :: u8) :: u16) = ucast hi XOR 0xff"
    by (rule bit_word_eqI)
      (auto simp: hi_def bit_simps fcs_masks dest: bit_imp_le_length)
  have "fcs_byte (ucast ((fcs XOR 0xffff) AND 0xff)) fcs = ucast hi XOR 0x0f78"
    by (simp only: fcs_byte_def lo fcs_bits_xor fcs_const fcs_bits_shift) simp
  moreover have "fcs_byte (ucast (drop_bit 8 (fcs XOR 0xffff))) (ucast hi XOR 0x0f78) = 0xf0b8"
  proof -
    have "(ucast hi XOR 0x0f78) XOR (ucast hi XOR 0xff) = (0x0f78 XOR 0xff :: u16)"
      by (rule bit_word_eqI) (auto simp only: bit_xor_iff)
    then show ?thesis by (simp only: fcs_byte_def up fcs_const)
  qed
  ultimately show ?thesis by (simp only: ppp_fcs16_def fold.simps comp_def id_apply)
qed

subsection \<open>What a frame is\<close>

text \<open>The octets that stand for \<open>cs\<close> on the line.\<close>

definition stuffed :: "u32 \<Rightarrow> u8 list \<Rightarrow> u8 list" where
  "stuffed accm cs = concat (map (\<lambda>c. if needs_escape c accm then [0x7d, c XOR 0x20] else [c]) cs)"

lemma stuffed_simps [simp]:
  "stuffed accm [] = []"
  "stuffed accm (c # cs) = (if needs_escape c accm then [0x7d, c XOR 0x20] else [c]) @ stuffed accm cs"
  "stuffed accm (cs @ ds) = stuffed accm cs @ stuffed accm ds"
  by (simp_all add: stuffed_def)

lemma emit_all_stuffed:
  "length out \<le> cap \<Longrightarrow> emit_all cap accm cs out =
   (if length out + length (stuffed accm cs) \<le> cap then Some (out @ stuffed accm cs) else None)"
  by (induction cs arbitrary: out) (auto simp: emit_def)

definition frame_octets :: "u16 \<Rightarrow> u8 list \<Rightarrow> u8 list" where
  "frame_octets proto info =
     frame_header proto @ info @ [ucast (frame_fcs proto info AND 0xff), ucast (drop_bit 8 (frame_fcs proto info))]"

lemma length_frame_octets [simp]: "length (frame_octets proto info) = length info + 6"
  by (simp add: frame_octets_def frame_header_def)

lemma ppp_frame_stuffed:
  "ppp_frame proto info accm cap =
     (if length info \<le> ppp_mru_default \<and> length (stuffed accm (frame_octets proto info)) + 2 \<le> cap
      then Some ([0x7e] @ stuffed accm (frame_octets proto info) @ [0x7e]) else None)"
proof (cases "1 \<le> cap")
  case True
  then have "length [0x7e :: u8] \<le> cap" by simp
  then show ?thesis
    by (simp only: ppp_frame_def emit_all_stuffed frame_octets_def stuffed_simps(3))
       (auto simp: emit_all_stuffed simp del: stuffed_simps(2) emit_all.simps)
next
  case False
  then show ?thesis by (simp add: ppp_frame_def)
qed

lemma length_stuffed: "length (stuffed accm cs) \<le> 2 * length cs"
  by (induction cs) auto

lemma frame_fcs_good: "ppp_fcs16 0xffff (frame_octets proto info) = 0xf0b8"
proof -
  have "ppp_fcs16 0xffff (frame_octets proto info) =
      ppp_fcs16 (ppp_fcs16 (ppp_fcs16 0xffff (frame_header proto)) info)
        [ucast (frame_fcs proto info AND 0xff), ucast (drop_bit 8 (frame_fcs proto info))]"
    by (simp add: frame_octets_def ppp_fcs16_def)
  also have "\<dots> = 0xf0b8"
    unfolding frame_fcs_def by (rule fcs_residue)
  finally show ?thesis .
qed

subsection \<open>The transmit ring is a queue of octets\<close>

definition tx_queue :: "ppp_peer \<Rightarrow> u8 list" where
  "tx_queue p = ring (txbuf p) (unat (tx_tail p) mod ppp_tx_ring) (unat (tx_used p)) ppp_tx_ring"

definition tx_wf :: "ppp_peer \<Rightarrow> bool" where
  "tx_wf p \<longleftrightarrow> tx_tail p \<le> tx_head p \<and> unat (tx_used p) \<le> ppp_tx_ring"

lemma unat_mod_ring: "unat ((w :: u32) mod 12056) = unat w mod ppp_tx_ring"
  by (simp add: unat_mod_distrib)

lemma tx_used_diff: "tx_tail p \<le> tx_head p \<Longrightarrow> unat (tx_used p) = unat (tx_head p) - unat (tx_tail p)"
  by (simp add: tx_used_def unat_ucast_u64 unat_sub)

lemma ring_push_mod:
  assumes "count < cap"
  shows "ring (slot((head + count) mod cap := a)) (head mod cap) (Suc count) cap = ring slot (head mod cap) count cap @ [a]"
  using ring_push [of "head mod cap" cap count slot a] assms by (simp add: mod_add_left_eq)

lemma unat_next: "unat (w :: u32) + 1 < 2 ^ 32 \<Longrightarrow> unat (w + 1) = unat w + 1"
  by (simp add: unat_word_ariths)

lemma tx_store_ring:
  "unat at = base + count \<Longrightarrow> unat at + length bs < 2 ^ 32 \<Longrightarrow> count + length bs \<le> ppp_tx_ring \<Longrightarrow>
   ring (tx_store bs at t) (base mod ppp_tx_ring) (count + length bs) ppp_tx_ring =
   ring t (base mod ppp_tx_ring) count ppp_tx_ring @ bs"
proof (induction bs arbitrary: at count t)
  case Nil
  then show ?case by simp
next
  case (Cons b bs)
  have "unat (at + 1) = unat at + 1"
    using Cons.prems(2) by (intro unat_next) simp
  then have "ring (tx_store bs (at + 1) (t((base + count) mod ppp_tx_ring := b))) (base mod ppp_tx_ring)
        (Suc count + length bs) ppp_tx_ring =
      ring (t((base + count) mod ppp_tx_ring := b)) (base mod ppp_tx_ring) (Suc count) ppp_tx_ring @ bs"
    using Cons.prems by (intro Cons.IH) simp_all
  then show ?case
    using Cons.prems by (simp add: unat_mod_ring ring_push_mod)
qed

lemma tx_step:
  assumes wf: "tx_wf p" and ne: "tx_head p \<noteq> tx_tail p"
  shows "tx_wf (p\<lparr>tx_tail := tx_tail p + 1\<rparr>)"
    and "tx_queue p = txbuf p (unat (tx_tail p mod 12056)) # tx_queue (p\<lparr>tx_tail := tx_tail p + 1\<rparr>)"
proof -
  have lt: "tx_tail p < tx_head p" using wf ne by (auto simp: tx_wf_def order.strict_iff_order)
  then have up: "unat (tx_tail p + 1) = unat (tx_tail p) + 1"
    using unsigned_less [where 'a = nat, of "tx_head p"]
    by (intro unat_next) (simp add: word_less_nat_alt)
  have le: "tx_tail p + 1 \<le> tx_head p"
    using lt up by (simp add: word_le_nat_alt word_less_nat_alt)
  define used where "used = unat (tx_used p)"
  have used: "used = unat (tx_head p) - unat (tx_tail p)" "0 < used" "used \<le> ppp_tx_ring"
    using wf lt tx_used_diff [of p] by (simp_all add: used_def tx_wf_def word_less_nat_alt)
  have used': "unat (tx_used (p\<lparr>tx_tail := tx_tail p + 1\<rparr>)) = used - 1"
    using tx_used_diff [of "p\<lparr>tx_tail := tx_tail p + 1\<rparr>"] le up used(1) by simp
  show "tx_wf (p\<lparr>tx_tail := tx_tail p + 1\<rparr>)"
    using le used' used(3) by (simp add: tx_wf_def)
  let ?h = "unat (tx_tail p) mod ppp_tx_ring"
  have "ring (txbuf p) ?h used ppp_tx_ring =
      txbuf p ?h # ring (txbuf p) ((?h + 1) mod ppp_tx_ring) (used - 1) ppp_tx_ring"
    using ring_front [OF used(2), of ?h ppp_tx_ring "txbuf p"] ring_pop [OF used(2), of "txbuf p" ?h ppp_tx_ring]
      used(2) by (cases "ring (txbuf p) ?h used ppp_tx_ring") (auto dest: arg_cong [where f = length])
  then show "tx_queue p = txbuf p (unat (tx_tail p mod 12056)) # tx_queue (p\<lparr>tx_tail := tx_tail p + 1\<rparr>)"
    by (simp add: tx_queue_def used' up unat_mod_ring mod_Suc_eq flip: used_def)
qed

lemma tx_empty: "tx_head p = tx_tail p \<Longrightarrow> tx_queue p = []"
  by (simp add: tx_queue_def tx_used_def)

lemma ppp_output_queue:
  "tx_wf p \<Longrightarrow> ppp_output n p = (bs, q) \<Longrightarrow> bs = take n (tx_queue p) \<and> tx_queue q = drop n (tx_queue p) \<and> tx_wf q"
proof (induction n arbitrary: p bs)
  case 0
  then show ?case by simp
next
  case (Suc n)
  show ?case
  proof (cases "tx_head p = tx_tail p")
    case True
    then show ?thesis using Suc.prems tx_empty [OF True] by (simp add: ppp_output_byte_def)
  next
    case False
    note s = tx_step [OF Suc.prems(1) False]
    show ?thesis
      using Suc.prems(2) Suc.IH [OF s(1)] s(2) False
      by (auto simp: ppp_output_byte_def split: prod.splits)
  qed
qed

lemma tx_frame_queue:
  assumes wf: "tx_wf p" and far: "unat (tx_head p) + 3014 < 2 ^ 32" and fits: "length info \<le> ppp_mru_default"
    and room: "length (stuffed (tx_accm p) (frame_octets proto info)) + 2 + unat (tx_used p) \<le> ppp_tx_ring"
  shows "tx_wf (tx_frame proto info p)"
    and "tx_queue (tx_frame proto info p) =
      tx_queue p @ [0x7e] @ stuffed (tx_accm p) (frame_octets proto info) @ [0x7e]"
proof -
  define enc where "enc = [0x7e] @ stuffed (tx_accm p) (frame_octets proto info) @ [0x7e]"
  have len: "length enc = length (stuffed (tx_accm p) (frame_octets proto info)) + 2"
    by (simp add: enc_def)
  have cap: "length enc \<le> 3014"
    using length_stuffed [of "tx_accm p" "frame_octets proto info"] fits by (simp add: len)
  then have enc: "ppp_frame proto info (tx_accm p) 3014 = Some enc"
    using fits len by (simp add: ppp_frame_stuffed enc_def)
  have used: "unat (tx_head p) = unat (tx_tail p) + unat (tx_used p)"
    using wf tx_used_diff [of p] by (simp add: tx_wf_def word_le_nat_alt)
  have "unat (12056 - tx_used p) = 12056 - unat (tx_used p)"
    using wf by (subst unat_sub) (simp_all add: tx_wf_def word_le_nat_alt)
  then have fit: "\<not> (of_nat (length enc) :: u64) > 12056 - tx_used p"
    using unat_of_nat_len [where 'a = 64, of "length enc"] room cap len by (simp only: word_less_nat_alt) simp
  have up: "unat (tx_head p + of_nat (length enc)) = unat (tx_head p) + length enc"
    using far cap by (simp add: unat_word_ariths unat_of_nat_len)
  have q: "tx_frame proto info p = p\<lparr>txbuf := tx_store enc (tx_head p) (txbuf p),
      tx_head := tx_head p + of_nat (length enc), stats := (stats p)\<lparr>frames_out := frames_out (stats p) + 1,
        tx_bytes := tx_bytes (stats p) + of_nat (length enc)\<rparr>\<rparr>"
    using fit by (simp add: tx_frame_def enc)
  have le: "tx_tail p \<le> tx_head p + of_nat (length enc)"
    using up used by (simp add: word_le_nat_alt)
  have used': "unat (tx_used (tx_frame proto info p)) = unat (tx_used p) + length enc"
    using tx_used_diff [of "tx_frame proto info p"] le up used by (simp add: q)
  show "tx_wf (tx_frame proto info p)"
    using le used' room len by (simp add: tx_wf_def) (simp add: q)
  have "tx_queue (tx_frame proto info p) = tx_queue p @ enc"
    using tx_store_ring [of "tx_head p" "unat (tx_tail p)" "unat (tx_used p)" enc "txbuf p"] used far cap room len
    by (simp add: tx_queue_def used') (simp add: q)
  then show "tx_queue (tx_frame proto info p) =
      tx_queue p @ [0x7e] @ stuffed (tx_accm p) (frame_octets proto info) @ [0x7e]"
    by (simp only: enc_def)
qed


end
