(* ===== verification/PppLink.thy ===== *)
theory PppLink
  imports Ppp
begin

text \<open>
  The host's end of the guest's serial link, second half: option negotiation, the RFC 1661 automaton,
  packet dispatch, the deframer and the timers of core/src/net/ppp.c.

  The functions that take a control protocol's number select its automaton with \<open>fsm_for\<close> as the C
  code does; \<open>fsm_upd\<close> is the assignment through that pointer. A classified option list is the verdict,
  the octets of the answer and the peer with what the review recorded.
\<close>

abbreviation PROTO_IP :: u16 where "PROTO_IP \<equiv> 0x0021"
abbreviation PROTO_IPCP :: u16 where "PROTO_IPCP \<equiv> 0x8021"
abbreviation PROTO_LCP :: u16 where "PROTO_LCP \<equiv> 0xc021"

definition fsm_for :: "u16 \<Rightarrow> ppp_peer \<Rightarrow> ppp_fsm" where
  "fsm_for proto p = (if proto = PROTO_LCP then lcp p else ipcp p)"

definition fsm_upd :: "u16 \<Rightarrow> (ppp_fsm \<Rightarrow> ppp_fsm) \<Rightarrow> ppp_peer \<Rightarrow> ppp_peer" where
  "fsm_upd proto g p =
     (if proto = PROTO_LCP then p\<lparr>lcp := g (lcp p)\<rparr> else p\<lparr>ipcp := g (ipcp p)\<rparr>)"

definition set_state :: "u16 \<Rightarrow> ppp_state \<Rightarrow> ppp_peer \<Rightarrow> ppp_peer" where
  "set_state proto s = fsm_upd proto (\<lambda>f. f\<lparr>fsm_state := s\<rparr>)"

definition build_confreq :: "u16 \<Rightarrow> ppp_peer \<Rightarrow> u8 list" where
  "build_confreq proto p =
     (if proto = PROTO_LCP then
        (if req_opts (lcp p) AND 2 \<noteq> 0 then [2, 6] @ put_be32 0 else []) @
        (if req_opts (lcp p) AND 1 \<noteq> 0 then [5, 6] @ put_be32 (our_magic p) else [])
      else
        (if req_opts (ipcp p) AND 1 \<noteq> 0 then [3, 6] @ put_be32 (local_ip (cfg p)) else []))"

definition restart_start :: "u32 \<Rightarrow> ppp_fsm \<Rightarrow> ppp_fsm" where
  "restart_start now f = f\<lparr>timer_running := True, restart_at_ms := now + 3000\<rparr>"

definition restart_stop :: "ppp_fsm \<Rightarrow> ppp_fsm" where
  "restart_stop f = f\<lparr>timer_running := False\<rparr>"

definition irc :: "u8 \<Rightarrow> ppp_fsm \<Rightarrow> ppp_fsm" where
  "irc count f = f\<lparr>restarts := count, failures := 5\<rparr>"

definition spend_restart :: "ppp_fsm \<Rightarrow> ppp_fsm" where
  "spend_restart f = (if restarts f \<noteq> 0 then f\<lparr>restarts := restarts f - 1\<rparr> else f)"

definition fresh_id :: "ppp_fsm \<Rightarrow> ppp_fsm" where
  "fresh_id f = f\<lparr>last_req_id := next_id f, next_id := next_id f + 1\<rparr>"

definition scr :: "u16 \<Rightarrow> bool \<Rightarrow> ppp_peer \<Rightarrow> ppp_peer" where
  "scr proto fresh p =
     (let opts = build_confreq proto p;
          p = (if fresh then fsm_upd proto fresh_id p else p);
          p = send_cp proto 1 (last_req_id (fsm_for proto p)) opts p
      in fsm_upd proto (restart_start (now_ms p) \<circ> spend_restart) p)"

definition term_req :: "u16 \<Rightarrow> ppp_peer \<Rightarrow> ppp_peer" where
  "term_req proto p =
     (let p = fsm_upd proto fresh_id p;
          p = send_cp proto 5 (last_req_id (fsm_for proto p)) [] p
      in fsm_upd proto (restart_start (now_ms p) \<circ> spend_restart) p)"

definition sta :: "u16 \<Rightarrow> u8 \<Rightarrow> ppp_peer \<Rightarrow> ppp_peer" where
  "sta proto i p = send_cp proto 6 i [] p"

definition ipcp_start :: "ppp_peer \<Rightarrow> ppp_peer" where
  "ipcp_start p =
     scr PROTO_IPCP True
       (p\<lparr>ipcp := irc 10 ((ipcp p)\<lparr>fsm_state := S_REQSENT, req_opts := 1\<rparr>)\<rparr>)"

definition tlu :: "u16 \<Rightarrow> ppp_peer \<Rightarrow> ppp_peer" where
  "tlu proto p =
     (if proto = PROTO_LCP then ipcp_start p
      else p\<lparr>assigned_ip := remote_ip (cfg p), assigned := True\<rparr>)"

definition tld :: "u16 \<Rightarrow> ppp_peer \<Rightarrow> ppp_peer" where
  "tld proto p =
     (if proto = PROTO_LCP
      then p\<lparr>ipcp := restart_stop ((ipcp p)\<lparr>fsm_state := S_INITIAL\<rparr>), assigned := False\<rparr>
      else p\<lparr>assigned := False\<rparr>)"

subsection \<open>Option negotiation\<close>

datatype opt_verdict = OPT_ACK | OPT_NAK | OPT_REJ

definition lcp_review :: "u8 list \<Rightarrow> ppp_peer \<Rightarrow> opt_verdict \<times> u8 list \<times> ppp_peer" where
  "lcp_review opt p =
     (let kind = opt ! 0; olen = opt ! 1 in
      if kind = 1 then
        (if olen \<noteq> 4 then (OPT_REJ, [], p)
         else if (push_bit 8 (ucast (opt ! 2)) OR ucast (opt ! 3) :: u32) > 1500
         then (OPT_NAK, [1, 4, ucast (drop_bit 8 (1500 :: u32)), ucast ((1500 :: u32) AND 0xff)], p)
         else (OPT_ACK, [], p\<lparr>peer_mru := push_bit 8 (ucast (opt ! 2)) OR ucast (opt ! 3)\<rparr>))
      else if kind = 2 then
        (if olen \<noteq> 6 then (OPT_REJ, [], p)
         else (OPT_ACK, [], p\<lparr>peer_asyncmap := get_be32 opt 2\<rparr>))
      else if kind = 3 then (OPT_REJ, [], p)
      else if kind = 4 then (OPT_REJ, [], p)
      else if kind = 5 then
        (if olen \<noteq> 6 then (OPT_REJ, [], p)
         else let m = get_be32 opt 2 in
           if m = our_magic p then
             (let alt = m XOR 0xa5a5a5a5; alt = (if alt = m then m + 1 else alt)
              in (OPT_NAK, [5, 6] @ put_be32 alt, p))
           else (OPT_ACK, [], p\<lparr>peer_magic := m, peer_magic_valid := True\<rparr>))
      else if kind = 7 then
        (if olen \<noteq> 2 then (OPT_REJ, [], p) else (OPT_ACK, [], p\<lparr>peer_pcomp := True\<rparr>))
      else if kind = 8 then
        (if olen \<noteq> 2 then (OPT_REJ, [], p) else (OPT_ACK, [], p\<lparr>peer_accomp := True\<rparr>))
      else (OPT_REJ, [], p))"

definition ipcp_review :: "u8 list \<Rightarrow> ppp_peer \<Rightarrow> opt_verdict \<times> u8 list \<times> ppp_peer" where
  "ipcp_review opt p =
     (let kind = opt ! 0; olen = opt ! 1 in
      if kind = 3 then
        (if olen \<noteq> 6 then (OPT_REJ, [], p)
         else if get_be32 opt 2 = remote_ip (cfg p) then (OPT_ACK, [], p)
         else (OPT_NAK, [3, 6] @ put_be32 (remote_ip (cfg p)), p))
      else if kind = 2 then (OPT_REJ, [], p)
      else if kind = 1 then (OPT_REJ, [], p)
      else if kind = 129 \<or> kind = 131 then
        (if olen \<noteq> 6 then (OPT_REJ, [], p)
         else let p = p\<lparr>stats := (stats p)\<lparr>ipcp_dns_requests := ipcp_dns_requests (stats p) + 1\<rparr>\<rparr>;
                  have_ip = (if kind = 129 then dns1 (cfg p) else dns2 (cfg p))
           in if get_be32 opt 2 = have_ip
              then (OPT_ACK, [],
                    p\<lparr>stats := (stats p)\<lparr>ipcp_dns_acked := ipcp_dns_acked (stats p) + 1\<rparr>\<rparr>)
              else (OPT_NAK, [kind, 6] @ put_be32 have_ip,
                    p\<lparr>stats := (stats p)\<lparr>ipcp_dns_naked := ipcp_dns_naked (stats p) + 1\<rparr>\<rparr>))
      else (OPT_REJ, [], p))"

definition opt_review :: "u16 \<Rightarrow> u8 list \<Rightarrow> ppp_peer \<Rightarrow> opt_verdict \<times> u8 list \<times> ppp_peer" where
  "opt_review proto opt p = (if proto = PROTO_LCP then lcp_review opt p else ipcp_review opt p)"

datatype cr_result = CR_INVALID | CR_ACK | CR_NAK | CR_REJ

text \<open>The walk over the options: the octets to reject and to nak, or \<open>None\<close> when the options do not
  tile the packet; what the reviews before that point recorded stays recorded.\<close>

function confreq_walk ::
  "u16 \<Rightarrow> u8 list \<Rightarrow> u8 list \<Rightarrow> u8 list \<Rightarrow> ppp_peer \<Rightarrow> (u8 list \<times> u8 list) option \<times> ppp_peer" where
  "confreq_walk proto opts rej nak p =
     (if opts = [] then (Some (rej, nak), p)
      else if length opts < 2 then (None, p)
      else let olen = unat (opts ! 1) in
        if olen < 2 \<or> olen > length opts then (None, p)
        else case opt_review proto (take olen opts) p of
          (v, one, p) \<Rightarrow>
            confreq_walk proto (drop olen opts)
              (if v = OPT_REJ \<and> length rej + olen \<le> ppp_mru_default
               then rej @ take olen opts else rej)
              (if v = OPT_NAK \<and> length nak + length one \<le> ppp_mru_default
               then nak @ one else nak) p)"
  by pat_completeness auto
termination
  by (relation "measure (\<lambda>(proto, opts, rej, nak, p). length opts)") auto

declare confreq_walk.simps [simp del]

definition classify_confreq :: "u16 \<Rightarrow> u8 list \<Rightarrow> ppp_peer \<Rightarrow> cr_result \<times> u8 list \<times> ppp_peer" where
  "classify_confreq proto opts p =
     (case confreq_walk proto opts [] [] p of
        (None, p) \<Rightarrow> (CR_INVALID, [], p)
      | (Some (rej, nak), p) \<Rightarrow>
          if rej \<noteq> [] then (CR_REJ, rej, p)
          else if nak \<noteq> [] then (CR_NAK, nak, p)
          else (CR_ACK, opts, p))"

definition take_nak :: "u16 \<Rightarrow> u8 list \<Rightarrow> ppp_peer \<Rightarrow> ppp_peer" where
  "take_nak proto opts p =
     (if proto = PROTO_LCP then
        (if opts ! 0 = 5 \<and> opts ! 1 = 6 then p\<lparr>our_magic := get_be32 opts 2\<rparr> else p)
      else if opts ! 0 = 3 \<and> opts ! 1 = 6
      then p\<lparr>cfg := (cfg p)\<lparr>local_ip := get_be32 opts 2\<rparr>\<rparr>
      else p)"

function apply_nak :: "u16 \<Rightarrow> u8 list \<Rightarrow> ppp_peer \<Rightarrow> ppp_peer" where
  "apply_nak proto opts p =
     (if length opts < 2 then p
      else let olen = unat (opts ! 1) in
        if olen < 2 \<or> olen > length opts then p
        else apply_nak proto (drop olen opts) (take_nak proto opts p))"
  by pat_completeness auto
termination
  by (relation "measure (\<lambda>(proto, opts, p). length opts)") auto

declare apply_nak.simps [simp del]

definition drop_opt :: "u16 \<Rightarrow> u8 \<Rightarrow> ppp_peer \<Rightarrow> ppp_peer" where
  "drop_opt proto kind p =
     (if proto = PROTO_LCP then
        (let p = (if kind = 5 then p\<lparr>lcp := (lcp p)\<lparr>req_opts := req_opts (lcp p) AND NOT 1\<rparr>\<rparr> else p)
         in if kind = 2 then p\<lparr>lcp := (lcp p)\<lparr>req_opts := req_opts (lcp p) AND NOT 2\<rparr>\<rparr> else p)
      else if kind = 3 then p\<lparr>ipcp := (ipcp p)\<lparr>req_opts := req_opts (ipcp p) AND NOT 1\<rparr>\<rparr>
      else p)"

function apply_rej :: "u16 \<Rightarrow> u8 list \<Rightarrow> ppp_peer \<Rightarrow> ppp_peer" where
  "apply_rej proto opts p =
     (if length opts < 2 then p
      else let olen = unat (opts ! 1) in
        if olen < 2 \<or> olen > length opts then p
        else apply_rej proto (drop olen opts) (drop_opt proto (opts ! 0) p))"
  by pat_completeness auto
termination
  by (relation "measure (\<lambda>(proto, opts, p). length opts)") auto

declare apply_rej.simps [simp del]

subsection \<open>The automaton\<close>

definition confreq_answer :: "cr_result \<Rightarrow> u8" where
  "confreq_answer r = (if r = CR_ACK then 2 else if r = CR_NAK then 3 else 4)"

definition ev_rcr :: "u16 \<Rightarrow> u8 \<Rightarrow> u8 list \<Rightarrow> ppp_peer \<Rightarrow> ppp_peer" where
  "ev_rcr proto i opts p =
     (let entry = fsm_state (fsm_for proto p) in
      if entry = S_INITIAL \<or> entry = S_CLOSED then sta proto i p
      else case classify_confreq proto opts p of
        (r, resp, p) \<Rightarrow>
          if r = CR_INVALID then p
          else
            let good = (r = CR_ACK);
                p = (if entry = S_STOPPED then scr proto True (fsm_upd proto (irc 10) p)
                     else if entry = S_OPENED then scr proto True (fsm_upd proto (irc 10) (tld proto p))
                     else p);
                p = send_cp proto (confreq_answer r) i resp p
            in if \<not> good \<and> failures (fsm_for proto p) = 0
               then fsm_upd proto restart_stop (set_state proto S_STOPPED p)
               else
                 let p = (if good then p
                          else fsm_upd proto (\<lambda>f. f\<lparr>failures := failures f - 1\<rparr>) p)
                 in if entry \<in> {S_STOPPED, S_OPENED, S_REQSENT, S_ACKSENT}
                    then set_state proto (if good then S_ACKSENT else S_REQSENT) p
                    else if entry = S_ACKRCVD \<and> good
                    then tlu proto (fsm_upd proto restart_stop (set_state proto S_OPENED p))
                    else p)"

definition ev_rca :: "u16 \<Rightarrow> u8 \<Rightarrow> ppp_peer \<Rightarrow> ppp_peer" where
  "ev_rca proto i p =
     (if i \<noteq> last_req_id (fsm_for proto p) then p
      else case fsm_state (fsm_for proto p) of
        S_CLOSED \<Rightarrow> sta proto i p
      | S_STOPPED \<Rightarrow> sta proto i p
      | S_REQSENT \<Rightarrow> set_state proto S_ACKRCVD (fsm_upd proto (irc 10) p)
      | S_ACKRCVD \<Rightarrow> set_state proto S_REQSENT (scr proto True p)
      | S_ACKSENT \<Rightarrow>
          tlu proto (set_state proto S_OPENED (fsm_upd proto restart_stop (fsm_upd proto (irc 10) p)))
      | S_OPENED \<Rightarrow> set_state proto S_REQSENT (scr proto True (tld proto p))
      | _ \<Rightarrow> p)"

definition ev_rcn :: "u16 \<Rightarrow> u8 \<Rightarrow> ppp_peer \<Rightarrow> ppp_peer" where
  "ev_rcn proto i p =
     (if i \<noteq> last_req_id (fsm_for proto p) then p
      else case fsm_state (fsm_for proto p) of
        S_CLOSED \<Rightarrow> sta proto i p
      | S_STOPPED \<Rightarrow> sta proto i p
      | S_REQSENT \<Rightarrow> scr proto True (fsm_upd proto (irc 10) p)
      | S_ACKSENT \<Rightarrow> scr proto True (fsm_upd proto (irc 10) p)
      | S_ACKRCVD \<Rightarrow> set_state proto S_REQSENT (scr proto True p)
      | S_OPENED \<Rightarrow> set_state proto S_REQSENT (scr proto True (tld proto p))
      | _ \<Rightarrow> p)"

definition ev_rtr :: "u16 \<Rightarrow> u8 \<Rightarrow> ppp_peer \<Rightarrow> ppp_peer" where
  "ev_rtr proto i p =
     (case fsm_state (fsm_for proto p) of
        S_OPENED \<Rightarrow>
          (let p = sta proto i (fsm_upd proto (\<lambda>f. f\<lparr>restarts := 0\<rparr>) (tld proto p))
           in fsm_upd proto (restart_start (now_ms p)) (set_state proto S_STOPPING p))
      | S_REQSENT \<Rightarrow> set_state proto S_REQSENT (sta proto i p)
      | S_ACKRCVD \<Rightarrow> set_state proto S_REQSENT (sta proto i p)
      | S_ACKSENT \<Rightarrow> set_state proto S_REQSENT (sta proto i p)
      | _ \<Rightarrow> sta proto i p)"

definition ev_rta :: "u16 \<Rightarrow> ppp_peer \<Rightarrow> ppp_peer" where
  "ev_rta proto p =
     (case fsm_state (fsm_for proto p) of
        S_CLOSING \<Rightarrow> set_state proto S_CLOSED (fsm_upd proto restart_stop p)
      | S_STOPPING \<Rightarrow> set_state proto S_STOPPED (fsm_upd proto restart_stop p)
      | S_ACKRCVD \<Rightarrow> set_state proto S_REQSENT p
      | S_OPENED \<Rightarrow> set_state proto S_REQSENT (scr proto True (tld proto p))
      | _ \<Rightarrow> p)"

definition ev_rxj :: "u16 \<Rightarrow> ppp_peer \<Rightarrow> ppp_peer" where
  "ev_rxj proto p =
     (let p = fsm_upd proto restart_stop (set_state proto S_STOPPED p)
      in if proto = PROTO_LCP then tld PROTO_LCP p else p)"

subsection \<open>Dispatch\<close>

definition echo_reply :: "u16 \<Rightarrow> u8 \<Rightarrow> u8 list \<Rightarrow> ppp_peer \<Rightarrow> ppp_peer" where
  "echo_reply proto i body p =
     (if proto \<noteq> PROTO_LCP \<or> fsm_state (fsm_for proto p) \<noteq> S_OPENED then p
      else if length body < 4 then p
      else
        let p = send_cp proto 10 i (put_be32 (our_magic p) @ drop 4 (take ppp_mru_default body)) p
        in p\<lparr>stats := (stats p)\<lparr>echo_replies := echo_replies (stats p) + 1\<rparr>\<rparr>)"

definition code_reject :: "u16 \<Rightarrow> u8 list \<Rightarrow> ppp_peer \<Rightarrow> ppp_peer" where
  "code_reject proto pkt p =
     (let p = p\<lparr>stats := (stats p)\<lparr>unknown_codes := unknown_codes (stats p) + 1\<rparr>\<rparr>;
          i = next_id (fsm_for proto p)
      in send_cp proto 7 i (take (ppp_mru_default - 4) pkt)
           (fsm_upd proto (\<lambda>f. f\<lparr>next_id := next_id f + 1\<rparr>) p))"

definition cp_input :: "u16 \<Rightarrow> u8 list \<Rightarrow> ppp_peer \<Rightarrow> ppp_peer" where
  "cp_input proto pkt p =
     (if length pkt < 4 then p
      else
        let code = pkt ! 0; i = pkt ! 1;
            plen = unat (push_bit 8 (ucast (pkt ! 2)) OR ucast (pkt ! 3) :: u64)
        in if plen < 4 \<or> plen > length pkt then p
        else
          let body = take (plen - 4) (drop 4 pkt) in
          if code = 1 then ev_rcr proto i body p
          else if code = 2 then ev_rca proto i p
          else if code = 3 then
            ev_rcn proto i (if i = last_req_id (fsm_for proto p) then apply_nak proto body p else p)
          else if code = 4 then
            ev_rcn proto i (if i = last_req_id (fsm_for proto p) then apply_rej proto body p else p)
          else if code = 5 then ev_rtr proto i p
          else if code = 6 then ev_rta proto p
          else if code = 7 \<or> code = 8 then ev_rxj proto p
          else if code = 9 then echo_reply proto i body p
          else if code = 10 \<or> code = 11 then p
          else code_reject proto (take plen pkt) p)"

definition count_short :: "ppp_peer \<Rightarrow> ppp_peer" where
  "count_short p = p\<lparr>stats := (stats p)\<lparr>short_frames := short_frames (stats p) + 1\<rparr>\<rparr>"

definition ip_input :: "u8 list \<Rightarrow> ppp_peer \<Rightarrow> ppp_peer" where
  "ip_input info p =
     (let p = p\<lparr>stats := (stats p)\<lparr>ip_frames_in := ip_frames_in (stats p) + 1,
                                  ip_bytes_in := ip_bytes_in (stats p) + of_nat (length info)\<rparr>\<rparr>
      in if ip_sink p \<and> fsm_state (ipcp p) = S_OPENED then p\<lparr>sunk := sunk p @ [info]\<rparr>
         else p\<lparr>stats := (stats p)\<lparr>ip_frames_dropped := ip_frames_dropped (stats p) + 1\<rparr>\<rparr>)"

definition proto_reject :: "u16 \<Rightarrow> u8 list \<Rightarrow> ppp_peer \<Rightarrow> ppp_peer" where
  "proto_reject proto info p =
     (let p = p\<lparr>stats := (stats p)\<lparr>unknown_protos := unknown_protos (stats p) + 1\<rparr>\<rparr> in
      if fsm_state (lcp p) = S_OPENED then
        (let i = next_id (lcp p)
         in send_cp PROTO_LCP 8 i
              ([ucast (drop_bit 8 proto), ucast (proto AND 0xff)] @ take (ppp_mru_default - 2) info)
              (p\<lparr>lcp := (lcp p)\<lparr>next_id := next_id (lcp p) + 1\<rparr>\<rparr>))
      else p)"

definition frame_dispatch :: "u16 \<Rightarrow> u8 list \<Rightarrow> ppp_peer \<Rightarrow> ppp_peer" where
  "frame_dispatch proto info p =
     (let p = p\<lparr>stats := (stats p)\<lparr>frames_in := frames_in (stats p) + 1\<rparr>\<rparr> in
      if proto = PROTO_LCP then cp_input PROTO_LCP info p
      else if proto = PROTO_IPCP then cp_input PROTO_IPCP info p
      else if proto = PROTO_IP then ip_input info p
      else proto_reject proto info p)"

definition frame_input :: "u8 list \<Rightarrow> ppp_peer \<Rightarrow> ppp_peer" where
  "frame_input fr p =
     (if length fr < 4 then count_short p
      else if ppp_fcs16 0xffff fr \<noteq> 0xf0b8
      then p\<lparr>stats := (stats p)\<lparr>fcs_errors := fcs_errors (stats p) + 1\<rparr>\<rparr>
      else
        let fr = take (length fr - 2) fr;
            fr = (if length fr \<ge> 2 \<and> fr ! 0 = 0xff \<and> fr ! 1 = 0x03 then drop 2 fr else fr)
        in if length fr < 1 then count_short p
        else if fr ! 0 AND 1 \<noteq> 0 then frame_dispatch (ucast (fr ! 0)) (drop 1 fr) p
        else if length fr < 2 then count_short p
        else frame_dispatch (push_bit 8 (ucast (fr ! 0)) OR ucast (fr ! 1)) (drop 2 fr) p)"

subsection \<open>The deframer\<close>

definition ppp_input_byte :: "u8 \<Rightarrow> ppp_peer \<Rightarrow> ppp_peer" where
  "ppp_input_byte byte p =
     (let p = p\<lparr>stats := (stats p)\<lparr>rx_bytes := rx_bytes (stats p) + 1\<rparr>\<rparr> in
      if byte = 0x7e then
        (let p = (if escaped p
                  then p\<lparr>stats := (stats p)\<lparr>aborts := aborts (stats p) + 1\<rparr>\<rparr>
                  else if in_frame p \<and> rxbuf p \<noteq> [] then
                    (if overlong p
                     then p\<lparr>stats := (stats p)\<lparr>long_frames := long_frames (stats p) + 1\<rparr>\<rparr>
                     else frame_input (rxbuf p) p)
                  else p)
         in p\<lparr>rxbuf := [], escaped := False, overlong := False, in_frame := True\<rparr>)
      else if \<not> in_frame p then p
      else if byte = 0x7d then p\<lparr>escaped := True\<rparr>
      else
        let byte = (if escaped p then byte XOR 0x20 else byte);
            p = p\<lparr>escaped := False\<rparr>
        in if length (rxbuf p) \<ge> ppp_max_frame then p\<lparr>overlong := True\<rparr>
           else p\<lparr>rxbuf := rxbuf p @ [byte]\<rparr>)"

definition ppp_input :: "u8 list \<Rightarrow> ppp_peer \<Rightarrow> ppp_peer" where
  "ppp_input bs p = fold ppp_input_byte bs p"

subsection \<open>Timers\<close>

definition restart_timeout :: "u16 \<Rightarrow> ppp_peer \<Rightarrow> ppp_peer" where
  "restart_timeout proto p =
     (let f = fsm_for proto p in
      if restarts f = 0 then
        (let p = fsm_upd proto restart_stop p in
         if fsm_state f = S_CLOSING then set_state proto S_CLOSED p
         else if fsm_state f \<in> {S_STOPPING, S_REQSENT, S_ACKRCVD, S_ACKSENT}
         then set_state proto S_STOPPED p
         else p)
      else if fsm_state f \<in> {S_CLOSING, S_STOPPING} then
        (let p = send_cp proto 5 (last_req_id f) [] p
         in fsm_upd proto (\<lambda>f. restart_start (now_ms p) (f\<lparr>restarts := restarts f - 1\<rparr>)) p)
      else if fsm_state f \<in> {S_REQSENT, S_ACKRCVD, S_ACKSENT} then scr proto False p
      else fsm_upd proto restart_stop p)"

definition ppp_tick :: "u32 \<Rightarrow> ppp_peer \<Rightarrow> ppp_peer" where
  "ppp_tick now p =
     (if now < now_ms p then p
      else
        let p = p\<lparr>now_ms := now\<rparr>;
            p = (if timer_running (lcp p) \<and> now \<ge> restart_at_ms (lcp p)
                 then restart_timeout PROTO_LCP p else p)
        in if timer_running (ipcp p) \<and> now \<ge> restart_at_ms (ipcp p)
           then restart_timeout PROTO_IPCP p else p)"

subsection \<open>The interface\<close>

definition ppp_config_default :: ppp_config where
  "ppp_config_default =
     \<lparr>local_ip = 0x0a000202, remote_ip = 0x0a00020f, dns1 = 0x0a000203, dns2 = 0x0a000203,
      cfg_magic = 0x5335384c\<rparr>"

definition fsm_zero :: ppp_fsm where
  "fsm_zero = \<lparr>fsm_state = S_INITIAL, next_id = 1, last_req_id = 0, restarts = 0, failures = 0,
     req_opts = 0, restart_at_ms = 0, timer_running = False\<rparr>"

definition ppp_init :: "ppp_config option \<Rightarrow> ppp_peer" where
  "ppp_init c =
     (let c = (case c of None \<Rightarrow> ppp_config_default | Some c \<Rightarrow> c) in
      \<lparr>cfg = c,
       stats = \<lparr>rx_bytes = 0, tx_bytes = 0, frames_in = 0, frames_out = 0, fcs_errors = 0,
         short_frames = 0, long_frames = 0, aborts = 0, unknown_protos = 0, unknown_codes = 0,
         ip_frames_in = 0, ip_frames_dropped = 0, ip_frames_out = 0, ip_bytes_in = 0,
         ip_bytes_out = 0, tx_overflows = 0, echo_replies = 0, ipcp_dns_requests = 0,
         ipcp_dns_acked = 0, ipcp_dns_naked = 0\<rparr>,
       ip_sink = False, sunk = [], lcp = fsm_zero, ipcp = fsm_zero, opened = False, now_ms = 0,
       our_magic = cfg_magic c, peer_magic = 0, peer_magic_valid = False,
       peer_asyncmap = 0xffffffff, peer_mru = 1500, peer_pcomp = False, peer_accomp = False,
       assigned_ip = 0, assigned = False, tx_accm = 0xffffffff,
       rxbuf = [], in_frame = False, escaped = False, overlong = False,
       txbuf = (\<lambda>_. 0), tx_head = 0, tx_tail = 0\<rparr>)"

definition ppp_set_ip_sink :: "bool \<Rightarrow> ppp_peer \<Rightarrow> ppp_peer" where
  "ppp_set_ip_sink installed p = p\<lparr>ip_sink := installed\<rparr>"

definition ppp_send_ip :: "u8 list \<Rightarrow> ppp_peer \<Rightarrow> bool \<times> ppp_peer" where
  "ppp_send_ip pkt p =
     (if pkt = [] then (False, p)
      else if fsm_state (ipcp p) \<noteq> S_OPENED then (False, count_overflow p)
      else if length pkt > unat (peer_mru p) then (False, count_overflow p)
      else
        let before = frames_out (stats p); p = tx_frame PROTO_IP pkt p in
        if frames_out (stats p) = before then (False, p)
        else (True, p\<lparr>stats := (stats p)\<lparr>ip_frames_out := ip_frames_out (stats p) + 1,
                        ip_bytes_out := ip_bytes_out (stats p) + of_nat (length pkt)\<rparr>\<rparr>))"

definition ppp_open :: "ppp_peer \<Rightarrow> ppp_peer" where
  "ppp_open p =
     (if opened p then p
      else scr PROTO_LCP True
        (p\<lparr>opened := True, lcp := (irc 10 ((lcp p)\<lparr>req_opts := 1 OR 2\<rparr>))\<lparr>fsm_state := S_REQSENT\<rparr>\<rparr>))"

definition ppp_close :: "ppp_peer \<Rightarrow> ppp_peer" where
  "ppp_close p =
     (let p = p\<lparr>opened := False\<rparr>;
          p = (if fsm_state (lcp p) = S_OPENED then tld PROTO_LCP p else p)
      in if fsm_state (lcp p) \<in> {S_INITIAL, S_CLOSED} then set_state PROTO_LCP S_CLOSED p
         else term_req PROTO_LCP (set_state PROTO_LCP S_CLOSING (fsm_upd PROTO_LCP (irc 2) p)))"

definition ppp_lcp_open :: "ppp_peer \<Rightarrow> bool" where
  "ppp_lcp_open p = (fsm_state (lcp p) = S_OPENED)"

definition ppp_ipcp_open :: "ppp_peer \<Rightarrow> bool" where
  "ppp_ipcp_open p = (fsm_state (ipcp p) = S_OPENED)"

definition ppp_phase :: "ppp_peer \<Rightarrow> ppp_phase_t" where
  "ppp_phase p =
     (if fsm_state (lcp p) = S_CLOSING \<or> fsm_state (lcp p) = S_STOPPING then PHASE_TERMINATE
      else if fsm_state (ipcp p) = S_OPENED then PHASE_OPEN
      else if fsm_state (lcp p) = S_OPENED then PHASE_NETWORK
      else if fsm_state (lcp p) = S_INITIAL \<or> fsm_state (lcp p) = S_CLOSED then PHASE_DEAD
      else PHASE_ESTABLISH)"

subsection \<open>A frame comes out as it went in\<close>

definition heard :: "nat \<Rightarrow> ppp_peer \<Rightarrow> ppp_peer" where
  "heard n p = p\<lparr>stats := (stats p)\<lparr>rx_bytes := rx_bytes (stats p) + of_nat n\<rparr>\<rparr>"

definition between_frames :: "ppp_peer \<Rightarrow> ppp_peer" where
  "between_frames p = p\<lparr>rxbuf := [], escaped := False, overlong := False, in_frame := True\<rparr>"

lemma escape_range: "needs_escape c accm \<Longrightarrow> c = 0x7e \<or> c = 0x7d \<or> c < 0x20"
  by (auto simp: needs_escape_def split: if_splits)

lemma escaped_octet:
  assumes "needs_escape c accm"
  shows "c XOR 0x20 \<noteq> 0x7e" "c XOR 0x20 \<noteq> 0x7d"
proof -
  have inv: "(c XOR 0x20) XOR 0x20 = c" by (simp add: xor.assoc)
  show "c XOR 0x20 \<noteq> 0x7e"
  proof
    assume "c XOR 0x20 = 0x7e"
    then have "c = 0x5e" using inv by simp
    then show False using escape_range [OF assms] by simp
  qed
  show "c XOR 0x20 \<noteq> 0x7d"
  proof
    assume "c XOR 0x20 = 0x7d"
    then have "c = 0x5d" using inv by simp
    then show False using escape_range [OF assms] by simp
  qed
qed

lemma plain_octet: "\<not> needs_escape c accm \<Longrightarrow> c \<noteq> 0x7e \<and> c \<noteq> 0x7d"
  by (simp add: needs_escape_def split: if_splits)

lemma input_plain:
  "c \<noteq> 0x7e \<Longrightarrow> c \<noteq> 0x7d \<Longrightarrow> in_frame p \<Longrightarrow> \<not> escaped p \<Longrightarrow> length (rxbuf p) < ppp_max_frame \<Longrightarrow>
   ppp_input_byte c p = (heard 1 p)\<lparr>rxbuf := rxbuf p @ [c]\<rparr>"
  by (simp add: ppp_input_byte_def heard_def)

lemma input_escape:
  "c XOR 0x20 \<noteq> 0x7e \<Longrightarrow> c XOR 0x20 \<noteq> 0x7d \<Longrightarrow> in_frame p \<Longrightarrow> \<not> escaped p \<Longrightarrow>
   length (rxbuf p) < ppp_max_frame \<Longrightarrow>
   ppp_input_byte (c XOR 0x20) (ppp_input_byte 0x7d p) = (heard 2 p)\<lparr>rxbuf := rxbuf p @ [c]\<rparr>"
  by (simp add: ppp_input_byte_def heard_def xor.assoc)

lemma heard_fields [simp]:
  "in_frame (heard n p) = in_frame p" "escaped (heard n p) = escaped p"
  "overlong (heard n p) = overlong p" "rxbuf (heard n p) = rxbuf p"
  by (simp_all add: heard_def)

lemma heard_add: "heard m ((heard n p)\<lparr>rxbuf := bs\<rparr>) = (heard (n + m) p)\<lparr>rxbuf := bs\<rparr>"
  by (simp add: heard_def add.assoc)

lemma input_stuffed:
  "in_frame p \<Longrightarrow> \<not> escaped p \<Longrightarrow> length (rxbuf p) + length cs \<le> ppp_max_frame \<Longrightarrow>
   ppp_input (stuffed accm cs) p = (heard (length (stuffed accm cs)) p)\<lparr>rxbuf := rxbuf p @ cs\<rparr>"
proof (induction cs arbitrary: p)
  case Nil
  then show ?case by (simp add: ppp_input_def heard_def)
next
  case (Cons c cs)
  show ?case
  proof (cases "needs_escape c accm")
    case True
    note e = input_escape [OF escaped_octet [OF True], of p]
    have "ppp_input (stuffed accm cs) ((heard 2 p)\<lparr>rxbuf := rxbuf p @ [c]\<rparr>) =
        (heard (2 + length (stuffed accm cs)) p)\<lparr>rxbuf := rxbuf p @ c # cs\<rparr>"
      using Cons.IH [of "(heard 2 p)\<lparr>rxbuf := rxbuf p @ [c]\<rparr>"] Cons.prems by (simp add: heard_add)
    then show ?thesis
      using True e Cons.prems by (simp add: ppp_input_def)
  next
    case False
    note e = input_plain [of c p]
    have "ppp_input (stuffed accm cs) ((heard 1 p)\<lparr>rxbuf := rxbuf p @ [c]\<rparr>) =
        (heard (1 + length (stuffed accm cs)) p)\<lparr>rxbuf := rxbuf p @ c # cs\<rparr>"
      using Cons.IH [of "(heard 1 p)\<lparr>rxbuf := rxbuf p @ [c]\<rparr>"] Cons.prems by (simp add: heard_add)
    then show ?thesis
      using False plain_octet [OF False] e Cons.prems by (simp add: ppp_input_def)
  qed
qed

lemma input_flag:
  "in_frame p \<Longrightarrow> \<not> escaped p \<Longrightarrow> \<not> overlong p \<Longrightarrow> rxbuf p \<noteq> [] \<Longrightarrow>
   ppp_input_byte 0x7e p = between_frames (frame_input (rxbuf p) (heard 1 p))"
  by (simp add: ppp_input_byte_def between_frames_def heard_def)

lemma proto_split: "push_bit 8 (ucast (ucast (drop_bit 8 proto) :: u8)) OR ucast (ucast (proto AND 0xff) :: u8) = (proto :: u16)"
  by (rule bit_word_eqI) (auto simp: bit_simps fcs_masks dest: bit_imp_le_length)

lemma frame_input_octets:
  assumes even: "\<not> bit proto 8"
  shows "frame_input (frame_octets proto info) p = frame_dispatch proto info p"
proof -
  have "take (length (frame_octets proto info) - 2) (frame_octets proto info) = frame_header proto @ info"
    by (simp add: frame_octets_def)
  moreover have "(ucast (drop_bit 8 proto) :: u8) AND 1 = 0"
    using even by (simp add: and_one_eq mod_2_eq_odd bit_simps flip: bit_0)
  ultimately show ?thesis
    using frame_fcs_good [of proto info]
    by (simp add: frame_input_def frame_header_def proto_split)
qed

lemma input_frame:
  assumes idle: "rxbuf p = []" "\<not> escaped p" and even: "\<not> bit proto 8"
    and fits: "length info \<le> ppp_mru_default"
  shows "ppp_input ([0x7e] @ stuffed accm (frame_octets proto info) @ [0x7e]) p =
    between_frames (frame_dispatch proto info
      ((heard (length (stuffed accm (frame_octets proto info)) + 2) (between_frames p))
         \<lparr>rxbuf := frame_octets proto info\<rparr>))"
proof -
  define n where "n = length (stuffed accm (frame_octets proto info))"
  have start: "ppp_input_byte 0x7e p = heard 1 (between_frames p)"
    using idle by (simp add: ppp_input_byte_def heard_def between_frames_def)
  have body: "ppp_input (stuffed accm (frame_octets proto info)) (heard 1 (between_frames p)) =
      (heard (1 + n) (between_frames p))\<lparr>rxbuf := frame_octets proto info\<rparr>"
    using input_stuffed [of "heard 1 (between_frames p)" "frame_octets proto info" accm] fits
    by (simp add: between_frames_def n_def heard_def add.assoc)
  have stop: "ppp_input_byte 0x7e ((heard (1 + n) (between_frames p))\<lparr>rxbuf := frame_octets proto info\<rparr>) =
      between_frames (frame_dispatch proto info
        ((heard (n + 2) (between_frames p))\<lparr>rxbuf := frame_octets proto info\<rparr>))"
    using input_flag [of "(heard (1 + n) (between_frames p))\<lparr>rxbuf := frame_octets proto info\<rparr>"]
    by (simp add: frame_input_octets [OF even] heard_add between_frames_def flip: length_0_conv)
  have "ppp_input ([0x7e] @ stuffed accm (frame_octets proto info) @ [0x7e]) p =
      ppp_input_byte 0x7e (ppp_input (stuffed accm (frame_octets proto info)) (ppp_input_byte 0x7e p))"
    by (simp add: ppp_input_def)
  then show ?thesis
    by (simp only: start body stop n_def [symmetric])
qed

text \<open>C29. A frame crosses the link intact: whatever two-octet protocol number and whatever information
  field one peer queues, the octets it then outputs make a second peer, idle between frames, dispatch
  exactly that protocol and information, once, and be idle again. The escape map of the sender does not
  matter.\<close>

theorem frame_crosses_link:
  assumes "tx_wf a" "tx_queue a = []" "unat (tx_head a) + 3014 < 2 ^ 32"
    and "rxbuf b = []" "\<not> escaped b"
    and "\<not> bit proto 8" "length info \<le> ppp_mru_default"
    and "ppp_output 3014 (tx_frame proto info a) = (bs, a')"
  shows "tx_queue a' = [] \<and> ppp_input bs b = between_frames (frame_dispatch proto info
      ((heard (length bs) (between_frames b))\<lparr>rxbuf := frame_octets proto info\<rparr>))"
proof -
  define enc where "enc = [0x7e] @ stuffed (tx_accm a) (frame_octets proto info) @ [0x7e]"
  have len: "length enc \<le> 3014" "length enc = length (stuffed (tx_accm a) (frame_octets proto info)) + 2"
    using length_stuffed [of "tx_accm a" "frame_octets proto info"] assms(7) by (simp_all add: enc_def)
  have "unat (tx_used a) = 0"
    using assms(2) by (simp add: tx_queue_def flip: length_0_conv)
  then have queued: "tx_wf (tx_frame proto info a)" "tx_queue (tx_frame proto info a) = enc"
    using tx_frame_queue [OF assms(1,3,7), of proto] assms(2) len by (simp_all add: enc_def)
  have "bs = enc \<and> tx_queue a' = []"
    using ppp_output_queue [OF queued(1) assms(8)] queued(2) len(1) by simp
  then show ?thesis
    using input_frame [OF assms(4-7), of "tx_accm a"] len(2) by (simp add: enc_def)
qed

theorem frame_crosses_link_witness:
  "ppp_input (fst (ppp_output 3014 (tx_frame PROTO_IPCP [5, 1, 0, 4] (ppp_init None)))) (ppp_init None) =
   between_frames (frame_dispatch PROTO_IPCP [5, 1, 0, 4]
     ((heard (length (fst (ppp_output 3014 (tx_frame PROTO_IPCP [5, 1, 0, 4] (ppp_init None)))))
        (between_frames (ppp_init None)))\<lparr>rxbuf := frame_octets PROTO_IPCP [5, 1, 0, 4]\<rparr>))"
proof (rule frame_crosses_link [where a = "ppp_init None" and proto = PROTO_IPCP, THEN conjunct2])
  show "tx_wf (ppp_init None)" "tx_queue (ppp_init None) = []"
    by (simp_all add: tx_wf_def tx_queue_def tx_used_def ppp_init_def)
  show "\<not> bit PROTO_IPCP 8" by code_simp
  show "ppp_output 3014 (tx_frame PROTO_IPCP [5, 1, 0, 4] (ppp_init None)) =
      (fst (ppp_output 3014 (tx_frame PROTO_IPCP [5, 1, 0, 4] (ppp_init None))),
       snd (ppp_output 3014 (tx_frame PROTO_IPCP [5, 1, 0, 4] (ppp_init None))))"
    by (rule prod.collapse [symmetric])
qed (simp_all add: ppp_init_def)

end
