(* ===== verification/PppFsm.thy ===== *)
theory PppFsm
  imports PppLink
begin

text \<open>
  The automaton of core/src/net/ppp.c against the state table of RFC 1661 (section 4.1), its
  invariants over every history of calls, and what a silent or misbehaving guest can make it do.
\<close>

subsection \<open>What sending leaves alone\<close>

lemma send_cp_shape:
  obtains t h s where "send_cp proto code i body p = p\<lparr>txbuf := t, tx_head := h, stats := s\<rparr>"
proof -
  have a: "count_overflow q = q\<lparr>txbuf := txbuf q, tx_head := tx_head q,
      stats := (stats q)\<lparr>tx_overflows := tx_overflows (stats q) + 1\<rparr>\<rparr>" for q
    by (simp add: count_overflow_def)
  have "\<exists>t h s. tx_frame proto bs p = p\<lparr>txbuf := t, tx_head := h, stats := s\<rparr>" for bs
    unfolding tx_frame_def by (auto split: option.split) (metis a)+
  then show ?thesis
    using that a unfolding send_cp_def by metis
qed

lemma send_cp_fields [simp]:
  "lcp (send_cp proto code i body p) = lcp p" "ipcp (send_cp proto code i body p) = ipcp p"
  "cfg (send_cp proto code i body p) = cfg p" "now_ms (send_cp proto code i body p) = now_ms p"
  "our_magic (send_cp proto code i body p) = our_magic p" "opened (send_cp proto code i body p) = opened p"
  "assigned (send_cp proto code i body p) = assigned p"
  "assigned_ip (send_cp proto code i body p) = assigned_ip p"
  "tx_accm (send_cp proto code i body p) = tx_accm p" "rxbuf (send_cp proto code i body p) = rxbuf p"
  "tx_tail (send_cp proto code i body p) = tx_tail p" "peer_mru (send_cp proto code i body p) = peer_mru p"
  "escaped (send_cp proto code i body p) = escaped p" "in_frame (send_cp proto code i body p) = in_frame p"
  by (rule send_cp_shape [of proto code i body p]; simp)+

lemma send_cp_commutes:
  "send_cp proto code i body (p\<lparr>lcp := f\<rparr>) = (send_cp proto code i body p)\<lparr>lcp := f\<rparr>"
  "send_cp proto code i body (p\<lparr>ipcp := f\<rparr>) = (send_cp proto code i body p)\<lparr>ipcp := f\<rparr>"
  by (simp_all add: send_cp_def tx_frame_def count_overflow_def tx_used_def split: option.split)

lemma fsm_upd_fields [simp]:
  "lcp (fsm_upd proto g p) = (if proto = PROTO_LCP then g (lcp p) else lcp p)"
  "ipcp (fsm_upd proto g p) = (if proto = PROTO_LCP then ipcp p else g (ipcp p))"
  "cfg (fsm_upd proto g p) = cfg p" "now_ms (fsm_upd proto g p) = now_ms p"
  "our_magic (fsm_upd proto g p) = our_magic p" "opened (fsm_upd proto g p) = opened p"
  "assigned (fsm_upd proto g p) = assigned p" "assigned_ip (fsm_upd proto g p) = assigned_ip p"
  "tx_accm (fsm_upd proto g p) = tx_accm p" "rxbuf (fsm_upd proto g p) = rxbuf p"
  "tx_tail (fsm_upd proto g p) = tx_tail p" "peer_mru (fsm_upd proto g p) = peer_mru p"
  "tx_head (fsm_upd proto g p) = tx_head p"
  by (simp_all add: fsm_upd_def)

lemma fsm_for_upd [simp]: "fsm_for proto (fsm_upd proto g p) = g (fsm_for proto p)"
  by (simp add: fsm_for_def)

lemma fsm_upd_twice [simp]: "fsm_upd proto g (fsm_upd proto h p) = fsm_upd proto (g \<circ> h) p"
  by (simp add: fsm_upd_def)

lemma fsm_for_send [simp]: "fsm_for proto (send_cp proto' code i body p) = fsm_for proto p"
  by (simp add: fsm_for_def)

lemma send_upd: "send_cp proto' code i body (fsm_upd proto g p) = fsm_upd proto g (send_cp proto' code i body p)"
  by (simp add: fsm_upd_def send_cp_commutes)

subsection \<open>The state table\<close>

datatype rfc_event = RCR_good | RCR_bad | RCA | RCN | RTR | RTA | RXJ_bad | TO_more | TO_last
datatype rfc_action = Tlu | Tld | Tlf | Irc | Zrc | Scr | Sca | Scn | Str | Sta

text \<open>The rows of the table for the states below the line, which a packet or a timeout can meet. A cell
  is the list of actions and the new state; \<open>None\<close> marks the cells the table leaves blank.\<close>

fun rfc_table :: "rfc_event \<Rightarrow> ppp_state \<Rightarrow> (rfc_action list \<times> ppp_state) option" where
  "rfc_table TO_more S_CLOSING = Some ([Str], S_CLOSING)"
| "rfc_table TO_more S_STOPPING = Some ([Str], S_STOPPING)"
| "rfc_table TO_more S_REQSENT = Some ([Scr], S_REQSENT)"
| "rfc_table TO_more S_ACKRCVD = Some ([Scr], S_REQSENT)"
| "rfc_table TO_more S_ACKSENT = Some ([Scr], S_ACKSENT)"
| "rfc_table TO_last S_CLOSING = Some ([Tlf], S_CLOSED)"
| "rfc_table TO_last S_STOPPING = Some ([Tlf], S_STOPPED)"
| "rfc_table TO_last S_REQSENT = Some ([Tlf], S_STOPPED)"
| "rfc_table TO_last S_ACKRCVD = Some ([Tlf], S_STOPPED)"
| "rfc_table TO_last S_ACKSENT = Some ([Tlf], S_STOPPED)"
| "rfc_table RCR_good S_CLOSED = Some ([Sta], S_CLOSED)"
| "rfc_table RCR_good S_STOPPED = Some ([Irc, Scr, Sca], S_ACKSENT)"
| "rfc_table RCR_good S_CLOSING = Some ([], S_CLOSING)"
| "rfc_table RCR_good S_STOPPING = Some ([], S_STOPPING)"
| "rfc_table RCR_good S_REQSENT = Some ([Sca], S_ACKSENT)"
| "rfc_table RCR_good S_ACKRCVD = Some ([Sca, Tlu], S_OPENED)"
| "rfc_table RCR_good S_ACKSENT = Some ([Sca], S_ACKSENT)"
| "rfc_table RCR_good S_OPENED = Some ([Tld, Scr, Sca], S_ACKSENT)"
| "rfc_table RCR_bad S_CLOSED = Some ([Sta], S_CLOSED)"
| "rfc_table RCR_bad S_STOPPED = Some ([Irc, Scr, Scn], S_REQSENT)"
| "rfc_table RCR_bad S_CLOSING = Some ([], S_CLOSING)"
| "rfc_table RCR_bad S_STOPPING = Some ([], S_STOPPING)"
| "rfc_table RCR_bad S_REQSENT = Some ([Scn], S_REQSENT)"
| "rfc_table RCR_bad S_ACKRCVD = Some ([Scn], S_ACKRCVD)"
| "rfc_table RCR_bad S_ACKSENT = Some ([Scn], S_REQSENT)"
| "rfc_table RCR_bad S_OPENED = Some ([Tld, Scr, Scn], S_REQSENT)"
| "rfc_table RCA S_CLOSED = Some ([Sta], S_CLOSED)"
| "rfc_table RCA S_STOPPED = Some ([Sta], S_STOPPED)"
| "rfc_table RCA S_CLOSING = Some ([], S_CLOSING)"
| "rfc_table RCA S_STOPPING = Some ([], S_STOPPING)"
| "rfc_table RCA S_REQSENT = Some ([Irc], S_ACKRCVD)"
| "rfc_table RCA S_ACKRCVD = Some ([Scr], S_REQSENT)"
| "rfc_table RCA S_ACKSENT = Some ([Irc, Tlu], S_OPENED)"
| "rfc_table RCA S_OPENED = Some ([Tld, Scr], S_REQSENT)"
| "rfc_table RCN S_CLOSED = Some ([Sta], S_CLOSED)"
| "rfc_table RCN S_STOPPED = Some ([Sta], S_STOPPED)"
| "rfc_table RCN S_CLOSING = Some ([], S_CLOSING)"
| "rfc_table RCN S_STOPPING = Some ([], S_STOPPING)"
| "rfc_table RCN S_REQSENT = Some ([Irc, Scr], S_REQSENT)"
| "rfc_table RCN S_ACKRCVD = Some ([Scr], S_REQSENT)"
| "rfc_table RCN S_ACKSENT = Some ([Irc, Scr], S_ACKSENT)"
| "rfc_table RCN S_OPENED = Some ([Tld, Scr], S_REQSENT)"
| "rfc_table RTR S_CLOSED = Some ([Sta], S_CLOSED)"
| "rfc_table RTR S_STOPPED = Some ([Sta], S_STOPPED)"
| "rfc_table RTR S_CLOSING = Some ([Sta], S_CLOSING)"
| "rfc_table RTR S_STOPPING = Some ([Sta], S_STOPPING)"
| "rfc_table RTR S_REQSENT = Some ([Sta], S_REQSENT)"
| "rfc_table RTR S_ACKRCVD = Some ([Sta], S_REQSENT)"
| "rfc_table RTR S_ACKSENT = Some ([Sta], S_REQSENT)"
| "rfc_table RTR S_OPENED = Some ([Tld, Zrc, Sta], S_STOPPING)"
| "rfc_table RTA S_CLOSED = Some ([], S_CLOSED)"
| "rfc_table RTA S_STOPPED = Some ([], S_STOPPED)"
| "rfc_table RTA S_CLOSING = Some ([Tlf], S_CLOSED)"
| "rfc_table RTA S_STOPPING = Some ([Tlf], S_STOPPED)"
| "rfc_table RTA S_REQSENT = Some ([], S_REQSENT)"
| "rfc_table RTA S_ACKRCVD = Some ([], S_REQSENT)"
| "rfc_table RTA S_ACKSENT = Some ([], S_ACKSENT)"
| "rfc_table RTA S_OPENED = Some ([Tld, Scr], S_REQSENT)"
| "rfc_table RXJ_bad S_CLOSED = Some ([Tlf], S_CLOSED)"
| "rfc_table RXJ_bad S_STOPPED = Some ([Tlf], S_STOPPED)"
| "rfc_table RXJ_bad S_CLOSING = Some ([Tlf], S_CLOSED)"
| "rfc_table RXJ_bad S_STOPPING = Some ([Tlf], S_STOPPED)"
| "rfc_table RXJ_bad S_REQSENT = Some ([Tlf], S_STOPPED)"
| "rfc_table RXJ_bad S_ACKRCVD = Some ([Tlf], S_STOPPED)"
| "rfc_table RXJ_bad S_ACKSENT = Some ([Tlf], S_STOPPED)"
| "rfc_table RXJ_bad S_OPENED = Some ([Tld, Irc, Str], S_STOPPING)"
| "rfc_table _ _ = None"

definition awaiting :: "ppp_state \<Rightarrow> bool" where
  "awaiting s \<longleftrightarrow> s \<in> {S_CLOSING, S_STOPPING, S_REQSENT, S_ACKRCVD, S_ACKSENT}"

text \<open>What an action does. \<open>again\<close> tells a retransmission, which keeps its identifier; the answer to a
  Configure-Request is the reply already decided on.\<close>

fun rfc_act :: "u16 \<Rightarrow> bool \<Rightarrow> u8 \<Rightarrow> u8 \<Rightarrow> u8 list \<Rightarrow> rfc_action \<Rightarrow> ppp_peer \<Rightarrow> ppp_peer" where
  "rfc_act proto again i code resp Tlu p = tlu proto p"
| "rfc_act proto again i code resp Tld p = tld proto p"
| "rfc_act proto again i code resp Tlf p = p"
| "rfc_act proto again i code resp Irc p = fsm_upd proto (irc 10) p"
| "rfc_act proto again i code resp Zrc p = fsm_upd proto (restart_start (now_ms p) \<circ> (\<lambda>f. f\<lparr>restarts := 0\<rparr>)) p"
| "rfc_act proto again i code resp Scr p = scr proto (\<not> again) p"
| "rfc_act proto again i code resp Sca p = send_cp proto code i resp p"
| "rfc_act proto again i code resp Scn p =
     fsm_upd proto (\<lambda>f. f\<lparr>failures := failures f - 1\<rparr>) (send_cp proto code i resp p)"
| "rfc_act proto again i code resp Str p =
     fsm_upd proto (restart_start (now_ms p) \<circ> spend_restart)
       (send_cp proto 5 (last_req_id (fsm_for proto p)) [] p)"
| "rfc_act proto again i code resp Sta p = sta proto i p"

text \<open>A cell of the table run on a peer: its actions in order, then the new state, whose timer keeps
  running only when the state waits for something.\<close>

definition rfc_enter :: "u16 \<Rightarrow> ppp_state \<Rightarrow> ppp_peer \<Rightarrow> ppp_peer" where
  "rfc_enter proto s =
     fsm_upd proto (\<lambda>f. f\<lparr>fsm_state := s, timer_running := timer_running f \<and> awaiting s\<rparr>)"

definition rfc_cell :: "u16 \<Rightarrow> bool \<Rightarrow> u8 \<Rightarrow> u8 \<Rightarrow> u8 list \<Rightarrow> rfc_event \<Rightarrow> ppp_peer \<Rightarrow> ppp_peer" where
  "rfc_cell proto again i code resp ev p =
     (case rfc_table ev (fsm_state (fsm_for proto p)) of
        None \<Rightarrow> p
      | Some (acts, s) \<Rightarrow> rfc_enter proto s (fold (rfc_act proto again i code resp) acts p))"

text \<open>An event as the code sees it, the code's answer to it, and the table's.\<close>

datatype link_event = Got_request u8 "u8 list" | Got_ack u8 | Got_nak u8 | Got_term_request u8
  | Got_term_ack | Got_reject | Expired

fun code_event :: "u16 \<Rightarrow> link_event \<Rightarrow> ppp_peer \<Rightarrow> ppp_peer" where
  "code_event proto (Got_request i opts) p = ev_rcr proto i opts p"
| "code_event proto (Got_ack i) p = ev_rca proto i p"
| "code_event proto (Got_nak i) p = ev_rcn proto i p"
| "code_event proto (Got_term_request i) p = ev_rtr proto i p"
| "code_event proto Got_term_ack p = ev_rta proto p"
| "code_event proto Got_reject p = ev_rxj proto p"
| "code_event proto Expired p = restart_timeout proto p"

text \<open>A Configure-Request is judged first (not in Closed, which answers it unread); options that do not
  tile it, and an Ack, Nak or Reject for another request, are discarded.\<close>

fun table_event :: "u16 \<Rightarrow> link_event \<Rightarrow> ppp_peer \<Rightarrow> ppp_peer" where
  "table_event proto (Got_request i opts) p =
     (if fsm_state (fsm_for proto p) = S_CLOSED then rfc_cell proto False i 0 [] RCR_good p
      else case classify_confreq proto opts p of (r, resp, p) \<Rightarrow>
        if r = CR_INVALID then p
        else rfc_cell proto False i (confreq_answer r) resp (if r = CR_ACK then RCR_good else RCR_bad) p)"
| "table_event proto (Got_ack i) p =
     (if i = last_req_id (fsm_for proto p) then rfc_cell proto False i 0 [] RCA p else p)"
| "table_event proto (Got_nak i) p =
     (if i = last_req_id (fsm_for proto p) then rfc_cell proto False i 0 [] RCN p else p)"
| "table_event proto (Got_term_request i) p = rfc_cell proto False i 0 [] RTR p"
| "table_event proto Got_term_ack p = rfc_cell proto False 0 0 [] RTA p"
| "table_event proto Got_reject p = rfc_cell proto False 0 0 [] RXJ_bad p"
| "table_event proto Expired p =
     rfc_cell proto True 0 0 [] (if restarts (fsm_for proto p) = 0 then TO_last else TO_more) p"

text \<open>The cells in which the code does something else, and the states no event is for.\<close>

fun off_table :: "u16 \<Rightarrow> link_event \<Rightarrow> ppp_peer \<Rightarrow> bool" where
  "off_table proto (Got_request i opts) p \<longleftrightarrow>
     fsm_state (fsm_for proto p) \<in> {S_CLOSING, S_STOPPING, S_OPENED} \<or>
     failures (fsm_for proto p) = 0 \<and> fsm_state (fsm_for proto p) \<noteq> S_STOPPED"
| "off_table proto Got_reject p \<longleftrightarrow>
     fsm_state (fsm_for proto p) \<in> {S_CLOSED, S_CLOSING, S_OPENED} \<or>
     proto = PROTO_LCP \<and> (fsm_state (ipcp p) \<noteq> S_INITIAL \<or> timer_running (ipcp p) \<or> assigned p)"
| "off_table proto Expired p \<longleftrightarrow>
     \<not> awaiting (fsm_state (fsm_for proto p)) \<or>
     fsm_state (fsm_for proto p) = S_ACKRCVD \<and> restarts (fsm_for proto p) \<noteq> 0"
| "off_table proto _ p \<longleftrightarrow> False"

definition fsm_ok :: "ppp_fsm \<Rightarrow> bool" where
  "fsm_ok f \<longleftrightarrow> (timer_running f \<longleftrightarrow> awaiting (fsm_state f)) \<and> restarts f \<le> 10 \<and> failures f \<le> 5"

text \<open>Reviewing options touches no automaton.\<close>

lemma review_fields:
  "opt_review proto opt p = (v, one, q) \<Longrightarrow> lcp q = lcp p \<and> ipcp q = ipcp p \<and> cfg q = cfg p \<and>
     now_ms q = now_ms p \<and> our_magic q = our_magic p \<and> rxbuf q = rxbuf p \<and> tx_head q = tx_head p \<and>
     tx_tail q = tx_tail p \<and> assigned q = assigned p \<and> assigned_ip q = assigned_ip p"
  by (auto simp: opt_review_def lcp_review_def ipcp_review_def Let_def split: if_splits)

lemma walk_fields:
  "confreq_walk proto opts rej nak p = (out, q) \<Longrightarrow> lcp q = lcp p \<and> ipcp q = ipcp p \<and> cfg q = cfg p \<and>
     now_ms q = now_ms p \<and> our_magic q = our_magic p \<and> rxbuf q = rxbuf p \<and> tx_head q = tx_head p \<and>
     tx_tail q = tx_tail p \<and> assigned q = assigned p \<and> assigned_ip q = assigned_ip p"
proof (induction proto opts rej nak p rule: confreq_walk.induct)
  case (1 proto opts rej nak p)
  then show ?case
    by (subst (asm) (2) confreq_walk.simps)
      (auto simp: Let_def split: if_splits prod.splits dest!: review_fields)
qed

lemma fsm_upd_cong: "g (fsm_for proto p) = h (fsm_for proto p) \<Longrightarrow> fsm_upd proto g p = fsm_upd proto h p"
  by (simp add: fsm_upd_def fsm_for_def split: if_splits)

lemma fsm_upd_id: "g (fsm_for proto p) = fsm_for proto p \<Longrightarrow> fsm_upd proto g p = p"
  by (simp add: fsm_upd_def fsm_for_def split: if_splits)

lemma scr_fields [simp]:
  "fsm_for proto (scr proto fresh p) = restart_start (now_ms p)
     (spend_restart ((if fresh then fresh_id else id) (fsm_for proto p)))"
  "cfg (scr proto fresh p) = cfg p" "now_ms (scr proto fresh p) = now_ms p"
  by (simp_all add: scr_def Let_def)

lemma sta_fields [simp]:
  "fsm_for proto (sta proto' i p) = fsm_for proto p" "now_ms (sta proto' i p) = now_ms p"
  by (simp_all add: sta_def)

lemma tld_fsm [simp]: "fsm_for proto (tld proto p) = fsm_for proto p" "now_ms (tld proto p) = now_ms p"
  by (simp_all add: tld_def fsm_for_def)

lemma fsm_helpers [simp]:
  "fsm_state (restart_start now f) = fsm_state f" "timer_running (restart_start now f)"
  "restarts (restart_start now f) = restarts f" "failures (restart_start now f) = failures f"
  "fsm_state (spend_restart f) = fsm_state f" "timer_running (spend_restart f) = timer_running f"
  "failures (spend_restart f) = failures f"
  "fsm_state (fresh_id f) = fsm_state f" "timer_running (fresh_id f) = timer_running f"
  "restarts (fresh_id f) = restarts f" "failures (fresh_id f) = failures f"
  "fsm_state (irc n f) = fsm_state f" "timer_running (irc n f) = timer_running f"
  "restarts (irc n f) = n" "failures (irc n f) = 5"
  "fsm_state (restart_stop f) = fsm_state f" "\<not> timer_running (restart_stop f)"
  "restarts (restart_stop f) = restarts f" "failures (restart_stop f) = failures f"
  by (simp_all add: restart_start_def spend_restart_def fresh_id_def irc_def restart_stop_def)

lemma enter_waiting:
  "timer_running (fsm_for proto p) \<Longrightarrow> awaiting s \<Longrightarrow> rfc_enter proto s p = set_state proto s p"
  unfolding rfc_enter_def set_state_def by (rule fsm_upd_cong) simp

lemma enter_quiet:
  "\<not> awaiting s \<Longrightarrow> rfc_enter proto s p = fsm_upd proto restart_stop (set_state proto s p)"
  unfolding rfc_enter_def set_state_def fsm_upd_twice
  by (rule fsm_upd_cong) (simp add: restart_stop_def)

lemma enter_same:
  "timer_running (fsm_for proto p) = awaiting s \<Longrightarrow> fsm_state (fsm_for proto p) = s \<Longrightarrow> rfc_enter proto s p = p"
  unfolding rfc_enter_def by (rule fsm_upd_id) simp

lemma awaiting_simps [simp]:
  "awaiting S_CLOSING" "awaiting S_STOPPING" "awaiting S_REQSENT" "awaiting S_ACKRCVD" "awaiting S_ACKSENT"
  "\<not> awaiting S_INITIAL" "\<not> awaiting S_STARTING" "\<not> awaiting S_CLOSED" "\<not> awaiting S_STOPPED"
  "\<not> awaiting S_OPENED"
  by (simp_all add: awaiting_def)

lemma upd_lcp_scr:
  "scr PROTO_IPCP fresh (p\<lparr>lcp := f, ipcp := g\<rparr>) = (scr PROTO_IPCP fresh (p\<lparr>ipcp := g\<rparr>))\<lparr>lcp := f\<rparr>"
  by (simp add: scr_def Let_def fsm_upd_def fsm_for_def build_confreq_def send_cp_commutes)

lemma tlu_upd: "tlu proto (fsm_upd proto g p) = fsm_upd proto g (tlu proto p)"
proof (cases "proto = PROTO_LCP")
  case True
  have "lcp (scr PROTO_IPCP fresh q) = lcp q" for fresh q
    by (simp add: scr_def Let_def)
  then show ?thesis
    by (simp add: True tlu_def fsm_upd_def ipcp_start_def upd_lcp_scr)
next
  case False
  then show ?thesis by (simp add: tlu_def fsm_upd_def)
qed

lemma set_state_fields [simp]:
  "fsm_for proto (set_state proto s p) = (fsm_for proto p)\<lparr>fsm_state := s\<rparr>" "now_ms (set_state proto s p) = now_ms p"
  by (simp_all add: set_state_def)

lemma stop_set: "fsm_upd proto restart_stop (set_state proto s p) = set_state proto s (fsm_upd proto restart_stop p)"
  unfolding set_state_def fsm_upd_twice by (rule fsm_upd_cong) (simp add: restart_stop_def)

lemma start_set:
  "fsm_upd proto (restart_start t) (set_state proto s p) = set_state proto s (fsm_upd proto (restart_start t) p)"
  unfolding set_state_def fsm_upd_twice by (rule fsm_upd_cong) (simp add: restart_start_def)

lemma sta_upd: "sta proto' i (fsm_upd proto g p) = fsm_upd proto g (sta proto' i p)"
  by (simp add: sta_def send_upd)

lemma set_state_same: "fsm_state (fsm_for proto p) = s \<Longrightarrow> set_state proto s p = p"
  unfolding set_state_def by (rule fsm_upd_id) simp

lemma tlu_set: "tlu proto (set_state proto s p) = set_state proto s (tlu proto p)"
  by (simp only: set_state_def tlu_upd)

lemmas follow_simps = rfc_cell_def enter_same enter_waiting enter_quiet stop_set tlu_set tlu_upd
  start_set sta_upd set_state_same

lemma follow_rca:
  assumes "fsm_ok (fsm_for proto p)" "fsm_state (fsm_for proto p) \<notin> {S_INITIAL, S_STARTING}"
  shows "ev_rca proto i p = table_event proto (Got_ack i) p"
  using assms
  by (cases "fsm_state (fsm_for proto p)") (simp_all add: ev_rca_def fsm_ok_def follow_simps)

lemma follow_rcn:
  assumes "fsm_ok (fsm_for proto p)" "fsm_state (fsm_for proto p) \<notin> {S_INITIAL, S_STARTING}"
  shows "ev_rcn proto i p = table_event proto (Got_nak i) p"
  using assms
  by (cases "fsm_state (fsm_for proto p)") (simp_all add: ev_rcn_def fsm_ok_def follow_simps)

lemma follow_rta:
  assumes "fsm_ok (fsm_for proto p)" "fsm_state (fsm_for proto p) \<notin> {S_INITIAL, S_STARTING}"
  shows "ev_rta proto p = table_event proto Got_term_ack p"
  using assms
  by (cases "fsm_state (fsm_for proto p)") (simp_all add: ev_rta_def fsm_ok_def follow_simps)

lemma follow_rtr:
  assumes "fsm_ok (fsm_for proto p)" "fsm_state (fsm_for proto p) \<notin> {S_INITIAL, S_STARTING}"
  shows "ev_rtr proto i p = table_event proto (Got_term_request i) p"
  using assms
  by (cases "fsm_state (fsm_for proto p)") (simp_all add: ev_rtr_def fsm_ok_def follow_simps)

lemma tld_quiet:
  "fsm_state (ipcp p) = S_INITIAL \<Longrightarrow> \<not> timer_running (ipcp p) \<Longrightarrow> \<not> assigned p \<Longrightarrow> tld PROTO_LCP p = p"
  by (simp add: tld_def restart_stop_def)

lemma stop_same: "\<not> timer_running (fsm_for proto p) \<Longrightarrow> fsm_upd proto restart_stop p = p"
  by (rule fsm_upd_id) (simp add: restart_stop_def)

lemma spend_pos:
  "restarts (fsm_for proto p) \<noteq> 0 \<Longrightarrow>
   fsm_upd proto (\<lambda>f. restart_start t (f\<lparr>restarts := restarts f - 1\<rparr>)) p =
   fsm_upd proto (restart_start t \<circ> spend_restart) p"
  by (rule fsm_upd_cong) (simp add: spend_restart_def)

lemma set_state_others [simp]:
  "ipcp (set_state PROTO_LCP s p) = ipcp p" "assigned (set_state proto s p) = assigned p"
  "lcp (set_state PROTO_IPCP s p) = lcp p"
  by (simp_all add: set_state_def)

lemma follow_rxj:
  assumes "fsm_ok (fsm_for proto p)" "fsm_state (fsm_for proto p) \<notin> {S_INITIAL, S_STARTING}"
    "\<not> off_table proto Got_reject p"
  shows "ev_rxj proto p = table_event proto Got_reject p"
  using assms
  by (cases "fsm_state (fsm_for proto p)") (simp_all add: ev_rxj_def Let_def fsm_ok_def tld_quiet stop_same follow_simps)

lemma follow_expired:
  assumes "fsm_ok (fsm_for proto p)" "fsm_state (fsm_for proto p) \<notin> {S_INITIAL, S_STARTING}"
    "\<not> off_table proto Expired p"
  shows "restart_timeout proto p = table_event proto Expired p"
  using assms
  by (cases "fsm_state (fsm_for proto p)") (simp_all add: restart_timeout_def Let_def fsm_ok_def spend_pos follow_simps)

lemma answer_fields [simp]:
  "confreq_answer CR_ACK = 2" "confreq_answer CR_NAK = 3" "confreq_answer CR_REJ = 4"
  by (simp_all add: confreq_answer_def)

lemma classify_fields:
  "classify_confreq proto opts p = (r, resp, q) \<Longrightarrow>
     lcp q = lcp p \<and> ipcp q = ipcp p \<and> cfg q = cfg p \<and> now_ms q = now_ms p \<and> our_magic q = our_magic p \<and>
     rxbuf q = rxbuf p \<and> tx_head q = tx_head p \<and> tx_tail q = tx_tail p \<and> assigned q = assigned p \<and>
     assigned_ip q = assigned_ip p"
  by (auto simp: classify_confreq_def split: option.splits prod.splits if_splits dest!: walk_fields)

lemma follow_rcr:
  assumes "fsm_ok (fsm_for proto p)" "fsm_state (fsm_for proto p) \<notin> {S_INITIAL, S_STARTING}"
    "\<not> off_table proto (Got_request i opts) p"
  shows "ev_rcr proto i opts p = table_event proto (Got_request i opts) p"
proof -
  obtain r resp q where c: "classify_confreq proto opts p = (r, resp, q)" by (cases "classify_confreq proto opts p")
  then have "fsm_for proto q = fsm_for proto p"
    using classify_fields [OF c] by (simp add: fsm_for_def)
  then show ?thesis
    using assms
    by (cases "fsm_state (fsm_for proto p)"; cases r)
      (simp_all add: ev_rcr_def c Let_def fsm_ok_def follow_simps)
qed

text \<open>C28. The automaton is the state table of RFC 1661 (section 4.1): for either protocol, in every
  state the table has, an incoming packet or an expired timer makes the code do exactly the table's
  actions in the table's order and enter the table's state, the timer running just when the new state
  waits for something. The cells of \<open>off_table\<close> are left out: a Configure-Request while closing,
  stopping or opened (or with Max-Failure spent), a reject while closed, closing or opened (or for LCP
  with IPCP in use), and the retransmission in Ack-Rcvd.\<close>

theorem automaton_follows_rfc1661:
  assumes "fsm_ok (fsm_for proto p)" "fsm_state (fsm_for proto p) \<notin> {S_INITIAL, S_STARTING}"
    and "\<not> off_table proto ev p"
  shows "code_event proto ev p = table_event proto ev p"
proof (cases ev)
  case (Got_request i opts)
  show ?thesis using follow_rcr assms by (simp only: code_event.simps Got_request)
next
  case (Got_ack i)
  show ?thesis using follow_rca assms by (simp only: code_event.simps Got_ack)
next
  case (Got_nak i)
  show ?thesis using follow_rcn assms by (simp only: code_event.simps Got_nak)
next
  case (Got_term_request i)
  show ?thesis using follow_rtr assms by (simp only: code_event.simps Got_term_request)
next
  case Got_term_ack
  show ?thesis using follow_rta assms by (simp only: code_event.simps Got_term_ack)
next
  case Got_reject
  show ?thesis using follow_rxj assms by (simp only: code_event.simps Got_reject)
next
  case Expired
  show ?thesis using follow_expired assms by (simp only: code_event.simps Expired)
qed

lemma opened_fsm:
  "fsm_for PROTO_LCP (ppp_open (ppp_init None)) =
    \<lparr>fsm_state = S_REQSENT, next_id = 2, last_req_id = 1, restarts = 9, failures = 5, req_opts = 1 OR 2,
     restart_at_ms = 3000, timer_running = True\<rparr>"
  by (simp add: ppp_open_def ppp_init_def Let_def restart_start_def spend_restart_def fresh_id_def irc_def
      fsm_zero_def) (simp add: fsm_for_def)

theorem automaton_follows_rfc1661_witness:
  "code_event PROTO_LCP (Got_request 7 [1, 4, 5, 220]) (ppp_open (ppp_init None)) =
   table_event PROTO_LCP (Got_request 7 [1, 4, 5, 220]) (ppp_open (ppp_init None))"
  by (rule automaton_follows_rfc1661) (simp_all add: opened_fsm fsm_ok_def)

end
