(* ===== verification/PppRun.thy ===== *)
theory PppRun
  imports PppFsm
begin

text \<open>
  Histories of the PPP peer: the invariant every call keeps, the silent guest, the guest that
  negotiates, and the places where the automaton leaves the table.
\<close>

subsection \<open>The invariant\<close>

definition line_ok :: "ppp_peer \<Rightarrow> bool" where
  "line_ok p \<longleftrightarrow> length (rxbuf p) \<le> ppp_max_frame \<and> unat (tx_used p) \<le> ppp_tx_ring \<and> unat (peer_mru p) \<le> ppp_mru_default"

definition net_ok :: "ppp_peer \<Rightarrow> bool" where
  "net_ok p \<longleftrightarrow> (fsm_state (ipcp p) = S_OPENED \<longrightarrow> assigned p \<and> assigned_ip p = remote_ip (cfg p))"

definition link_inv :: "ppp_peer \<Rightarrow> bool" where
  "link_inv p \<longleftrightarrow> fsm_ok (lcp p) \<and> fsm_ok (ipcp p) \<and> net_ok p \<and> line_ok p"

lemma line_cong:
  "rxbuf q = rxbuf p \<Longrightarrow> tx_head q = tx_head p \<Longrightarrow> tx_tail q = tx_tail p \<Longrightarrow> peer_mru q = peer_mru p \<Longrightarrow>
   line_ok q = line_ok p"
  by (simp add: line_ok_def tx_used_def)

lemma line_tx_frame:
  assumes "line_ok p" shows "line_ok (tx_frame proto info p)"
proof (cases "ppp_frame proto info (tx_accm p) 3014")
  case None
  then show ?thesis using assms by (simp add: tx_frame_def count_overflow_def line_ok_def tx_used_def)
next
  case (Some enc)
  show ?thesis
  proof (cases "(of_nat (length enc) :: u64) > 12056 - tx_used p")
    case True
    then show ?thesis using assms Some by (simp add: tx_frame_def count_overflow_def line_ok_def tx_used_def)
  next
    case False
    have n: "length enc \<le> 3014"
      using Some by (auto simp: ppp_frame_stuffed split: if_splits)
    have u: "unat (tx_used p) \<le> 12056" using assms by (simp add: line_ok_def)
    have "unat (12056 - tx_used p) = 12056 - unat (tx_used p)"
      using assms by (subst unat_sub) (simp_all add: line_ok_def word_le_nat_alt)
    then have "length enc + unat (tx_used p) \<le> 12056"
      using False n u by (simp add: word_less_nat_alt unat_of_nat_len)
    moreover have "unat (tx_head p + of_nat (length enc) - tx_tail p) \<le> length enc + unat (tx_head p - tx_tail p)"
    proof -
      have "tx_head p + of_nat (length enc) - tx_tail p = of_nat (length enc) + (tx_head p - tx_tail p)"
        by (simp add: algebra_simps)
      then show ?thesis
        by (simp only: unat_word_ariths) (use n in \<open>simp add: unat_of_nat_len\<close>)
    qed
    ultimately show ?thesis
      using assms Some False by (simp add: tx_frame_def line_ok_def tx_used_def unat_ucast_u64)
  qed
qed

lemma line_send [simp]: "line_ok p \<Longrightarrow> line_ok (send_cp proto code i body p)"
  unfolding send_cp_def
  by (auto intro: line_tx_frame) (simp add: count_overflow_def line_ok_def tx_used_def)

lemma line_fsm [simp]:
  "line_ok (p\<lparr>lcp := f\<rparr>) = line_ok p" "line_ok (p\<lparr>ipcp := f\<rparr>) = line_ok p"
  "line_ok (p\<lparr>assigned := b\<rparr>) = line_ok p" "line_ok (p\<lparr>assigned_ip := a\<rparr>) = line_ok p"
  "line_ok (p\<lparr>now_ms := t\<rparr>) = line_ok p" "line_ok (p\<lparr>stats := s\<rparr>) = line_ok p"
  "line_ok (p\<lparr>opened := b\<rparr>) = line_ok p" "line_ok (p\<lparr>cfg := c\<rparr>) = line_ok p"
  "line_ok (p\<lparr>our_magic := m\<rparr>) = line_ok p" "line_ok (p\<lparr>sunk := l\<rparr>) = line_ok p"
  "line_ok (p\<lparr>ip_sink := b\<rparr>) = line_ok p"
  by (simp_all add: line_ok_def tx_used_def)

lemma line_upd [simp]: "line_ok (fsm_upd proto g p) = line_ok p" "line_ok (set_state proto s p) = line_ok p"
  by (simp_all add: fsm_upd_def set_state_def)

lemma line_scr [simp]: "line_ok p \<Longrightarrow> line_ok (scr proto fresh p)" "line_ok p \<Longrightarrow> line_ok (sta proto i p)"
    "line_ok p \<Longrightarrow> line_ok (term_req proto p)"
  by (simp_all add: scr_def sta_def term_req_def Let_def)

lemma line_layer [simp]: "line_ok p \<Longrightarrow> line_ok (tlu proto p)" "line_ok p \<Longrightarrow> line_ok (tld proto p)"
  by (simp_all add: tlu_def tld_def ipcp_start_def)

text \<open>Both automata after each building block.\<close>

lemma fsm_pair [simp]:
  "lcp (scr PROTO_LCP fresh p) = restart_start (now_ms p) (spend_restart ((if fresh then fresh_id else id) (lcp p)))"
  "ipcp (scr PROTO_LCP fresh p) = ipcp p"
  "ipcp (scr PROTO_IPCP fresh p) = restart_start (now_ms p) (spend_restart ((if fresh then fresh_id else id) (ipcp p)))"
  "lcp (scr PROTO_IPCP fresh p) = lcp p"
  "lcp (sta proto i p) = lcp p" "ipcp (sta proto i p) = ipcp p"
  "lcp (set_state PROTO_LCP s p) = (lcp p)\<lparr>fsm_state := s\<rparr>"
  "ipcp (set_state PROTO_IPCP s p) = (ipcp p)\<lparr>fsm_state := s\<rparr>"
  "assigned (scr proto fresh p) = assigned p" "assigned (sta proto i p) = assigned p"
  "assigned_ip (scr proto fresh p) = assigned_ip p" "assigned_ip (sta proto i p) = assigned_ip p"
  "assigned_ip (set_state proto s p) = assigned_ip p"
  "cfg (set_state proto s p) = cfg p" "cfg (sta proto i p) = cfg p"
  "lcp (tld PROTO_LCP p) = lcp p" "ipcp (tld PROTO_LCP p) = restart_stop ((ipcp p)\<lparr>fsm_state := S_INITIAL\<rparr>)"
  "lcp (tld PROTO_IPCP p) = lcp p" "ipcp (tld PROTO_IPCP p) = ipcp p"
  "cfg (tld proto p) = cfg p" "lcp (tlu PROTO_LCP p) = lcp p" "lcp (tlu PROTO_IPCP p) = lcp p"
  "ipcp (tlu PROTO_IPCP p) = ipcp p" "cfg (tlu proto p) = cfg p"
  "ipcp (tlu PROTO_LCP p) = restart_start (now_ms p)
     (spend_restart (fresh_id (irc 10 ((ipcp p)\<lparr>fsm_state := S_REQSENT, req_opts := 1\<rparr>))))"
  "assigned (tlu PROTO_IPCP p)" "assigned_ip (tlu PROTO_IPCP p) = remote_ip (cfg p)"
  by (simp_all add: scr_def sta_def set_state_def tld_def tlu_def ipcp_start_def Let_def fsm_for_def)

lemma spend_le: "restarts f \<le> 10 \<Longrightarrow> restarts (spend_restart f) \<le> 10"
  by (cases "restarts f = 0") (simp_all add: spend_restart_def word_le_nat_alt unat_minus_one)

lemma dec_le: "n \<le> k \<Longrightarrow> n \<noteq> 0 \<Longrightarrow> (n :: u8) - 1 \<le> k"
  by (simp add: word_le_nat_alt unat_minus_one)

lemmas inv_simps = link_inv_def fsm_ok_def net_ok_def spend_le dec_le

abbreviation control :: "u16 \<Rightarrow> bool" where
  "control proto \<equiv> proto = PROTO_LCP \<or> proto = PROTO_IPCP"

lemma inv_rca: "control proto \<Longrightarrow> link_inv p \<Longrightarrow> link_inv (ev_rca proto i p)"
  by (elim disjE; cases "fsm_state (fsm_for proto p)"; simp add: ev_rca_def fsm_for_def inv_simps)

lemma inv_rcn: "control proto \<Longrightarrow> link_inv p \<Longrightarrow> link_inv (ev_rcn proto i p)"
  by (elim disjE; cases "fsm_state (fsm_for proto p)"; simp add: ev_rcn_def fsm_for_def inv_simps)

lemma inv_rtr: "control proto \<Longrightarrow> link_inv p \<Longrightarrow> link_inv (ev_rtr proto i p)"
  by (elim disjE; cases "fsm_state (fsm_for proto p)"; simp add: ev_rtr_def fsm_for_def inv_simps)

lemma inv_rta: "control proto \<Longrightarrow> link_inv p \<Longrightarrow> link_inv (ev_rta proto p)"
  by (elim disjE; cases "fsm_state (fsm_for proto p)"; simp add: ev_rta_def fsm_for_def inv_simps)

lemma inv_rxj: "control proto \<Longrightarrow> link_inv p \<Longrightarrow> link_inv (ev_rxj proto p)"
  by (elim disjE; cases "fsm_state (fsm_for proto p)"; simp add: ev_rxj_def Let_def fsm_for_def inv_simps)

lemma inv_expired: "control proto \<Longrightarrow> link_inv p \<Longrightarrow> link_inv (restart_timeout proto p)"
  by (elim disjE; cases "fsm_state (fsm_for proto p)"; simp add: restart_timeout_def Let_def fsm_for_def inv_simps)

lemma review_line: "opt_review proto opt p = (v, one, q) \<Longrightarrow> line_ok p \<Longrightarrow> line_ok q"
proof -
  assume a: "opt_review proto opt p = (v, one, q)" and l: "line_ok p"
  have m: "unat (push_bit 8 (ucast a) OR ucast b :: u16) \<le> 1500"
    if "\<not> (push_bit 8 (ucast a) OR ucast b :: u32) > 1500" for a b :: u8
  proof -
    have "(push_bit 8 (ucast a) OR ucast b :: u16) = ucast (push_bit 8 (ucast a) OR ucast b :: u32)"
      by (rule bit_word_eqI) (auto simp: bit_simps dest: bit_imp_le_length)
    then show ?thesis
      using that by (simp add: unsigned_ucast_eq word_less_nat_alt not_less)
        (meson le_trans take_bit_nat_less_eq_self)
  qed
  show ?thesis
    using a l m by (auto simp: opt_review_def lcp_review_def ipcp_review_def Let_def line_ok_def tx_used_def split: if_splits)
qed

lemma walk_line: "confreq_walk proto opts rej nak p = (out, q) \<Longrightarrow> line_ok p \<Longrightarrow> line_ok q"
proof (induction proto opts rej nak p rule: confreq_walk.induct)
  case (1 proto opts rej nak p)
  then show ?case
    by (subst (asm) (2) confreq_walk.simps) (auto simp: Let_def split: if_splits prod.splits dest: review_line)
qed

lemma classify_inv: "classify_confreq proto opts p = (r, resp, q) \<Longrightarrow> link_inv p \<Longrightarrow> link_inv q"
  using classify_fields [of proto opts p r resp q]
  by (auto simp: link_inv_def net_ok_def classify_confreq_def split: option.splits prod.splits if_splits dest: walk_line)

lemma inv_rcr: "control proto \<Longrightarrow> link_inv p \<Longrightarrow> link_inv (ev_rcr proto i opts p)"
proof -
  assume a: "control proto" "link_inv p"
  obtain r resp q where c: "classify_confreq proto opts p = (r, resp, q)" by (cases "classify_confreq proto opts p")
  have q: "fsm_for proto q = fsm_for proto p" "link_inv q"
    using classify_fields [OF c] classify_inv [OF c a(2)] by (simp_all add: fsm_for_def)
  show ?thesis
    using a q c
    by (elim disjE; cases "fsm_state (fsm_for proto p)"; cases r; simp add: ev_rcr_def Let_def fsm_for_def inv_simps)
qed

lemma inv_cong:
  "lcp q = lcp p \<Longrightarrow> ipcp q = ipcp p \<Longrightarrow> assigned q = assigned p \<Longrightarrow> assigned_ip q = assigned_ip p \<Longrightarrow>
   remote_ip (cfg q) = remote_ip (cfg p) \<Longrightarrow> line_ok p \<Longrightarrow> line_ok q \<Longrightarrow> link_inv p \<Longrightarrow> link_inv q"
  by (simp add: link_inv_def net_ok_def)

lemma inv_take_nak: "link_inv p \<Longrightarrow> link_inv (take_nak proto opts p)"
  by (simp add: take_nak_def link_inv_def net_ok_def)

lemma inv_nak: "link_inv p \<Longrightarrow> link_inv (apply_nak proto opts p)"
proof (induction proto opts p rule: apply_nak.induct)
  case (1 proto opts p)
  then show ?case
    by (subst apply_nak.simps) (simp add: Let_def inv_take_nak)
qed

lemma inv_drop_opt: "link_inv p \<Longrightarrow> link_inv (drop_opt proto kind p)"
  by (simp add: drop_opt_def Let_def link_inv_def fsm_ok_def net_ok_def)

lemma inv_rej: "link_inv p \<Longrightarrow> link_inv (apply_rej proto opts p)"
proof (induction proto opts p rule: apply_rej.induct)
  case (1 proto opts p)
  then show ?case
    by (subst apply_rej.simps) (simp add: Let_def inv_drop_opt)
qed

lemma inv_send: "link_inv p \<Longrightarrow> link_inv (send_cp proto code i body p)"
  by (simp add: link_inv_def net_ok_def)

lemma inv_stats [simp]: "link_inv (p\<lparr>stats := s\<rparr>) = link_inv p"
  by (simp add: link_inv_def net_ok_def)

lemma inv_cp_input: "control proto \<Longrightarrow> link_inv p \<Longrightarrow> link_inv (cp_input proto pkt p)"
  by (auto simp: cp_input_def Let_def echo_reply_def code_reject_def
      intro!: inv_rcr inv_rca inv_rcn inv_rtr inv_rta inv_rxj inv_nak inv_rej inv_send)
    (auto simp: link_inv_def net_ok_def fsm_upd_def fsm_ok_def)

lemma inv_dispatch: "link_inv p \<Longrightarrow> link_inv (frame_dispatch proto info p)"
  by (auto simp: frame_dispatch_def ip_input_def proto_reject_def Let_def
      intro!: inv_cp_input inv_send) (auto simp: link_inv_def net_ok_def fsm_ok_def)

lemma inv_frame: "link_inv p \<Longrightarrow> link_inv (frame_input fr p)"
  by (simp add: frame_input_def Let_def count_short_def inv_dispatch)

lemma inv_input_byte: "link_inv p \<Longrightarrow> link_inv (ppp_input_byte b p)"
proof -
  assume inv: "link_inv p"
  have flag: "link_inv (q\<lparr>rxbuf := [], escaped := False, overlong := False, in_frame := True\<rparr>)" if "link_inv q" for q
    using that by (simp add: link_inv_def net_ok_def line_ok_def tx_used_def)
  have octet: "link_inv (q\<lparr>escaped := False, rxbuf := bs\<rparr>)" if "link_inv q" "length bs \<le> 1506" for q bs
    using that by (simp add: link_inv_def net_ok_def line_ok_def tx_used_def)
  have marks: "link_inv (q\<lparr>escaped := e\<rparr>) = link_inv q" "link_inv (q\<lparr>overlong := v\<rparr>) = link_inv q" for q e v
    by (simp_all add: link_inv_def net_ok_def line_ok_def tx_used_def)
  show ?thesis
    using inv by (auto simp: ppp_input_byte_def Let_def marks inv_frame intro!: flag octet)
qed

lemma inv_tick: "link_inv p \<Longrightarrow> link_inv (ppp_tick t p)"
proof -
  assume "link_inv p"
  then have "link_inv (p\<lparr>now_ms := t\<rparr>)" by (simp add: link_inv_def net_ok_def)
  then show ?thesis
    using \<open>link_inv p\<close> by (simp add: ppp_tick_def Let_def inv_expired)
qed

lemma inv_output_byte: "link_inv p \<Longrightarrow> link_inv (snd (ppp_output_byte p))"
proof (cases "tx_head p = tx_tail p")
  case False
  assume inv: "link_inv p"
  have "tx_head p - tx_tail p \<noteq> 0" using False by simp
  then have "unat (tx_head p - tx_tail p - 1) \<le> unat (tx_head p - tx_tail p)"
    by (metis unat_minus_one diff_le_self)
  then have "unat (tx_head p - (tx_tail p + 1)) \<le> unat (tx_head p - tx_tail p)"
    by (simp only: diff_diff_eq)
  then show ?thesis
    using inv False
    by (simp add: ppp_output_byte_def link_inv_def net_ok_def line_ok_def tx_used_def unat_ucast_u64)
qed (simp add: ppp_output_byte_def)

lemma inv_output: "link_inv p \<Longrightarrow> link_inv (snd (ppp_output n p))"
proof (induction n arbitrary: p)
  case (Suc n)
  then show ?case
    using inv_output_byte [OF Suc.prems] by (auto split: prod.splits option.splits) (metis snd_conv)
qed simp

lemma inv_init: "link_inv (ppp_init c)"
  by (simp add: ppp_init_def fsm_zero_def Let_def link_inv_def fsm_ok_def net_ok_def line_ok_def tx_used_def)

lemma inv_open: "link_inv p \<Longrightarrow> link_inv (ppp_open p)"
  by (simp add: ppp_open_def inv_simps)

lemma inv_close: "link_inv p \<Longrightarrow> link_inv (ppp_close p)"
  by (auto simp: ppp_close_def Let_def inv_simps term_req_def)

lemma tx_frame_fields [simp]:
  "lcp (tx_frame proto info p) = lcp p" "ipcp (tx_frame proto info p) = ipcp p" "cfg (tx_frame proto info p) = cfg p"
  "assigned (tx_frame proto info p) = assigned p" "assigned_ip (tx_frame proto info p) = assigned_ip p"
  by (simp_all add: tx_frame_def count_overflow_def split: option.split)

lemma inv_tx_frame: "link_inv p \<Longrightarrow> link_inv (tx_frame proto info p)"
  by (simp add: link_inv_def net_ok_def line_tx_frame)

lemma inv_send_ip: "link_inv p \<Longrightarrow> link_inv (snd (ppp_send_ip pkt p))"
  by (simp add: ppp_send_ip_def Let_def inv_tx_frame count_overflow_def)

text \<open>The calls a caller can make, and a history of them.\<close>

datatype ppp_call = Input "u8 list" | Tick u32 | Output nat | Open | Close | Send_ip "u8 list" | Set_sink bool

fun ppp_do :: "ppp_call \<Rightarrow> ppp_peer \<Rightarrow> ppp_peer" where
  "ppp_do (Input bs) p = ppp_input bs p"
| "ppp_do (Tick t) p = ppp_tick t p"
| "ppp_do (Output n) p = snd (ppp_output n p)"
| "ppp_do Open p = ppp_open p"
| "ppp_do Close p = ppp_close p"
| "ppp_do (Send_ip pkt) p = snd (ppp_send_ip pkt p)"
| "ppp_do (Set_sink b) p = ppp_set_ip_sink b p"

lemma inv_input: "link_inv p \<Longrightarrow> link_inv (ppp_input bs p)"
  unfolding ppp_input_def by (induction bs arbitrary: p) (simp_all add: inv_input_byte)

lemma inv_call: "link_inv p \<Longrightarrow> link_inv (ppp_do c p)"
  by (cases c) (simp_all add: inv_input inv_tick inv_output inv_open inv_close inv_send_ip,
      simp add: ppp_set_ip_sink_def link_inv_def net_ok_def)

text \<open>C30. Whatever a guest sends and a caller asks for, in whatever order, the peer stays well
  formed: an automaton's timer runs exactly when its state waits for an answer, the counters stay within
  Max-Configure and Max-Failure, the assembled frame and the queued octets stay inside their arrays, the
  accepted MRU never exceeds 1500, and IPCP is opened only with the configured address assigned.\<close>

theorem ppp_histories_sound: "link_inv (fold ppp_do calls (ppp_init c))"
proof -
  have "link_inv p \<Longrightarrow> link_inv (fold ppp_do calls p)" for p
    by (induction calls arbitrary: p) (simp_all add: inv_call)
  then show ?thesis using inv_init by blast
qed


subsection \<open>A silent guest\<close>

text \<open>The octets of a control packet on the line, and of our Configure-Request.\<close>

definition cp_packet :: "u8 \<Rightarrow> u8 \<Rightarrow> u8 list \<Rightarrow> u8 list" where
  "cp_packet code i body =
     [code, i, ucast (drop_bit 8 (of_nat (length body + 4) :: u64)),
       ucast ((of_nat (length body + 4) :: u64) AND 0xff)] @ body"



lemma length_cp_packet [simp]: "length (cp_packet code i body) = length body + 4"
  by (simp add: cp_packet_def)


lemma tx_same [simp]:
  "tx_queue (p\<lparr>now_ms := u\<rparr>) = tx_queue p" "tx_wf (p\<lparr>now_ms := u\<rparr>) = tx_wf p"
  "tx_queue (fsm_upd proto g p) = tx_queue p" "tx_wf (fsm_upd proto g p) = tx_wf p"
  "tx_queue (set_state proto s p) = tx_queue p" "tx_wf (set_state proto s p) = tx_wf p"
  by (simp_all add: tx_wf_def tx_queue_def tx_used_def fsm_upd_def set_state_def)



















subsection \<open>Negotiation\<close>



lemma length_put_be32 [simp]: "length (put_be32 v) = 4"
  by (simp add: put_be32_def)

lemma walk_Nil [simp]: "confreq_walk proto [] rej nak p = (Some (rej, nak), p)"
  by (simp add: confreq_walk.simps)


lemma walk_two [simp]:
  "confreq_walk proto (kind # 2 # rest) rej nak p =
   (case opt_review proto [kind, 2] p of (r, one, p) \<Rightarrow>
      confreq_walk proto rest
        (if r = OPT_REJ \<and> length rej + 2 \<le> 1500 then rej @ [kind, 2] else rej)
        (if r = OPT_NAK \<and> length nak + length one \<le> 1500 then nak @ one else nak) p)"
  by (subst confreq_walk.simps) (simp cong: if_cong)





text \<open>The control packet that carries \<open>body\<close>, as \<open>cp_input\<close> reads it back.\<close>

lemma cp_packet_input:
  assumes "length body \<le> 1496"
  shows "cp_input proto (cp_packet code i body) p =
    (if code = 1 then ev_rcr proto i body p
     else if code = 2 then ev_rca proto i p
     else if code = 3 then
       ev_rcn proto i (if i = last_req_id (fsm_for proto p) then apply_nak proto body p else p)
     else if code = 4 then
       ev_rcn proto i (if i = last_req_id (fsm_for proto p) then apply_rej proto body p else p)
     else if code = 5 then ev_rtr proto i p
     else if code = 6 then ev_rta proto p
     else if code = 7 \<or> code = 8 then ev_rxj proto p
     else if code = 9 then echo_reply proto i body p
     else if code = 10 \<or> code = 11 then p
     else code_reject proto (cp_packet code i body) p)"
proof -
  define w where "w = (of_nat (length body + 4) :: u64)"
  have w: "unat w = length body + 4"
    unfolding w_def using assms by (intro unat_of_nat_len) simp
  moreover from this have "take_bit 16 w = w"
    using assms by (simp add: word_unat_eq_iff unsigned_take_bit_eq take_bit_nat_eq_self)
  ultimately have w: "unat w = length body + 4" "take_bit 16 w = w" by simp_all
  have "push_bit 8 (ucast (ucast (drop_bit 8 w) :: u8)) OR ucast (ucast (w AND 0xff) :: u8) = take_bit 16 w"
    by (rule bit_word_eqI) (auto simp: bit_simps bit_low_eq [where k = 8] dest: bit_imp_le_length)
  then have "unat (push_bit 8 (ucast (cp_packet code i body ! 2)) OR ucast (cp_packet code i body ! 3) :: u64) = length body + 4"
    unfolding cp_packet_def w_def [symmetric] using w by simp
  moreover have "cp_packet code i body ! 0 = code" "cp_packet code i body ! 1 = i" "drop 4 (cp_packet code i body) = body"
    by (simp_all add: cp_packet_def)
  ultimately show ?thesis
    by (simp add: cp_input_def)
qed


definition guest_talk :: "(u16 \<times> u8 list) list \<Rightarrow> ppp_peer \<Rightarrow> ppp_peer" where
  "guest_talk pkts p = fold (\<lambda>(proto, pkt). frame_dispatch proto pkt) pkts p"

text \<open>The part of the peer that negotiation is about.\<close>

definition talk :: "ppp_peer \<Rightarrow> ppp_state \<times> ppp_state \<times> u8 \<times> u8 \<times> u8 \<times> u32 \<times> u32 \<times> bool \<times> u32" where
  "talk p = (fsm_state (lcp p), fsm_state (ipcp p), last_req_id (lcp p), last_req_id (ipcp p), next_id (ipcp p),
     our_magic p, remote_ip (cfg p), assigned p, assigned_ip p)"

lemma id_helpers [simp]:
  "last_req_id (restart_start t f) = last_req_id f" "next_id (restart_start t f) = next_id f"
  "last_req_id (spend_restart f) = last_req_id f" "next_id (spend_restart f) = next_id f"
  "last_req_id (irc k f) = last_req_id f" "next_id (irc k f) = next_id f"
  "last_req_id (restart_stop f) = last_req_id f" "next_id (restart_stop f) = next_id f"
  "last_req_id (fresh_id f) = next_id f" "next_id (fresh_id f) = next_id f + 1"
  by (simp_all add: restart_start_def spend_restart_def irc_def restart_stop_def fresh_id_def)

lemma magic_helpers [simp]:
  "our_magic (set_state proto s p) = our_magic p" "our_magic (scr proto fresh p) = our_magic p"
  "our_magic (tlu proto p) = our_magic p"
  "assigned (tlu PROTO_LCP p) = assigned p" "assigned_ip (tlu PROTO_LCP p) = assigned_ip p"
  by (simp_all add: set_state_def scr_def tlu_def ipcp_start_def Let_def)

lemma talk_stats: "talk (p\<lparr>stats := s\<rparr>) = talk p"
  by (simp add: talk_def)

lemma dispatch_control:
  "control proto \<Longrightarrow> frame_dispatch proto pkt p =
     cp_input proto pkt (p\<lparr>stats := (stats p)\<lparr>frames_in := frames_in (stats p) + 1\<rparr>\<rparr>)"
  by (auto simp: frame_dispatch_def)







lemma talk_open: "talk (ppp_open (ppp_init (Some c))) =
    (S_REQSENT, S_INITIAL, 1, 0, 1, cfg_magic c, remote_ip c, False, 0)"
  by (simp add: talk_def ppp_open_def ppp_init_def Let_def fsm_zero_def)




subsection \<open>Where the automaton leaves the table\<close>

lemma retransmit_state:
  "fsm_state (fsm_for proto p) = S_ACKRCVD \<Longrightarrow> restarts (fsm_for proto p) \<noteq> 0 \<Longrightarrow>
   fsm_state (fsm_for proto (code_event proto Expired p)) = S_ACKRCVD \<and>
   fsm_state (fsm_for proto (table_event proto Expired p)) = S_REQSENT"
  by (simp add: restart_timeout_def rfc_cell_def rfc_enter_def)

lemma talk_reject:
  assumes "talk p = (s, t, a, b, n, m, r, up, ip)"
  shows "talk (frame_dispatch PROTO_IPCP (cp_packet 7 i []) p) = (s, S_STOPPED, a, b, n, m, r, up, ip)"
  using assms by (simp add: dispatch_control cp_packet_input ev_rxj_def Let_def talk_def set_state_def)

lemma talk_stopped_request:
  assumes "talk p = (s, S_STOPPED, a, b, n, m, r, up, ip)"
  shows "talk (frame_dispatch PROTO_IPCP (cp_packet 1 i []) p) = (s, S_ACKSENT, a, n, n + 1, m, r, up, ip)"
  using assms
  by (simp add: dispatch_control cp_packet_input ev_rcr_def fsm_for_def classify_confreq_def Let_def talk_def)

lemma talk_ncp_ack:
  assumes "talk p = (s, S_ACKSENT, a, b, n, m, r, up, ip)"
  shows "talk (frame_dispatch PROTO_IPCP (cp_packet 2 b []) p) = (s, S_OPENED, a, b, n, m, r, True, r)"
  using assms by (simp add: dispatch_control cp_packet_input ev_rca_def fsm_for_def talk_def)

text \<open>C33. Two departures. A peer nobody opened, with LCP still in Initial, is talked into the open
  phase by three IPCP packets, a Code-Reject, an empty Configure-Request and an Ack: a reject moves IPCP to
  Stopped from any state, and Stopped answers. And when the timer expires in Ack-Rcvd the request is sent
  again but the state is kept, where the table returns to Req-Sent.\<close>

theorem automaton_departures:
  "(let p = guest_talk [(PROTO_IPCP, cp_packet 7 0 []), (PROTO_IPCP, cp_packet 1 9 []), (PROTO_IPCP, cp_packet 2 1 [])]
        (ppp_init (Some c))
    in ppp_phase p = PHASE_OPEN \<and> assigned p \<and> fsm_state (lcp p) = S_INITIAL) \<and>
   (let p = code_event PROTO_LCP (Got_ack 1) (ppp_open (ppp_init (Some c)))
    in fsm_state (lcp (code_event PROTO_LCP Expired p)) = S_ACKRCVD \<and>
       fsm_state (lcp (table_event PROTO_LCP Expired p)) = S_REQSENT)"
proof -
  have t0: "talk (ppp_init (Some c)) = (S_INITIAL, S_INITIAL, 0, 0, 1, cfg_magic c, remote_ip c, False, 0)"
    by (simp add: talk_def ppp_init_def Let_def fsm_zero_def)
  note t3 = talk_ncp_ack [OF talk_stopped_request [OF talk_reject [OF t0, of 0], of 9]]
  have "let p = guest_talk [(PROTO_IPCP, cp_packet 7 0 []), (PROTO_IPCP, cp_packet 1 9 []), (PROTO_IPCP, cp_packet 2 1 [])]
        (ppp_init (Some c))
    in ppp_phase p = PHASE_OPEN \<and> assigned p \<and> fsm_state (lcp p) = S_INITIAL"
    using t3 unfolding talk_def prod.inject by (simp add: guest_talk_def ppp_phase_def)
  moreover define p where "p = code_event PROTO_LCP (Got_ack 1) (ppp_open (ppp_init (Some c)))"
  moreover have "fsm_state (fsm_for PROTO_LCP p) = S_ACKRCVD" "restarts (fsm_for PROTO_LCP p) \<noteq> 0"
    using talk_open [of c] by (simp_all add: p_def ev_rca_def fsm_for_def talk_def)
  ultimately show ?thesis
    using retransmit_state [of PROTO_LCP p] by (simp add: fsm_for_def)
qed

end
