(* ===== verification/Sha1.thy ===== *)
theory Sha1
  imports Prelude
begin

text \<open>
  SHA-1 and HMAC-SHA1 of app/Sources/VMFirmwareDigest.c, which derive the block IVs of an encrypted
  disk image: the streaming context with its refusals, finalisation and the one-shot wrappers, against
  a reference digest of the whole padded message. \<open>size_t\<close> is 64 bits, so a length is a natural number
  below 2^64; a pointer argument is \<open>None\<close> for NULL. The clearing of scratch buffers is kept where the
  context shows it.
\<close>

subsection \<open>The code\<close>

record sha1_ctx =
  hash_state :: "u32 list"
  total_bytes :: u64
  hash_block :: "u8 list"
  block_used :: nat
  finalized :: bool

abbreviation SHA1_BLOCK :: nat where "SHA1_BLOCK \<equiv> 64"

definition SHA1_MAX_INPUT :: u64 where "SHA1_MAX_INPUT = - 1 div 8"

definition rotate_left :: "u32 \<Rightarrow> nat \<Rightarrow> u32" where
  "rotate_left v count = push_bit count v OR drop_bit (32 - count) v"

definition load_be32 :: "u8 list \<Rightarrow> nat \<Rightarrow> u32" where
  "load_be32 bs i = push_bit 24 (ucast (bs ! i)) OR push_bit 16 (ucast (bs ! (i + 1)))
     OR push_bit 8 (ucast (bs ! (i + 2))) OR ucast (bs ! (i + 3))"

definition store_be32 :: "u32 \<Rightarrow> u8 list" where
  "store_be32 v = [ucast (drop_bit 24 v), ucast (drop_bit 16 v), ucast (drop_bit 8 v), ucast v]"

text \<open>The message schedule, grown from its first sixteen words.\<close>

primrec sha1_extend :: "nat \<Rightarrow> u32 list \<Rightarrow> u32 list" where
  "sha1_extend 0 w = w"
| "sha1_extend (Suc n) w =
     sha1_extend n (w @ [rotate_left (w ! (length w - 3) XOR w ! (length w - 8)
                           XOR w ! (length w - 14) XOR w ! (length w - 16)) 1])"

definition sha1_words :: "u8 list \<Rightarrow> u32 list" where
  "sha1_words block = sha1_extend 64 (map (\<lambda>i. load_be32 block (i * 4)) [0..<16])"

definition sha1_mix :: "nat \<Rightarrow> u32 \<Rightarrow> u32 \<Rightarrow> u32 \<Rightarrow> u32 \<times> u32" where
  "sha1_mix i b c d =
     (if i < 20 then ((b AND c) OR (NOT b AND d), 0x5a827999)
      else if i < 40 then (b XOR c XOR d, 0x6ed9eba1)
      else if i < 60 then ((b AND c) OR (b AND d) OR (c AND d), 0x8f1bbcdc)
      else (b XOR c XOR d, 0xca62c1d6))"

type_synonym sha1_regs = "u32 \<times> u32 \<times> u32 \<times> u32 \<times> u32"

fun sha1_round :: "u32 list \<Rightarrow> nat \<Rightarrow> sha1_regs \<Rightarrow> sha1_regs" where
  "sha1_round words i (a, b, c, d, e) =
     (case sha1_mix i b c d of (mix, konst) \<Rightarrow>
        (rotate_left a 5 + mix + e + konst + words ! i, a, rotate_left b 30, c, d))"

definition transform :: "u8 list \<Rightarrow> u32 list \<Rightarrow> u32 list" where
  "transform block st =
     (case fold (sha1_round (sha1_words block)) [0..<80] (st ! 0, st ! 1, st ! 2, st ! 3, st ! 4) of
        (a, b, c, d, e) \<Rightarrow> [st ! 0 + a, st ! 1 + b, st ! 2 + c, st ! 3 + d, st ! 4 + e])"

definition sha1_start :: "u32 list" where
  "sha1_start = [0x67452301, 0xefcdab89, 0x98badcfe, 0x10325476, 0xc3d2e1f0]"

definition sha1_init :: sha1_ctx where
  "sha1_init = \<lparr>hash_state = sha1_start, total_bytes = 0, hash_block = replicate SHA1_BLOCK 0,
     block_used = 0, finalized = False\<rparr>"

text \<open>The loop over whole blocks of the caller's buffer; the state and the ragged tail.\<close>

function sha1_blocks :: "u8 list \<Rightarrow> u32 list \<Rightarrow> u32 list \<times> u8 list" where
  "sha1_blocks bs st =
     (if length bs \<ge> SHA1_BLOCK then sha1_blocks (drop SHA1_BLOCK bs) (transform (take SHA1_BLOCK bs) st)
      else (st, bs))"
  by pat_completeness auto
termination
  by (relation "measure (\<lambda>(bs, st). length bs)") auto

declare sha1_blocks.simps [simp del]

definition sha1_refuses :: "sha1_ctx \<Rightarrow> bool" where
  "sha1_refuses ctx \<longleftrightarrow>
     finalized ctx \<or> block_used ctx \<ge> SHA1_BLOCK \<or> total_bytes ctx > SHA1_MAX_INPUT"

definition sha1_update :: "u8 list option \<Rightarrow> nat \<Rightarrow> sha1_ctx \<Rightarrow> bool \<times> sha1_ctx" where
  "sha1_update data len ctx =
     (if len \<noteq> 0 \<and> data = None \<or> sha1_refuses ctx then (False, ctx)
      else if len > unat SHA1_MAX_INPUT then (False, ctx)
      else if (of_nat len :: u64) > SHA1_MAX_INPUT - total_bytes ctx then (False, ctx)
      else if len = 0 then (True, ctx)
      else
        let bytes = take len (the data);
            ctx = ctx\<lparr>total_bytes := total_bytes ctx + of_nat len\<rparr>;
            n = min (length bytes) (SHA1_BLOCK - block_used ctx);
            (ctx, bytes) =
              (if block_used ctx \<noteq> 0 then
                 let ctx = ctx\<lparr>hash_block := splice (block_used ctx) (take n bytes) (hash_block ctx),
                               block_used := block_used ctx + n\<rparr>;
                     ctx = (if block_used ctx = SHA1_BLOCK
                            then ctx\<lparr>hash_state := transform (hash_block ctx) (hash_state ctx), block_used := 0\<rparr>
                            else ctx)
                 in (ctx, drop n bytes)
               else (ctx, bytes));
            (st, rest) = sha1_blocks bytes (hash_state ctx);
            ctx = ctx\<lparr>hash_state := st\<rparr>
        in (True, if rest \<noteq> []
                  then ctx\<lparr>hash_block := splice 0 rest (hash_block ctx), block_used := length rest\<rparr>
                  else ctx))"

definition sha1_final :: "sha1_ctx \<Rightarrow> u8 list option \<times> sha1_ctx" where
  "sha1_final ctx =
     (if sha1_refuses ctx then (None, ctx)
      else
        let total_bits = total_bytes ctx * 8;
            block = splice (block_used ctx) [0x80] (hash_block ctx);
            used = block_used ctx + 1;
            (block, used, st) =
              (if used > 56
               then (let block = splice used (replicate (SHA1_BLOCK - used) 0) block
                     in (block, 0, transform block (hash_state ctx)))
               else (block, used, hash_state ctx));
            block = splice used (replicate (56 - used) 0) block;
            block = splice 56 (map (\<lambda>i. ucast (drop_bit (56 - i * 8) total_bits)) [0..<8]) block;
            st = transform block st
        in (Some (concat (map (\<lambda>i. store_be32 (st ! i)) [0..<5])),
            ctx\<lparr>hash_state := st, hash_block := replicate SHA1_BLOCK 0, block_used := 0, finalized := True\<rparr>))"

definition vmfw_sha1 :: "u8 list option \<Rightarrow> nat \<Rightarrow> u8 list option" where
  "vmfw_sha1 data len =
     (if len \<noteq> 0 \<and> data = None then None
      else case sha1_update data len sha1_init of
        (False, ctx) \<Rightarrow> None
      | (True, ctx) \<Rightarrow> fst (sha1_final ctx))"

definition hmac_pass :: "u8 list \<Rightarrow> u8 \<Rightarrow> u8 list option \<Rightarrow> nat \<Rightarrow> u8 list option" where
  "hmac_pass block_key pad data len =
     (case sha1_update (Some (map (\<lambda>b. b XOR pad) block_key)) SHA1_BLOCK sha1_init of
        (False, ctx) \<Rightarrow> None
      | (True, ctx) \<Rightarrow>
          (case sha1_update data len ctx of
             (False, ctx) \<Rightarrow> None
           | (True, ctx) \<Rightarrow> fst (sha1_final ctx)))"

text \<open>The result and what is left in \<open>out\<close>: zeroes on a failure after the argument checks.\<close>

definition vmfw_hmac_sha1 :: "u8 list option \<Rightarrow> nat \<Rightarrow> u8 list option \<Rightarrow> nat \<Rightarrow> bool \<times> u8 list option" where
  "vmfw_hmac_sha1 key key_len msg msg_len =
     (if key_len \<noteq> 0 \<and> key = None \<or> msg_len \<noteq> 0 \<and> msg = None then (False, None)
      else
        case (if key_len > SHA1_BLOCK
              then map_option (\<lambda>h. h @ replicate (SHA1_BLOCK - 20) 0) (vmfw_sha1 key key_len)
              else if key_len \<noteq> 0
              then Some (splice 0 (take key_len (the key)) (replicate SHA1_BLOCK 0))
              else Some (replicate SHA1_BLOCK 0)) of
          None \<Rightarrow> (False, None)
        | Some block_key \<Rightarrow>
            (case hmac_pass block_key 0x36 msg msg_len of
               None \<Rightarrow> (False, Some (replicate 20 0))
             | Some inner \<Rightarrow>
                 (case hmac_pass block_key 0x5c (Some inner) 20 of
                    None \<Rightarrow> (False, Some (replicate 20 0))
                  | Some out \<Rightarrow> (True, Some out))))"

subsection \<open>The reference\<close>

text \<open>The schedule and the compression of FIPS 180-1 by recursion on the round, the padding of a whole
  message, and the digest of its blocks.\<close>

fun W :: "u8 list \<Rightarrow> nat \<Rightarrow> u32" where
  "W block t =
     (if t < 16 then load_be32 block (4 * t)
      else word_rotl 1 (W block (t - 3) XOR W block (t - 8) XOR W block (t - 14) XOR W block (t - 16)))"

declare W.simps [simp del]

primrec fips_rounds :: "u8 list \<Rightarrow> nat \<Rightarrow> sha1_regs \<Rightarrow> sha1_regs" where
  "fips_rounds block 0 r = r"
| "fips_rounds block (Suc t) r =
     (case fips_rounds block t r of (a, b, c, d, e) \<Rightarrow>
        (word_rotl 5 a + fst (sha1_mix t b c d) + e + W block t + snd (sha1_mix t b c d), a, word_rotl 30 b, c, d))"

definition compress :: "u32 list \<Rightarrow> u8 list \<Rightarrow> u32 list" where
  "compress h block =
     (case fips_rounds block 80 (h ! 0, h ! 1, h ! 2, h ! 3, h ! 4) of
        (a, b, c, d, e) \<Rightarrow> [h ! 0 + a, h ! 1 + b, h ! 2 + c, h ! 3 + d, h ! 4 + e])"

definition sha1_pad :: "u8 list \<Rightarrow> u8 list" where
  "sha1_pad msg = msg @ 0x80 # replicate ((119 - length msg mod 64) mod 64) 0 @
     rev (le_put 8 (of_nat (8 * length msg) :: u64))"

fun blocks_of :: "u8 list \<Rightarrow> nat \<Rightarrow> u8 list list" where
  "blocks_of bs 0 = []"
| "blocks_of bs (Suc n) = take 64 bs # blocks_of (drop 64 bs) n"

definition sha1_spec :: "u8 list \<Rightarrow> u8 list" where
  "sha1_spec msg =
     concat (map (\<lambda>w. rev (le_put 4 w))
       (foldl compress sha1_start (blocks_of (sha1_pad msg) (length (sha1_pad msg) div 64))))"

subsection \<open>One block\<close>

lemma rotate_left_rotl: "0 < n \<Longrightarrow> n < 32 \<Longrightarrow> rotate_left v n = word_rotl n v"
proof (rule bit_word_eqI)
  fix i assume n: "0 < n" "n < 32" and i: "i < LENGTH(32)"
  have L: "LENGTH(32) = 32" by simp
  have i: "i < 32" using i by (simp only: L)
  have m: "(i + (32 - n mod 32)) mod 32 = (if n \<le> i then i - n else i + (32 - n))"
    using n i by (auto simp: mod_if)
  have "\<not> bit v (i + (32 - n))" if "n \<le> i"
    using that n i by (auto dest: bit_imp_le_length)
  moreover have "bit (word_rotl n v) i \<longleftrightarrow> bit v (if n \<le> i then i - n else i + (32 - n))"
    unfolding bit_word_rotl_iff L m using i by simp
  moreover have "bit (rotate_left v n) i \<longleftrightarrow> n \<le> i \<and> bit v (i - n) \<or> bit v (i + (32 - n))"
    unfolding rotate_left_def bit_or_iff bit_push_bit_iff bit_drop_bit_eq possible_bit_word L comp_def
    using i by (simp add: add.commute)
  ultimately show "bit (rotate_left v n) i = bit (word_rotl n v) i"
    by auto
qed

lemma length_extend [simp]: "length (sha1_extend n w) = length w + n"
  by (induction n arbitrary: w) auto

lemma extend_W:
  "16 \<le> length w \<Longrightarrow> (\<And>t. t < length w \<Longrightarrow> w ! t = W block t) \<Longrightarrow> t < length w + n \<Longrightarrow>
   sha1_extend n w ! t = W block t"
proof (induction n arbitrary: w t)
  case 0
  then show ?case by simp
next
  case (Suc n)
  let ?x = "rotate_left (w ! (length w - 3) XOR w ! (length w - 8) XOR w ! (length w - 14) XOR w ! (length w - 16)) 1"
  have "?x = W block (length w)"
    using Suc.prems(1) by (subst W.simps) (simp add: Suc.prems(2) rotate_left_rotl)
  then have "(w @ [?x]) ! k = W block k" if "k < length (w @ [?x])" for k
    using that Suc.prems(2) by (cases "k = length w") (auto simp: nth_append)
  then show ?case
    using Suc.IH [of "w @ [?x]" t] Suc.prems(1,3) by simp
qed

lemma sha1_words_W: "t < 80 \<Longrightarrow> sha1_words block ! t = W block t"
  unfolding sha1_words_def by (rule extend_W) (auto simp: W.simps mult.commute)

lemma rounds_fips: "t \<le> 80 \<Longrightarrow> fold (sha1_round (sha1_words block)) [0..<t] r = fips_rounds block t r"
proof (induction t)
  case 0
  then show ?case by simp
next
  case (Suc t)
  then show ?case
    by (auto simp: sha1_words_W rotate_left_rotl add_ac split: prod.split)
qed

lemma transform_compress: "transform block st = compress st block"
  by (simp add: transform_def compress_def rounds_fips)

subsection \<open>Streaming\<close>

lemma sha1_blocks_append:
  "sha1_blocks (xs @ ys) st = (case sha1_blocks xs st of (st, r) \<Rightarrow> sha1_blocks (r @ ys) st)"
proof (induction xs st rule: sha1_blocks.induct)
  case (1 bs st)
  show ?case
  proof (cases "64 \<le> length bs")
    case True
    then show ?thesis
      using 1 by (simp add: sha1_blocks.simps [of "bs @ ys"] sha1_blocks.simps [of bs])
  next
    case False
    then show ?thesis by (simp add: sha1_blocks.simps [of bs])
  qed
qed

lemma sha1_blocks_fold:
  "sha1_blocks bs st = (foldl compress st (blocks_of bs (length bs div 64)), drop (length bs div 64 * 64) bs)"
proof (induction bs st rule: sha1_blocks.induct)
  case (1 bs st)
  show ?case
  proof (cases "64 \<le> length bs")
    case True
    then have "length bs div 64 = Suc ((length bs - 64) div 64)"
      by (simp add: le_div_geq)
    then show ?thesis
      using 1 True by (subst sha1_blocks.simps) (simp add: transform_compress add.commute)
  next
    case False
    then show ?thesis by (subst sha1_blocks.simps) simp
  qed
qed

lemma length_tail: "length (snd (sha1_blocks bs st)) = length bs mod 64"
  by (simp add: sha1_blocks_fold minus_div_mult_eq_mod)

lemma sha1_blocks_short: "length bs < 64 \<Longrightarrow> sha1_blocks bs st = (st, bs)"
  by (subst sha1_blocks.simps) simp

lemma sha1_blocks_one: "length bs = 64 \<Longrightarrow> sha1_blocks bs st = (transform bs st, [])"
  by (subst sha1_blocks.simps) (simp add: sha1_blocks_short)

text \<open>A context that has taken in \<open>msg\<close>.\<close>

definition absorbed :: "sha1_ctx \<Rightarrow> u8 list \<Rightarrow> bool" where
  "absorbed ctx msg \<longleftrightarrow> \<not> finalized ctx \<and> length (hash_block ctx) = 64 \<and>
     length msg \<le> unat SHA1_MAX_INPUT \<and> total_bytes ctx = of_nat (length msg) \<and>
     block_used ctx = length msg mod 64 \<and>
     sha1_blocks msg sha1_start = (hash_state ctx, take (block_used ctx) (hash_block ctx))"

lemma max_input: "unat SHA1_MAX_INPUT = 2305843009213693951"
  by (simp add: SHA1_MAX_INPUT_def)

lemma absorbed_init: "absorbed sha1_init []"
  by (simp add: absorbed_def sha1_init_def sha1_blocks_short)

lemma absorbed_accepts: "absorbed ctx msg \<Longrightarrow> \<not> sha1_refuses ctx"
  by (auto simp: absorbed_def sha1_refuses_def word_less_nat_alt max_input unat_of_nat_len not_le)

text \<open>An update is taken exactly when the buffer is there and the total stays within the cap; a refused
  one changes nothing.\<close>

definition update_ok :: "u8 list option \<Rightarrow> nat \<Rightarrow> u8 list \<Rightarrow> bool" where
  "update_ok data len msg \<longleftrightarrow> (len = 0 \<or> data \<noteq> None) \<and> length msg + len \<le> unat SHA1_MAX_INPUT"

lemma absorbed_room:
  assumes "absorbed ctx msg" "len \<le> unat SHA1_MAX_INPUT"
  shows "(of_nat len :: u64) > SHA1_MAX_INPUT - total_bytes ctx \<longleftrightarrow> length msg + len > unat SHA1_MAX_INPUT"
proof -
  have l: "length msg \<le> unat SHA1_MAX_INPUT" "total_bytes ctx = of_nat (length msg)"
    "unat (of_nat (length msg) :: u64) = length msg" "unat (of_nat len :: u64) = len"
    using assms by (simp_all add: absorbed_def max_input unat_of_nat_len)
  then have "unat (SHA1_MAX_INPUT - total_bytes ctx) = unat SHA1_MAX_INPUT - length msg"
    by (subst unat_sub) (simp_all add: word_le_nat_alt)
  then show ?thesis using l by (simp add: word_less_nat_alt less_diff_conv2 add.commute)
qed

lemma update_refused:
  assumes "absorbed ctx msg" "\<not> update_ok data len msg"
  shows "sha1_update data len ctx = (False, ctx)"
proof (cases "(len \<noteq> 0 \<and> data = None) \<or> len > unat SHA1_MAX_INPUT")
  case True
  then show ?thesis by (auto simp: sha1_update_def)
next
  case False
  then show ?thesis
    using assms absorbed_room [OF assms(1), of len] by (simp add: sha1_update_def update_ok_def)
qed

lemma absorb_rest:
  assumes "\<not> finalized c" "length (hash_block c) = 64" "block_used c = 0"
    and "total_bytes c = of_nat (length m)" "length m \<le> unat SHA1_MAX_INPUT"
    and m: "sha1_blocks m sha1_start = (st, rest)"
  shows "(rest \<noteq> [] \<longrightarrow> absorbed
        (c\<lparr>hash_state := st, hash_block := splice 0 rest (hash_block c), block_used := length rest\<rparr>) m) \<and>
      (rest = [] \<longrightarrow> absorbed (c\<lparr>hash_state := st\<rparr>) m)"
proof -
  have "length rest = length m mod 64" using length_tail [of m sha1_start] m by simp
  moreover have "length m mod 64 < 64" by simp
  ultimately show ?thesis
    using assms by (auto simp: absorbed_def splice_def)
qed

lemma update_taken:
  assumes a: "absorbed ctx msg" and ok: "update_ok (Some bs) (length bs) msg"
  shows "fst (sha1_update (Some bs) (length bs) ctx) \<and> absorbed (snd (sha1_update (Some bs) (length bs) ctx)) (msg @ bs)"
proof -
  have fits: "length msg + length bs \<le> unat SHA1_MAX_INPUT" using ok by (simp add: update_ok_def)
  have room: "\<not> (of_nat (length bs) :: u64) > SHA1_MAX_INPUT - total_bytes ctx" "\<not> length bs > unat SHA1_MAX_INPUT"
    using fits absorbed_room [OF a, of "length bs"] by simp_all
  have taken: "\<not> sha1_refuses ctx" using absorbed_accepts [OF a] .
  define used where "used = block_used ctx"
  define n where "n = min (length bs) (64 - used)"
  define c where "c = ctx\<lparr>total_bytes := total_bytes ctx + of_nat (length bs)\<rparr>"
  define block where "block = splice used (take n bs) (hash_block ctx)"
  have used: "used = length msg mod 64" "used < 64" "length (hash_block ctx) = 64"
    using a by (simp_all add: absorbed_def used_def)
  have msg: "sha1_blocks (msg @ bs) sha1_start = sha1_blocks (take used (hash_block ctx) @ bs) (hash_state ctx)"
    using a by (subst sha1_blocks_append) (simp add: absorbed_def used_def)
  have c: "\<not> finalized c" "total_bytes c = of_nat (length (msg @ bs))" "length (msg @ bs) \<le> unat SHA1_MAX_INPUT"
    "hash_state c = hash_state ctx" "hash_block c = hash_block ctx" "block_used c = used"
    using a fits by (simp_all add: c_def absorbed_def used_def)
  consider (empty) "bs = []" | (aligned) "bs \<noteq> []" "used = 0" | (fill) "bs \<noteq> []" "used \<noteq> 0" "used + n = 64"
    | (part) "bs \<noteq> []" "used \<noteq> 0" "used + n \<noteq> 64"
    by blast
  then show ?thesis
  proof cases
    case empty
    then show ?thesis using a taken room by (simp add: sha1_update_def)
  next
    case aligned
    obtain st rest where r: "sha1_blocks bs (hash_state ctx) = (st, rest)" by fastforce
    then have "sha1_blocks (msg @ bs) sha1_start = (st, rest)" using msg aligned by simp
    from absorb_rest [OF c(1) _ _ c(2,3) this]
    show ?thesis
      using aligned taken room used(2,3) r c by (simp add: sha1_update_def used_def [symmetric] c_def [symmetric] Let_def)
  next
    case fill
    then have full: "block = take used (hash_block ctx) @ take n bs" "length block = 64" "n = 64 - used" "n \<le> length bs"
      using used by (simp_all add: block_def splice_def n_def min_def split: if_splits)
    obtain st rest where r: "sha1_blocks (drop n bs) (transform block (hash_state ctx)) = (st, rest)" by fastforce
    have "sha1_blocks (msg @ bs) sha1_start = (st, rest)"
      using msg r full(1) sha1_blocks_append [of block "drop n bs" "hash_state ctx"] sha1_blocks_one [OF full(2)]
      by (simp add: append_assoc [symmetric] del: append_assoc) (simp only: append_assoc append_take_drop_id)
    from absorb_rest [of "c\<lparr>hash_block := block, block_used := 0, hash_state := transform block (hash_state ctx)\<rparr>", OF _ _ _ _ c(3) this]
    show ?thesis
      using fill taken room used(2,3) r c full(2)
      by (simp add: sha1_update_def used_def [symmetric] c_def [symmetric] n_def [symmetric] block_def [symmetric] Let_def)
  next
    case part
    then have short: "n = length bs" "used + length bs < 64"
      using used by (simp_all add: n_def min_def split: if_splits)
    have "(length msg + length bs) mod 64 = used + length bs"
      using short used(1) mod_add_left_eq [of "length msg" 64 "length bs"] by simp
    moreover have "sha1_blocks (msg @ bs) sha1_start = (hash_state ctx, take used (hash_block ctx) @ bs)"
      using msg short used by (simp add: sha1_blocks_short)
    ultimately have "absorbed (c\<lparr>hash_block := splice used bs (hash_block ctx),
        block_used := used + length bs, hash_state := hash_state ctx\<rparr>) (msg @ bs)"
      using c used short by (simp add: absorbed_def splice_def)
    then show ?thesis
      using part short taken room used(2,3) c
      by (simp add: sha1_update_def used_def [symmetric] c_def [symmetric] n_def [symmetric] block_def [symmetric] Let_def
          sha1_blocks_short)
  qed
qed

subsection \<open>Finalisation\<close>

lemma store_be32_rev: "store_be32 v = rev (le_put 4 v)"
  by (simp add: store_be32_def numeral_eq_Suc drop_bit_drop_bit del: drop_bit_Suc)

lemma bits_be: "map (\<lambda>i. ucast (drop_bit (56 - i * 8) (v :: u64))) [0..<8] = (rev (le_put 8 v) :: u8 list)"
proof (rule nth_equalityI)
  fix i assume "i < length (map (\<lambda>i. ucast (drop_bit (56 - i * 8) v) :: u8) [0..<8])"
  then have i: "i < 8" by simp
  have "8 * (7 - i) = 56 - i * 8" using i by simp
  then show "map (\<lambda>i. ucast (drop_bit (56 - i * 8) v)) [0..<8] ! i = (rev (le_put 8 v) :: u8 list) ! i"
    using i by (simp add: rev_nth nth_le_put)
qed simp

text \<open>The last block or two, as the finaliser builds them in the buffer.\<close>

lemma splice_whole: "length xs = off + length bs \<Longrightarrow> splice off bs xs = take off xs @ bs"
  by (simp add: splice_def)

lemma short_tail:
  assumes "length block = 64" "used \<le> 55" "length l = 8"
  shows "splice 56 l (splice (used + 1) (replicate (56 - (used + 1)) 0) (splice used [0x80] block)) =
    take used block @ 0x80 # replicate (55 - used) 0 @ l"
proof -
  have "splice (used + 1) (replicate (55 - used) 0) (splice used [0x80] block) =
      splice used (0x80 # replicate (55 - used) 0) block"
    using splice_append [of used "[0x80]" "replicate (55 - used) 0" block] assms by simp
  moreover have "splice 56 l (splice used (0x80 # replicate (55 - used) 0) block) =
      splice used (0x80 # replicate (55 - used) 0 @ l) block"
    using splice_append [of used "0x80 # replicate (55 - used) 0" l block] assms by simp
  ultimately show ?thesis
    using assms splice_whole [of block used "0x80 # replicate (55 - used) 0 @ l"] by simp
qed

lemma long_tail:
  assumes "length block = 64" "56 \<le> used" "used < 64" "length l = 8"
  shows "splice (used + 1) (replicate (64 - (used + 1)) 0) (splice used [0x80] block) =
      take used block @ 0x80 # replicate (63 - used) 0"
    and "length b = 64 \<Longrightarrow> splice 56 l (splice 0 (replicate 56 0) b) = replicate 56 0 @ l"
proof -
  show "splice (used + 1) (replicate (64 - (used + 1)) 0) (splice used [0x80] block) =
      take used block @ 0x80 # replicate (63 - used) 0"
    using splice_append [of used "[0x80]" "replicate (63 - used) 0" block] assms
      splice_whole [of block used "0x80 # replicate (63 - used) 0"] by simp
  assume "length b = 64"
  then show "splice 56 l (splice 0 (replicate 56 0) b) = replicate 56 0 @ l"
    using splice_append [of 0 "replicate 56 0" l b] assms splice_whole [of b 0 "replicate 56 0 @ l"] by simp
qed

lemma final_digest:
  assumes a: "absorbed ctx msg"
  shows "fst (sha1_final ctx) = Some (sha1_spec msg)" "finalized (snd (sha1_final ctx))"
proof -
  define w where "w = (of_nat (8 * length msg) :: u64)"
  define l where "l = (rev (le_put 8 w) :: u8 list)"
  define used where "used = block_used ctx"
  define block where "block = hash_block ctx"
  define z where "z = replicate ((119 - length msg mod 64) mod 64) (0 :: u8)"
  have used: "used = length msg mod 64" "used < 64" "length block = 64" "length l = 8"
    using a by (simp_all add: absorbed_def used_def block_def l_def)
  have bits: "total_bytes ctx * 8 = w"
    using a by (simp add: absorbed_def w_def)
  have "sha1_blocks (sha1_pad msg) sha1_start = sha1_blocks (take used block @ 0x80 # z @ l) (hash_state ctx)"
    unfolding sha1_pad_def using a
    by (subst sha1_blocks_append) (simp add: absorbed_def used_def block_def l_def z_def w_def)
  then have spec: "sha1_spec msg = concat (map store_be32 (fst (sha1_blocks (take used block @ 0x80 # z @ l) (hash_state ctx))))"
    by (simp add: sha1_spec_def sha1_blocks_fold store_be32_rev [abs_def])
  have five: "concat (map (\<lambda>i. store_be32 (transform b s ! i)) [0..<5]) = concat (map store_be32 (transform b s))" for b s
    by (simp add: transform_def upt_rec split: prod.split)
  have taken: "\<not> sha1_refuses ctx" using absorbed_accepts [OF a] .
  show "finalized (snd (sha1_final ctx))"
    unfolding sha1_final_def Let_def using taken by (simp only: if_False split: prod.split) simp
  show "fst (sha1_final ctx) = Some (sha1_spec msg)"
  proof (cases "used \<le> 55")
    case True
    then have "119 - used = 55 - used + 64" by simp
    then have "(119 - used) mod 64 = (55 - used) mod 64" by (simp only: mod_add_self2)
    then have "z = replicate (55 - used) 0" using used(1) True by (simp add: z_def)
    then show ?thesis
      using taken True short_tail [OF used(3) True used(4)] used(2,3,4)
        sha1_blocks_one [of "take used block @ 0x80 # z @ l" "hash_state ctx"]
      by (simp add: sha1_final_def Let_def spec bits_be bits five flip: used_def block_def l_def)
  next
    case False
    then have z: "z = replicate (63 - used) 0 @ replicate 56 0"
      using used(1,2) False by (simp add: z_def flip: replicate_add)
    have "sha1_blocks (take used block @ 0x80 # z @ l) (hash_state ctx) =
        (transform (replicate 56 0 @ l) (transform (take used block @ 0x80 # replicate (63 - used) 0) (hash_state ctx)), [])"
      using sha1_blocks_append [of "take used block @ 0x80 # replicate (63 - used) 0" "replicate 56 0 @ l" "hash_state ctx"]
        sha1_blocks_one [of "take used block @ 0x80 # replicate (63 - used) 0"] sha1_blocks_one [of "replicate 56 0 @ l"]
        used False by (simp add: z)
    then show ?thesis
      using taken False long_tail [OF used(3) _ used(2,4)] used(2,3,4)
      by (simp add: sha1_final_def Let_def spec bits_be bits five flip: used_def block_def l_def)
  qed
qed

subsection \<open>Histories\<close>

text \<open>The calls a caller can make between init and final: a buffer with its length, or NULL with a
  length. What should have been hashed are the buffers that still fitted under the cap.\<close>

datatype sha1_call = Chunk "u8 list" | Null nat

fun sha1_feed :: "sha1_call list \<Rightarrow> sha1_ctx \<Rightarrow> sha1_ctx" where
  "sha1_feed [] ctx = ctx"
| "sha1_feed (Chunk bs # calls) ctx = sha1_feed calls (snd (sha1_update (Some bs) (length bs) ctx))"
| "sha1_feed (Null n # calls) ctx = sha1_feed calls (snd (sha1_update None n ctx))"

fun sha1_taken :: "sha1_call list \<Rightarrow> u8 list \<Rightarrow> u8 list" where
  "sha1_taken [] msg = msg"
| "sha1_taken (Chunk bs # calls) msg =
     sha1_taken calls (if length msg + length bs \<le> unat SHA1_MAX_INPUT then msg @ bs else msg)"
| "sha1_taken (Null n # calls) msg = sha1_taken calls msg"

lemma feed_absorbed: "absorbed ctx msg \<Longrightarrow> absorbed (sha1_feed calls ctx) (sha1_taken calls msg)"
proof (induction calls arbitrary: ctx msg)
  case Nil
  then show ?case by simp
next
  case (Cons call calls)
  show ?case
  proof (cases call)
    case (Chunk bs)
    then show ?thesis
      using Cons update_taken [OF Cons.prems, of bs] update_refused [OF Cons.prems, of "Some bs" "length bs"]
      by (simp add: update_ok_def)
  next
    case (Null n)
    have "snd (sha1_update None n ctx) = ctx"
      using absorbed_accepts [OF Cons.prems] by (simp add: sha1_update_def)
    then show ?thesis using Null Cons by simp
  qed
qed

lemma one_shot:
  "length msg \<le> unat SHA1_MAX_INPUT \<Longrightarrow> vmfw_sha1 (Some msg) (length msg) = Some (sha1_spec msg)"
  using update_taken [OF absorbed_init, of msg] final_digest(1) [of "snd (sha1_update (Some msg) (length msg) sha1_init)" msg]
  by (auto simp: vmfw_sha1_def update_ok_def split: prod.split bool.split)

text \<open>C38. However a message is cut into updates, with refused calls between them, the digest is the
  reference digest of the padded message: the buffers that fitted under the length cap, concatenated.
  It is what the one-shot function returns for that message, and the finalised context refuses a second
  finalisation and any further update, unchanged.\<close>

theorem sha1_streams:
  "let msg = sha1_taken calls []; ctx = sha1_feed calls sha1_init; (digest, ctx') = sha1_final ctx
   in digest = Some (sha1_spec msg) \<and> vmfw_sha1 (Some msg) (length msg) = digest \<and>
      sha1_final ctx' = (None, ctx') \<and> sha1_update data len ctx' = (False, ctx')"
proof -
  have a: "absorbed (sha1_feed calls sha1_init) (sha1_taken calls [])"
    using feed_absorbed [OF absorbed_init] .
  then have "length (sha1_taken calls []) \<le> unat SHA1_MAX_INPUT" by (simp add: absorbed_def)
  moreover have "sha1_final ctx' = (None, ctx')" "sha1_update data len ctx' = (False, ctx')" if "finalized ctx'" for ctx'
    using that by (simp_all add: sha1_final_def sha1_update_def sha1_refuses_def)
  ultimately show ?thesis
    using final_digest [OF a] one_shot [of "sha1_taken calls []"] by (auto simp: case_prod_beta)
qed

subsection \<open>HMAC\<close>

definition hmac_key :: "u8 list \<Rightarrow> u8 list" where
  "hmac_key key = (if length key > 64 then sha1_spec key else key) @ replicate (64 - (if length key > 64 then 20 else length key)) 0"

definition hmac_spec :: "u8 list \<Rightarrow> u8 list \<Rightarrow> u8 list" where
  "hmac_spec key msg =
     sha1_spec (map (\<lambda>b. b XOR 0x5c) (hmac_key key) @ sha1_spec (map (\<lambda>b. b XOR 0x36) (hmac_key key) @ msg))"

lemma length_sha1_spec: "length (sha1_spec msg) = 20"
proof -
  have "length (foldl compress h bs) = 5" if "length h = 5" for h bs
    using that by (induction bs arbitrary: h) (auto simp: compress_def split: prod.split)
  then have "length (foldl compress sha1_start bs) = 5" for bs
    by (simp add: sha1_start_def)
  then show ?thesis
    by (simp add: sha1_spec_def length_concat comp_def map_replicate_const sum_list_replicate)
qed

lemma hmac_pass_spec:
  assumes "length block_key = 64" "64 + length msg \<le> unat SHA1_MAX_INPUT"
  shows "hmac_pass block_key pad (Some msg) (length msg) = Some (sha1_spec (map (\<lambda>b. b XOR pad) block_key @ msg))"
proof -
  let ?p = "map (\<lambda>b. b XOR pad) block_key"
  have p: "fst (sha1_update (Some ?p) 64 sha1_init)" "absorbed (snd (sha1_update (Some ?p) 64 sha1_init)) ?p"
    using update_taken [OF absorbed_init, of ?p] assms by (simp_all add: update_ok_def max_input)
  note m = update_taken [OF p(2), of msg]
  have ok: "update_ok (Some msg) (length msg) ?p" using assms by (simp add: update_ok_def)
  show ?thesis
    using p(1) m [OF ok] final_digest(1) [OF conjunct2 [OF m [OF ok]]]
    by (auto simp: hmac_pass_def split: prod.split bool.split)
qed

theorem hmac_is_rfc2104:
  assumes "length key \<le> unat SHA1_MAX_INPUT" "64 + length msg \<le> unat SHA1_MAX_INPUT"
  shows "vmfw_hmac_sha1 (Some key) (length key) (Some msg) (length msg) = (True, Some (hmac_spec key msg))"
proof -
  have k: "length (hmac_key key) = 64" by (simp add: hmac_key_def length_sha1_spec)
  have block_key: "(if length key > 64 then map_option (\<lambda>h. h @ replicate (64 - 20) 0) (vmfw_sha1 (Some key) (length key))
      else if length key \<noteq> 0 then Some (splice 0 (take (length key) (the (Some key))) (replicate 64 0))
      else Some (replicate 64 0)) = Some (hmac_key key)"
    using one_shot [OF assms(1)] by (simp add: hmac_key_def splice_def)
  note inner = hmac_pass_spec [OF k assms(2), of "0x36"]
  have "64 + 20 \<le> unat SHA1_MAX_INPUT" by (simp add: max_input)
  then have outer: "hmac_pass (hmac_key key) 0x5c (Some h) 20 = Some (sha1_spec (map (\<lambda>b. b XOR 0x5c) (hmac_key key) @ h))"
    if "length h = 20" for h
    using hmac_pass_spec [OF k, of h "0x5c"] that by simp
  show ?thesis
    unfolding vmfw_hmac_sha1_def block_key
    by (simp add: inner outer length_sha1_spec hmac_spec_def)
qed

end
