(* ===== verification/Devicetree.thy ===== *)
theory Devicetree
  imports Prelude
begin

text \<open>
  The flattened device tree parser of core/src/firmware/devicetree.c: validation of a whole blob and the
  lookups of properties, children and paths. A blob is its list of bytes and an offset a natural number:
  the code adds in 64 bits, where an offset inside an object plus 36 and a 31-bit length cannot wrap.
  Offset 0, the code's failure value of the two skip functions, is \<open>None\<close>: a successful skip passes at
  least a header. A C string is the list of its bytes before the NUL.
\<close>

subsection \<open>The code\<close>

datatype dt_status_t = DT_OK | DT_ERR_TRUNCATED | DT_ERR_TOO_DEEP | DT_ERR_NOT_FOUND

definition DT_PROP_NAME_LEN :: nat where "DT_PROP_NAME_LEN = 32"
definition DT_MAX_DEPTH :: nat where "DT_MAX_DEPTH = 32"
definition PROP_HEADER :: nat where "PROP_HEADER = DT_PROP_NAME_LEN + 4"
definition NODE_HEADER :: nat where "NODE_HEADER = 8"

record dt_node =
  node_offset :: nat
  n_props :: u32
  n_children :: u32
  props_off :: nat

definition dt_rd32 :: "u8 list \<Rightarrow> nat \<Rightarrow> u32" where
  "dt_rd32 b i = ucast (b ! i) OR push_bit 8 (ucast (b ! (i + 1)))
     OR push_bit 16 (ucast (b ! (i + 2))) OR push_bit 24 (ucast (b ! (i + 3)))"

definition fits :: "u8 list \<Rightarrow> nat \<Rightarrow> nat \<Rightarrow> bool" where
  "fits b off need \<longleftrightarrow> off + need \<le> length b"

definition align4 :: "nat \<Rightarrow> nat" where
  "align4 v = (v + 3) div 4 * 4"

definition prop_len :: "u8 list \<Rightarrow> nat \<Rightarrow> nat" where
  "prop_len b off = unat (dt_rd32 b (off + DT_PROP_NAME_LEN) AND 0x7fffffff)"

definition read_node :: "u8 list \<Rightarrow> nat \<Rightarrow> dt_node option" where
  "read_node b off =
     (if \<not> fits b off NODE_HEADER then None
      else Some \<lparr>node_offset = off, n_props = dt_rd32 b off, n_children = dt_rd32 b (off + 4),
                 props_off = off + NODE_HEADER\<rparr>)"

definition skip_property :: "u8 list \<Rightarrow> nat \<Rightarrow> nat option" where
  "skip_property b off =
     (if \<not> fits b off PROP_HEADER then None
      else let nxt = align4 (off + PROP_HEADER + prop_len b off)
           in if nxt > length b then None else Some nxt)"

text \<open>A counted loop that advances the cursor and leaves on the first failure.\<close>

primrec skip_many :: "(nat \<Rightarrow> nat option) \<Rightarrow> nat \<Rightarrow> nat \<Rightarrow> nat option" where
  "skip_many f 0 cur = Some cur"
| "skip_many f (Suc n) cur = Option.bind (f cur) (skip_many f n)"

text \<open>The recursion of \<open>skip_node\<close>, by the number of levels the depth limit still allows.\<close>

primrec skip_levels :: "nat \<Rightarrow> u8 list \<Rightarrow> nat \<Rightarrow> nat option" where
  "skip_levels 0 b off = None"
| "skip_levels (Suc d) b off =
     Option.bind (read_node b off) (\<lambda>n.
     Option.bind (skip_many (skip_property b) (unat (n_props n)) (props_off n)) (\<lambda>cur.
     skip_many (skip_levels d b) (unat (n_children n)) cur))"

definition skip_node :: "u8 list \<Rightarrow> nat \<Rightarrow> nat \<Rightarrow> nat option" where
  "skip_node b off depth = skip_levels (DT_MAX_DEPTH + 1 - depth) b off"

definition dt_parse :: "u8 list option \<Rightarrow> dt_status_t + dt_node" where
  "dt_parse blob =
     (case blob of None \<Rightarrow> Inl DT_ERR_TRUNCATED
      | Some b \<Rightarrow>
          if length b < NODE_HEADER then Inl DT_ERR_TRUNCATED
          else if skip_node b 0 0 = None then Inl DT_ERR_TRUNCATED
          else case read_node b 0 of None \<Rightarrow> Inl DT_ERR_TRUNCATED | Some root \<Rightarrow> Inr root)"

text \<open>\<open>strncmp\<close> finding no difference between the bytes of the blob and a string.\<close>

primrec strn_eq :: "nat \<Rightarrow> u8 list \<Rightarrow> u8 list \<Rightarrow> bool" where
  "strn_eq 0 xs ys \<longleftrightarrow> True"
| "strn_eq (Suc n) xs ys \<longleftrightarrow>
     (let x = hd xs; y = (if ys = [] then 0 else hd ys) in x = y \<and> (x = 0 \<or> strn_eq n (tl xs) (tl ys)))"

primrec property_loop :: "u8 list \<Rightarrow> u8 list \<Rightarrow> nat \<Rightarrow> nat \<Rightarrow> dt_status_t + nat \<times> nat" where
  "property_loop b name 0 cur = Inl DT_ERR_NOT_FOUND"
| "property_loop b name (Suc n) cur =
     (if \<not> fits b cur PROP_HEADER then Inl DT_ERR_TRUNCATED
      else if strn_eq DT_PROP_NAME_LEN (drop cur b) name then
        (if \<not> fits b (cur + PROP_HEADER) (prop_len b cur) then Inl DT_ERR_TRUNCATED
         else Inr (cur + PROP_HEADER, prop_len b cur))
      else case skip_property b cur of
             None \<Rightarrow> Inl DT_ERR_TRUNCATED
           | Some cur \<Rightarrow> property_loop b name n cur)"

definition dt_property :: "u8 list \<Rightarrow> dt_node \<Rightarrow> u8 list \<Rightarrow> dt_status_t + nat \<times> nat" where
  "dt_property b node name = property_loop b name (unat (n_props node)) (props_off node)"

definition dt_property_u32 :: "u8 list \<Rightarrow> dt_node \<Rightarrow> u8 list \<Rightarrow> dt_status_t + u32" where
  "dt_property_u32 b node name =
     (case dt_property b node name of
        Inl st \<Rightarrow> Inl st
      | Inr (v, n) \<Rightarrow> if n < 4 then Inl DT_ERR_TRUNCATED else Inr (dt_rd32 b v))"

definition ascii_name :: "u8 list" where
  "ascii_name = [0x6e, 0x61, 0x6d, 0x65]"

text \<open>The stored name may or may not include its NUL.\<close>

definition child_matches :: "u8 list \<Rightarrow> dt_node \<Rightarrow> u8 list \<Rightarrow> bool" where
  "child_matches b child name =
     (case dt_property b child ascii_name of
        Inl st \<Rightarrow> False
      | Inr (v, n) \<Rightarrow>
          let want = length name in
          n \<ge> want \<and> strn_eq want (drop v b) name \<and> (n = want \<or> b ! (v + want) = 0))"

primrec child_loop :: "u8 list \<Rightarrow> u8 list \<Rightarrow> nat \<Rightarrow> nat \<Rightarrow> dt_status_t + dt_node" where
  "child_loop b name 0 cur = Inl DT_ERR_NOT_FOUND"
| "child_loop b name (Suc n) cur =
     (case read_node b cur of
        None \<Rightarrow> Inl DT_ERR_TRUNCATED
      | Some child \<Rightarrow>
          if child_matches b child name then Inr child
          else case skip_node b cur 0 of
                 None \<Rightarrow> Inl DT_ERR_TRUNCATED
               | Some cur \<Rightarrow> child_loop b name n cur)"

definition dt_child :: "u8 list \<Rightarrow> dt_node \<Rightarrow> u8 list \<Rightarrow> dt_status_t + dt_node" where
  "dt_child b parent name =
     (case skip_many (skip_property b) (unat (n_props parent)) (props_off parent) of
        None \<Rightarrow> Inl DT_ERR_TRUNCATED
      | Some cur \<Rightarrow> child_loop b name (unat (n_children parent)) cur)"

abbreviation SLASH :: u8 where "SLASH \<equiv> 0x2f"

abbreviation skip_slashes :: "u8 list \<Rightarrow> u8 list" where
  "skip_slashes p \<equiv> dropWhile (\<lambda>c. c = SLASH) p"

function path_loop :: "u8 list \<Rightarrow> dt_node \<Rightarrow> u8 list \<Rightarrow> dt_status_t + dt_node" where
  "path_loop b cur p =
     (if p = [] then Inr cur
      else
        let name = takeWhile (\<lambda>c. c \<noteq> SLASH) p; seg = length name in
        if seg = 0 \<or> seg \<ge> DT_PROP_NAME_LEN then Inl DT_ERR_NOT_FOUND
        else case dt_child b cur name of
               Inl st \<Rightarrow> Inl st
             | Inr child \<Rightarrow> path_loop b child (skip_slashes (drop seg p)))"
  by pat_completeness auto
termination
proof (relation "measure (\<lambda>(b, cur, p). length p)", goal_cases)
  case (2 b cur p name seg)
  then have "0 < seg" "seg \<le> length p" by (auto simp: length_takeWhile_le)
  moreover have "length (skip_slashes (drop seg p)) \<le> length (drop seg p)"
    by (rule length_dropWhile_le)
  ultimately show ?case by (simp only: in_measure prod.case) (simp del: length_greater_0_conv)
qed simp

declare path_loop.simps [simp del]

definition dt_path :: "u8 list \<Rightarrow> dt_node \<Rightarrow> u8 list \<Rightarrow> dt_status_t + dt_node" where
  "dt_path b root path = path_loop b root (skip_slashes path)"


subsection \<open>A validated tree\<close>

lemma skip_many_mono:
  "skip_many f n cur = Some r \<Longrightarrow> (\<And>x y. f x = Some y \<Longrightarrow> g x = Some y) \<Longrightarrow> skip_many g n cur = Some r"
  by (induction n arbitrary: cur) (auto simp: bind_eq_Some_conv)

lemma skip_levels_Suc: "skip_levels d b off = Some r \<Longrightarrow> skip_levels (Suc d) b off = Some r"
proof (induction d arbitrary: off r)
  case (Suc d)
  from Suc.prems obtain n cur where n: "read_node b off = Some n"
    and props: "skip_many (skip_property b) (unat (n_props n)) (props_off n) = Some cur"
    and children: "skip_many (skip_levels d b) (unat (n_children n)) cur = Some r"
    by (auto simp: bind_eq_Some_conv)
  have "skip_many (skip_levels (Suc d) b) (unat (n_children n)) cur = Some r"
    using children Suc.IH by (rule skip_many_mono)
  then show ?case by (subst skip_levels.simps(2)) (simp add: n props del: skip_levels.simps)
qed simp

lemma skip_levels_mono: "skip_levels d b off = Some r \<Longrightarrow> d \<le> e \<Longrightarrow> skip_levels e b off = Some r"
  by (induction e) (auto simp: le_Suc_eq simp del: skip_levels.simps intro: skip_levels_Suc)

text \<open>What validation establishes of a node: its header is the one in the blob, its subtree ends inside.\<close>

definition node_valid :: "u8 list \<Rightarrow> dt_node \<Rightarrow> bool" where
  "node_valid b n \<longleftrightarrow> read_node b (node_offset n) = Some n \<and> skip_node b (node_offset n) 0 \<noteq> None"

lemma read_offset: "read_node b off = Some n \<Longrightarrow> node_offset n = off"
  by (auto simp: read_node_def split: if_splits)

lemma node_parts:
  assumes "node_valid b n"
  obtains cur r where "skip_many (skip_property b) (unat (n_props n)) (props_off n) = Some cur"
    "skip_many (skip_levels DT_MAX_DEPTH b) (unat (n_children n)) cur = Some r"
  using assms by (auto simp: node_valid_def skip_node_def bind_eq_Some_conv)

lemma parse_valid: "dt_parse (Some b) = Inr root \<Longrightarrow> node_valid b root"
  using read_offset [of b 0 root] by (auto simp: dt_parse_def node_valid_def split: if_splits option.splits)

lemma skip_property_room: "skip_property b cur = Some c \<Longrightarrow> fits b cur PROP_HEADER \<and> fits b (cur + PROP_HEADER) (prop_len b cur)"
  by (auto simp: skip_property_def fits_def align4_def Let_def split: if_splits)

lemma property_loop_valid:
  "skip_many (skip_property b) n cur = Some c \<Longrightarrow>
   property_loop b name n cur = Inl DT_ERR_NOT_FOUND \<or>
   (\<exists>v k. property_loop b name n cur = Inr (v, k) \<and> v + k \<le> length b)"
proof (induction n arbitrary: cur)
  case (Suc n)
  then obtain cur' where cur': "skip_property b cur = Some cur'" "skip_many (skip_property b) n cur' = Some c"
    by (auto simp: bind_eq_Some_conv)
  then show ?case
    using skip_property_room [OF cur'(1)] Suc.IH [OF cur'(2)] by (auto simp: fits_def)
qed simp

lemma property_valid:
  "node_valid b n \<Longrightarrow>
   dt_property b n name = Inl DT_ERR_NOT_FOUND \<or> (\<exists>v k. dt_property b n name = Inr (v, k) \<and> v + k \<le> length b)"
  by (erule node_parts) (auto simp: dt_property_def dest: property_loop_valid)

lemma child_loop_valid:
  "skip_many (skip_levels DT_MAX_DEPTH b) n cur = Some r \<Longrightarrow>
   child_loop b name n cur = Inl DT_ERR_NOT_FOUND \<or> (\<exists>c. child_loop b name n cur = Inr c \<and> node_valid b c)"
proof (induction n arbitrary: cur)
  case (Suc n)
  then obtain cur' where cur': "skip_levels DT_MAX_DEPTH b cur = Some cur'"
    "skip_many (skip_levels DT_MAX_DEPTH b) n cur' = Some r"
    by (auto simp: bind_eq_Some_conv)
  have skip: "skip_node b cur 0 = Some cur'"
    unfolding skip_node_def by (rule skip_levels_mono [OF cur'(1)]) simp
  then obtain c where c: "read_node b cur = Some c" by (auto simp: skip_node_def bind_eq_Some_conv)
  then have "node_valid b c" using skip by (auto simp: node_valid_def dest: read_offset)
  then show ?case using Suc.IH [OF cur'(2)] c skip by auto
qed simp

lemma child_valid:
  "node_valid b p \<Longrightarrow>
   dt_child b p name = Inl DT_ERR_NOT_FOUND \<or> (\<exists>c. dt_child b p name = Inr c \<and> node_valid b c)"
  by (erule node_parts) (auto simp: dt_child_def dest: child_loop_valid)

lemma path_loop_valid:
  "node_valid b cur \<Longrightarrow>
   path_loop b cur p = Inl DT_ERR_NOT_FOUND \<or> (\<exists>c. path_loop b cur p = Inr c \<and> node_valid b c)"
proof (induction b cur p rule: path_loop.induct)
  case (1 b cur p)
  let ?name = "takeWhile (\<lambda>c. c \<noteq> SLASH) p"
  show ?case
  proof (cases "p = [] \<or> length ?name = 0 \<or> length ?name \<ge> DT_PROP_NAME_LEN")
    case True
    then show ?thesis using 1(2) by (subst (1 2) path_loop.simps) (auto simp: Let_def)
  next
    case False
    show ?thesis
    proof (cases "dt_child b cur ?name")
      case (Inl st)
      then show ?thesis using False child_valid [OF 1(2), of ?name]
        by (subst (1 2) path_loop.simps) (simp add: Let_def)
    next
      case (Inr c)
      then have "path_loop b cur p = path_loop b c (skip_slashes (drop (length ?name) p))"
        using False by (subst path_loop.simps) (simp add: Let_def)
      then show ?thesis
        using 1(1) [of ?name "length ?name" c] False Inr child_valid [OF 1(2), of ?name] by auto
    qed
  qed
qed

lemma path_valid:
  "node_valid b root \<Longrightarrow>
   dt_path b root p = Inl DT_ERR_NOT_FOUND \<or> (\<exists>c. dt_path b root p = Inr c \<and> node_valid b c)"
  unfolding dt_path_def by (rule path_loop_valid)

subsection \<open>The tree a blob encodes\<close>

text \<open>The abstract tree, its serialised form, and the lookups by name on it.\<close>

datatype dt_tree = DT_TREE (tree_props: "(u8 list \<times> u8 list) list") (tree_children: "dt_tree list")

definition pad4 :: "nat \<Rightarrow> nat" where
  "pad4 n = (4 - n mod 4) mod 4"

definition encode_prop :: "u8 list \<times> u8 list \<Rightarrow> u8 list" where
  "encode_prop p = fst p @ replicate (DT_PROP_NAME_LEN - length (fst p)) 0 @ le_put 4 (of_nat (length (snd p)) :: u32)
     @ snd p @ replicate (pad4 (length (snd p))) 0"

primrec encode :: "dt_tree \<Rightarrow> u8 list" where
  "encode (DT_TREE ps cs) = le_put 4 (of_nat (length ps) :: u32) @ le_put 4 (of_nat (length cs) :: u32)
     @ concat (map encode_prop ps) @ concat (map encode cs)"

primrec levels :: "dt_tree \<Rightarrow> nat" where
  "levels (DT_TREE ps cs) = Suc (fold max (map levels cs) 0)"

definition c_string :: "u8 list \<Rightarrow> bool" where
  "c_string s \<longleftrightarrow> 0 \<notin> set s"

definition prop_ok :: "u8 list \<times> u8 list \<Rightarrow> bool" where
  "prop_ok p \<longleftrightarrow> c_string (fst p) \<and> length (fst p) < DT_PROP_NAME_LEN \<and> length (snd p) < 2 ^ 31"

primrec tree_ok :: "dt_tree \<Rightarrow> bool" where
  "tree_ok (DT_TREE ps cs) \<longleftrightarrow>
     list_all prop_ok ps \<and> length ps < 2 ^ 32 \<and> list_all tree_ok cs \<and> length cs < 2 ^ 32"

definition tree_named :: "u8 list \<Rightarrow> dt_tree \<Rightarrow> bool" where
  "tree_named name t =
     (case map_of (tree_props t) ascii_name of
        None \<Rightarrow> False
      | Some v \<Rightarrow> v = name \<or> (\<exists>r. v = name @ 0 # r))"

primrec tree_path :: "dt_tree \<Rightarrow> u8 list list \<Rightarrow> dt_tree option" where
  "tree_path t [] = Some t"
| "tree_path t (s # ss) = Option.bind (List.find (tree_named s) (tree_children t)) (\<lambda>c. tree_path c ss)"

text \<open>A path in the code's form, and the names it can carry.\<close>

definition path_string :: "u8 list list \<Rightarrow> u8 list" where
  "path_string ss = concat (map (\<lambda>s. SLASH # s) ss)"

definition name_ok :: "u8 list \<Rightarrow> bool" where
  "name_ok s \<longleftrightarrow> s \<noteq> [] \<and> SLASH \<notin> set s \<and> c_string s \<and> length s < DT_PROP_NAME_LEN"

definition blob_at :: "u8 list \<Rightarrow> nat \<Rightarrow> u8 list \<Rightarrow> bool" where
  "blob_at b off xs \<longleftrightarrow> 4 dvd off \<and> (\<exists>r. drop off b = xs @ r) \<and> off \<le> length b"

lemma blob_at_append:
  assumes "blob_at b off (xs @ ys)" "4 dvd length xs"
  shows "blob_at b off xs" "blob_at b (off + length xs) ys"
proof -
  obtain r where r: "drop off b = xs @ ys @ r" using assms by (auto simp: blob_at_def)
  have "drop (off + length xs) b = ys @ r" using drop_drop [of "length xs" off b] by (simp add: r add.commute)
  moreover have "off + length xs \<le> length b"
    using arg_cong [OF r, of length] assms by (simp add: blob_at_def) linarith
  ultimately show "blob_at b (off + length xs) ys" using assms by (auto simp: blob_at_def)
  show "blob_at b off xs" using assms r by (auto simp: blob_at_def)
qed

lemma blob_at_length: "blob_at b off xs \<Longrightarrow> off + length xs \<le> length b"
  by (auto simp: blob_at_def dest!: arg_cong [of _ _ length])

lemma dt_rd32_put: "drop i b = le_put 4 w @ r \<Longrightarrow> dt_rd32 b i = w"
  unfolding dt_rd32_def by (rule le32_at)

lemma pad4_form: "\<exists>k. n + pad4 n = 4 * k \<and> 4 * k < n + 4"
proof -
  obtain q r where n: "n = 4 * q + r" "r < 4" "n mod 4 = r"
    using mult_div_mod_eq [of 4 n] mod_less_divisor [of 4 n] by (metis zero_less_numeral)
  show ?thesis
  proof (cases "r = 0")
    case True
    then show ?thesis using n by (intro exI [of _ q]) (simp add: pad4_def)
  next
    case False
    then show ?thesis using n by (intro exI [of _ "q + 1"]) (simp add: pad4_def)
  qed
qed

lemma pad4_dvd: "4 dvd n + pad4 n"
  using pad4_form [of n] by auto

lemma align4_pad:
  assumes "4 dvd a" shows "align4 (a + n) = a + n + pad4 n"
proof -
  obtain j where j: "a = 4 * j" using assms by (rule dvdE)
  obtain k where k: "n + pad4 n = 4 * k" "4 * k < n + 4" using pad4_form by blast
  have "(a + n + 3) div 4 = j + k" by (rule div_nat_eqI) (use j k in simp_all)
  then show ?thesis using j k by (simp add: align4_def)
qed

lemma headers_dvd: "4 dvd PROP_HEADER" "4 dvd DT_PROP_NAME_LEN" "PROP_HEADER = DT_PROP_NAME_LEN + 4"
  by (simp_all add: PROP_HEADER_def DT_PROP_NAME_LEN_def)

lemma encode_prop_length:
  "prop_ok p \<Longrightarrow> length (encode_prop p) = PROP_HEADER + (length (snd p) + pad4 (length (snd p)))"
  by (simp add: encode_prop_def prop_ok_def headers_dvd)

lemma encode_prop_dvd: "prop_ok p \<Longrightarrow> 4 dvd length (encode_prop p)"
  by (simp only: encode_prop_length dvd_add headers_dvd(1) pad4_dvd)

lemma prop_len_at:
  assumes "blob_at b off (encode_prop p)" "prop_ok p"
  shows "prop_len b off = length (snd p)"
proof -
  obtain r where r: "drop off b = encode_prop p @ r" using assms by (auto simp: blob_at_def)
  have "drop (off + DT_PROP_NAME_LEN) b = drop DT_PROP_NAME_LEN (encode_prop p @ r)"
    using r by (metis add.commute drop_drop)
  also have "\<dots> = le_put 4 (of_nat (length (snd p)) :: u32) @ snd p @ replicate (pad4 (length (snd p))) 0 @ r"
    using assms by (simp add: encode_prop_def prop_ok_def)
  finally have "dt_rd32 b (off + DT_PROP_NAME_LEN) = of_nat (length (snd p))" by (rule dt_rd32_put)
  moreover have "(of_nat n :: u32) AND 0x7fffffff = of_nat n" if "n < 2 ^ 31" for n
  proof -
    have "(of_nat n :: u32) AND 0x7fffffff = take_bit 31 (of_nat n)"
      by (simp add: take_bit_eq_mask mask_eq_exp_minus_1)
    also have "\<dots> = of_nat n" using that by (simp add: take_bit_of_nat take_bit_nat_eq_self)
    finally show ?thesis .
  qed
  ultimately show ?thesis
    using assms by (simp add: prop_len_def prop_ok_def unat_of_nat_len)
qed

lemma skip_property_at:
  assumes "blob_at b off (encode_prop p)" "prop_ok p"
  shows "skip_property b off = Some (off + length (encode_prop p))" "fits b off PROP_HEADER"
    "fits b (off + PROP_HEADER) (length (snd p))"
proof -
  have len: "off + length (encode_prop p) \<le> length b" using assms(1) by (rule blob_at_length)
  have off: "4 dvd off + PROP_HEADER" using assms(1) headers_dvd by (simp add: blob_at_def)
  show "fits b off PROP_HEADER" "fits b (off + PROP_HEADER) (length (snd p))"
    using len by (simp_all add: fits_def encode_prop_length assms)
  then show "skip_property b off = Some (off + length (encode_prop p))"
    using len align4_pad [OF off, of "length (snd p)"]
    by (simp add: skip_property_def prop_len_at [OF assms] Let_def encode_prop_length assms)
qed


text \<open>The cursor loops step over the encoded parts.\<close>

lemma skip_many_at:
  "blob_at b off (concat (map enc xs)) \<Longrightarrow>
   (\<And>x. x \<in> set xs \<Longrightarrow> 4 dvd length (enc x)) \<Longrightarrow>
   (\<And>x o'. x \<in> set xs \<Longrightarrow> blob_at b o' (enc x) \<Longrightarrow> f o' = Some (o' + length (enc x))) \<Longrightarrow>
   skip_many f (length xs) off = Some (off + length (concat (map enc xs)))"
proof (induction xs arbitrary: off)
  case (Cons x xs)
  have "blob_at b off (enc x @ concat (map enc xs))" using Cons.prems(1) by simp
  from blob_at_append [OF this] Cons.prems(2)
  have parts: "blob_at b off (enc x)" "blob_at b (off + length (enc x)) (concat (map enc xs))" by auto
  have "skip_many f (length xs) (off + length (enc x)) = Some (off + length (enc x) + length (concat (map enc xs)))"
    by (rule Cons.IH [OF parts(2)]) (use Cons.prems in auto)
  then show ?case using Cons.prems(3) [OF _ parts(1)] by (simp add: add.assoc)
qed simp

lemma concat_dvd: "(\<And>x. x \<in> set xs \<Longrightarrow> 4 dvd length (enc x)) \<Longrightarrow> 4 dvd length (concat (map enc xs))"
  by (induction xs) auto

lemma skip_properties_at:
  assumes "blob_at b off (concat (map encode_prop ps))" "list_all prop_ok ps"
  shows "skip_many (skip_property b) (length ps) off = Some (off + length (concat (map encode_prop ps)))"
  by (rule skip_many_at [OF assms(1)]) (use assms(2) in \<open>auto simp: list_all_iff encode_prop_dvd skip_property_at\<close>)

lemma encode_dvd: "tree_ok t \<Longrightarrow> 4 dvd length (encode t)"
proof (induction t)
  case (DT_TREE ps cs)
  have "4 dvd length (concat (map encode_prop ps))"
    by (rule concat_dvd) (use DT_TREE.prems in \<open>auto simp: list_all_iff encode_prop_dvd\<close>)
  moreover have "4 dvd length (concat (map encode cs))"
    by (rule concat_dvd) (use DT_TREE in \<open>auto simp: list_all_iff\<close>)
  ultimately show ?case by (simp del: length_concat)
qed

lemma node_at:
  assumes "blob_at b off (encode (DT_TREE ps cs))" "tree_ok (DT_TREE ps cs)"
  obtains n where "read_node b off = Some n" "unat (n_props n) = length ps" "unat (n_children n) = length cs"
    "props_off n = off + NODE_HEADER" "blob_at b (props_off n) (concat (map encode_prop ps))"
    "blob_at b (props_off n + length (concat (map encode_prop ps))) (concat (map encode cs))"
proof -
  let ?h1 = "le_put 4 (of_nat (length ps) :: u32)" and ?h2 = "le_put 4 (of_nat (length cs) :: u32)"
  have "blob_at b off (?h1 @ ?h2 @ concat (map encode_prop ps) @ concat (map encode cs))" using assms(1) by simp
  from blob_at_append [OF this] have h1: "blob_at b off ?h1"
    and rest1: "blob_at b (off + 4) (?h2 @ concat (map encode_prop ps) @ concat (map encode cs))" by simp_all
  from blob_at_append [OF rest1] have h2: "blob_at b (off + 4) ?h2"
    and rest2: "blob_at b (off + NODE_HEADER) (concat (map encode_prop ps) @ concat (map encode cs))"
    by (simp_all add: NODE_HEADER_def add.commute)
  have dvd: "4 dvd length (concat (map encode_prop ps))"
    by (rule concat_dvd) (use assms(2) in \<open>auto simp: list_all_iff encode_prop_dvd\<close>)
  note rest3 = blob_at_append [OF rest2 dvd]
  have word: "dt_rd32 b o' = w" if "blob_at b o' (le_put 4 w)" for o' w
    using that by (auto simp: blob_at_def intro: dt_rd32_put)
  have "fits b off NODE_HEADER" using blob_at_length [OF rest2] by (simp add: fits_def)
  then show thesis
    using rest3 assms(2) word [OF h1] word [OF h2]
    by (intro that [of "\<lparr>node_offset = off, n_props = of_nat (length ps), n_children = of_nat (length cs), props_off = off + NODE_HEADER\<rparr>"])
      (simp_all add: read_node_def unat_of_nat_len)
qed

lemma levels_le: "levels (DT_TREE ps cs) \<le> Suc d \<longleftrightarrow> (\<forall>c \<in> set cs. levels c \<le> d)"
proof -
  have "fold max xs a \<le> d \<longleftrightarrow> a \<le> d \<and> (\<forall>x \<in> set xs. x \<le> d)" for xs and a :: nat
    by (induction xs arbitrary: a) auto
  then show ?thesis by simp
qed

lemma skip_levels_at:
  "blob_at b off (encode t) \<Longrightarrow> tree_ok t \<Longrightarrow> levels t \<le> d \<Longrightarrow> skip_levels d b off = Some (off + length (encode t))"
proof (induction d arbitrary: t off)
  case 0
  then show ?case by (cases t) simp
next
  case (Suc d)
  obtain ps cs where t: "t = DT_TREE ps cs" by (cases t)
  obtain n where n: "read_node b off = Some n" "unat (n_props n) = length ps" "unat (n_children n) = length cs"
    "props_off n = off + NODE_HEADER" "blob_at b (props_off n) (concat (map encode_prop ps))"
    "blob_at b (props_off n + length (concat (map encode_prop ps))) (concat (map encode cs))"
    using node_at Suc.prems(1,2) unfolding t by blast
  have "skip_many (skip_levels d b) (length cs) (props_off n + length (concat (map encode_prop ps))) =
      Some (props_off n + length (concat (map encode_prop ps)) + length (concat (map encode cs)))"
  proof (rule skip_many_at [OF n(6)])
    fix x assume "x \<in> set cs"
    then have "tree_ok x" "levels x \<le> d" using Suc.prems(2,3) by (auto simp: t list_all_iff levels_le simp del: levels.simps)
    then show "4 dvd length (encode x)" "blob_at b o' (encode x) \<Longrightarrow> skip_levels d b o' = Some (o' + length (encode x))" for o'
      using encode_dvd Suc.IH by auto
  qed
  moreover have "skip_many (skip_property b) (length ps) (props_off n) = Some (props_off n + length (concat (map encode_prop ps)))"
    by (rule skip_properties_at [OF n(5)]) (use Suc.prems in \<open>simp add: t\<close>)
  ultimately show ?case using n by (simp add: t NODE_HEADER_def del: length_concat)
qed


lemma skip_many_fails: "x < n \<Longrightarrow> skip_many f x off = Some o' \<Longrightarrow> f o' = None \<Longrightarrow> skip_many f n off = None"
proof (induction x arbitrary: n off)
  case 0
  then show ?case by (cases n) auto
next
  case (Suc x)
  then show ?case by (cases n) (auto simp: bind_eq_Some_conv)
qed

lemma skip_levels_deep:
  "blob_at b off (encode t) \<Longrightarrow> tree_ok t \<Longrightarrow> d < levels t \<Longrightarrow> skip_levels d b off = None"
proof (induction d arbitrary: t off)
  case (Suc d)
  obtain ps cs where t: "t = DT_TREE ps cs" by (cases t)
  obtain n where n: "read_node b off = Some n" "unat (n_props n) = length ps" "unat (n_children n) = length cs"
    "props_off n = off + NODE_HEADER" "blob_at b (props_off n) (concat (map encode_prop ps))"
    "blob_at b (props_off n + length (concat (map encode_prop ps))) (concat (map encode cs))"
    using node_at Suc.prems(1,2) unfolding t by blast
  let ?cur = "props_off n + length (concat (map encode_prop ps))"
  have "\<exists>c \<in> set cs. d < levels c" using Suc.prems(3) levels_le [of ps cs d] by (force simp: t simp del: levels.simps)
  then obtain xs c ys where cs: "cs = xs @ c # ys" "d < levels c" "\<forall>x \<in> set xs. \<not> d < levels x"
    using split_list_first_prop [of cs "\<lambda>c. d < levels c"] by blast
  have ok: "\<And>x. x \<in> set cs \<Longrightarrow> tree_ok x" using Suc.prems(2) by (auto simp: t list_all_iff)
  have "blob_at b ?cur (concat (map encode xs) @ (encode c @ concat (map encode ys)))" using n(6) by (simp add: cs)
  moreover have "4 dvd length (concat (map encode xs))"
    by (rule concat_dvd) (use ok cs encode_dvd in auto)
  ultimately have at: "blob_at b ?cur (concat (map encode xs))"
    "blob_at b (?cur + length (concat (map encode xs))) (encode c @ concat (map encode ys))"
    using blob_at_append by blast+
  have "skip_many (skip_levels d b) (length xs) ?cur = Some (?cur + length (concat (map encode xs)))"
    by (rule skip_many_at [OF at(1)]) (use ok cs encode_dvd in \<open>auto intro!: skip_levels_at simp: not_less\<close>)
  moreover have "skip_levels d b (?cur + length (concat (map encode xs))) = None"
    by (rule Suc.IH [OF _ ok cs(2)]) (use blob_at_append [OF at(2)] ok cs encode_dvd in auto)
  ultimately have "skip_many (skip_levels d b) (length cs) ?cur = None"
    by (intro skip_many_fails [of "length xs"]) (simp_all add: cs(1) del: length_concat)
  moreover have "skip_many (skip_property b) (length ps) (props_off n) = Some ?cur"
    by (rule skip_properties_at [OF n(5)]) (use Suc.prems in \<open>simp add: t\<close>)
  ultimately show ?case using n by (simp add: t del: length_concat)
qed simp

lemma strn_eq_name: "c_string s \<Longrightarrow> c_string name \<Longrightarrow> length s < n \<Longrightarrow> strn_eq n (s @ 0 # r) name \<longleftrightarrow> s = name"
proof (induction n arbitrary: s name)
  case (Suc n)
  then show ?case by (cases s; cases name) (auto simp: c_string_def Let_def)
qed simp

lemma strn_eq_take: "c_string name \<Longrightarrow> length name \<le> length v \<Longrightarrow>
  strn_eq (length name) (v @ r) name \<longleftrightarrow> take (length name) v = name"
proof (induction name arbitrary: v)
  case (Cons a name)
  then show ?case by (cases v) (auto simp: c_string_def Let_def)
qed simp

lemma encode_prop_parts:
  assumes "blob_at b off (encode_prop p)" "prop_ok p"
  shows "\<exists>r. drop off b = fst p @ 0 # r" "\<exists>r. drop (off + PROP_HEADER) b = snd p @ r"
proof -
  obtain r where r: "drop off b = encode_prop p @ r" using assms by (auto simp: blob_at_def)
  obtain k where k: "DT_PROP_NAME_LEN - length (fst p) = Suc k" using assms(2) by (cases "DT_PROP_NAME_LEN - length (fst p)") (auto simp: prop_ok_def)
  show "\<exists>r. drop off b = fst p @ 0 # r" by (simp add: r encode_prop_def k)
  have "drop (off + PROP_HEADER) b = drop PROP_HEADER (encode_prop p @ r)"
    using drop_drop [of PROP_HEADER off b] by (simp add: r add.commute)
  then show "\<exists>r. drop (off + PROP_HEADER) b = snd p @ r"
    using assms(2) by (auto simp: encode_prop_def prop_ok_def headers_dvd)
qed

lemma property_loop_at:
  "blob_at b cur (concat (map encode_prop ps)) \<Longrightarrow> list_all prop_ok ps \<Longrightarrow> c_string name \<Longrightarrow>
   (case map_of ps name of
      None \<Rightarrow> property_loop b name (length ps) cur = Inl DT_ERR_NOT_FOUND
    | Some v \<Rightarrow> \<exists>o' r. property_loop b name (length ps) cur = Inr (o', length v) \<and> drop o' b = v @ r)"
proof (induction ps arbitrary: cur)
  case (Cons p ps)
  then have p: "prop_ok p" by simp
  have "blob_at b cur (encode_prop p @ concat (map encode_prop ps))" using Cons.prems by simp
  from blob_at_append [OF this encode_prop_dvd [OF p]]
  have at: "blob_at b cur (encode_prop p)" "blob_at b (cur + length (encode_prop p)) (concat (map encode_prop ps))" .
  obtain r where "drop cur b = fst p @ 0 # r" using encode_prop_parts [OF at(1) p] by blast
  then have eq: "strn_eq DT_PROP_NAME_LEN (drop cur b) name \<longleftrightarrow> fst p = name"
    using p Cons.prems(3) by (simp add: strn_eq_name prop_ok_def)
  show ?case
  proof (cases "fst p = name")
    case True
    then show ?thesis using eq skip_property_at [OF at(1) p] encode_prop_parts(2) [OF at(1) p] prop_len_at [OF at(1) p]
      by (cases p) auto
  next
    case False
    then show ?thesis using eq skip_property_at [OF at(1) p] Cons.IH [OF at(2)] Cons.prems
      by (cases p) (auto split: option.splits)
  qed
qed simp

lemma property_at:
  assumes "blob_at b (node_offset n) (encode t)" "tree_ok t" "read_node b (node_offset n) = Some n" "c_string name"
  shows "case map_of (tree_props t) name of
      None \<Rightarrow> dt_property b n name = Inl DT_ERR_NOT_FOUND
    | Some v \<Rightarrow> \<exists>o' r. dt_property b n name = Inr (o', length v) \<and> drop o' b = v @ r"
proof -
  obtain ps cs where t: "t = DT_TREE ps cs" by (cases t)
  obtain n' where "read_node b (node_offset n) = Some n'" "unat (n_props n') = length ps"
    "blob_at b (props_off n') (concat (map encode_prop ps))"
    using node_at assms(1,2) unfolding t by blast
  then show ?thesis using property_loop_at [of b "props_off n" ps name] assms
    by (auto simp: t dt_property_def split: option.splits)
qed

lemma property_value_at:
  assumes "blob_at b (node_offset n) (encode t)" "tree_ok t" "read_node b (node_offset n) = Some n" "c_string name"
  shows "case map_of (tree_props t) name of
      None \<Rightarrow> dt_property b n name = Inl DT_ERR_NOT_FOUND
    | Some v \<Rightarrow> \<exists>o'. dt_property b n name = Inr (o', length v) \<and> take (length v) (drop o' b) = v"
  using property_at [OF assms] by (auto split: option.splits)

lemma named_at:
  assumes "blob_at b off (encode t)" "tree_ok t" "read_node b off = Some n" "c_string name"
  shows "child_matches b n name \<longleftrightarrow> tree_named name t"
proof -
  have ascii: "c_string ascii_name" by (simp add: c_string_def ascii_name_def)
  have n: "node_offset n = off" using assms(3) by (rule read_offset)
  show ?thesis
  proof (cases "map_of (tree_props t) ascii_name")
    case None
    then show ?thesis using property_at [of b n t ascii_name] assms ascii n by (simp add: child_matches_def tree_named_def)
  next
    case (Some v)
    then obtain o' r where o': "dt_property b n ascii_name = Inr (o', length v)" "drop o' b = v @ r"
      using property_at [of b n t ascii_name] assms ascii n by auto
    have nul: "b ! (o' + length name) = v ! length name" if "length name < length v"
      using that o'(2) nth_drop [of o' b "length name"] by (cases "o' \<le> length b") (auto simp: nth_append)
    have "child_matches b n name \<longleftrightarrow> length name \<le> length v \<and> strn_eq (length name) (v @ r) name \<and>
        (length v = length name \<or> b ! (o' + length name) = 0)"
      by (simp add: child_matches_def Let_def o')
    also have "\<dots> \<longleftrightarrow> length name \<le> length v \<and> take (length name) v = name \<and>
        (length v = length name \<or> v ! length name = 0)"
      using nul strn_eq_take [OF assms(4), of v r] by (metis le_neq_implies_less)
    also have "\<dots> \<longleftrightarrow> v = name \<or> (\<exists>r. v = name @ 0 # r)"
    proof (cases "length name < length v")
      case True
      then have "v = take (length name) v @ v ! length name # drop (Suc (length name)) v" by (rule id_take_nth_drop)
      then show ?thesis using True by (metis append_eq_conv_conj less_imp_le nat_neq_iff nth_append_length)
    next
      case False
      then show ?thesis by auto
    qed
    finally show ?thesis by (simp add: tree_named_def Some)
  qed
qed


lemma child_loop_at:
  assumes "c_string name"
  shows "blob_at b cur (concat (map encode cs)) \<Longrightarrow> list_all tree_ok cs \<Longrightarrow> (\<forall>c \<in> set cs. levels c \<le> DT_MAX_DEPTH) \<Longrightarrow>
   (case List.find (tree_named name) cs of
      None \<Rightarrow> child_loop b name (length cs) cur = Inl DT_ERR_NOT_FOUND
    | Some c \<Rightarrow> \<exists>n. child_loop b name (length cs) cur = Inr n \<and> blob_at b (node_offset n) (encode c) \<and>
        read_node b (node_offset n) = Some n)"
proof (induction cs arbitrary: cur)
  case (Cons c cs)
  then have c: "tree_ok c" by simp
  have "blob_at b cur (encode c @ concat (map encode cs))" using Cons.prems by simp
  from blob_at_append [OF this encode_dvd [OF c]]
  have at: "blob_at b cur (encode c)" "blob_at b (cur + length (encode c)) (concat (map encode cs))" .
  obtain n where n: "read_node b cur = Some n"
    by (cases c) (use node_at at(1) c in blast)
  have "skip_node b cur 0 = Some (cur + length (encode c))"
    unfolding skip_node_def by (rule skip_levels_at [OF at(1) c]) (use Cons.prems(3) in auto)
  then show ?case
    using n named_at [OF at(1) c n assms] at(1) read_offset [OF n] Cons.IH [OF at(2)] Cons.prems
    by (auto split: option.splits)
qed simp

lemma child_at:
  assumes "blob_at b (node_offset n) (encode t)" "tree_ok t" "levels t \<le> Suc DT_MAX_DEPTH"
    "read_node b (node_offset n) = Some n" "c_string name"
  shows "case List.find (tree_named name) (tree_children t) of
      None \<Rightarrow> dt_child b n name = Inl DT_ERR_NOT_FOUND
    | Some c \<Rightarrow> \<exists>m. dt_child b n name = Inr m \<and> blob_at b (node_offset m) (encode c) \<and> read_node b (node_offset m) = Some m"
proof -
  obtain ps cs where t: "t = DT_TREE ps cs" by (cases t)
  obtain n' where n': "read_node b (node_offset n) = Some n'" "unat (n_props n') = length ps" "unat (n_children n') = length cs"
    "blob_at b (props_off n') (concat (map encode_prop ps))"
    "blob_at b (props_off n' + length (concat (map encode_prop ps))) (concat (map encode cs))"
    using node_at assms(1,2) unfolding t by blast
  have same: "n' = n" using n'(1) assms(4) by simp
  have "\<forall>c \<in> set cs. levels c \<le> DT_MAX_DEPTH" using assms(3) by (simp only: t levels_le)
  then show ?thesis
    using child_loop_at [OF assms(5) n'(5)] skip_properties_at [OF n'(4)] n'(2,3) assms(2)
    unfolding same by (auto simp: t dt_child_def simp del: length_concat split: option.splits)
qed

lemma found_sub: "List.find P cs = Some c \<Longrightarrow> c \<in> set cs"
  by (auto simp: find_Some_iff)

lemma path_loop_at:
  assumes "read_node b (node_offset n) = Some n" "blob_at b (node_offset n) (encode t)" "tree_ok t"
    "levels t \<le> Suc DT_MAX_DEPTH" "list_all name_ok ss"
  shows "case tree_path t ss of
      None \<Rightarrow> path_loop b n (skip_slashes (path_string ss)) = Inl DT_ERR_NOT_FOUND
    | Some u \<Rightarrow> \<exists>m. path_loop b n (skip_slashes (path_string ss)) = Inr m \<and> blob_at b (node_offset m) (encode u) \<and>
        tree_ok u \<and> read_node b (node_offset m) = Some m"
  using assms
proof (induction ss arbitrary: n t)
  case Nil
  then show ?case by (simp add: path_string_def path_loop.simps)
next
  case (Cons s ss)
  have s: "s \<noteq> []" "SLASH \<notin> set s" "length s < DT_PROP_NAME_LEN" "c_string s" using Cons.prems(5) by (auto simp: name_ok_def)
  have strip: "skip_slashes (path_string (s # ss)) = s @ path_string ss"
    using s by (cases s) (auto simp: path_string_def)
  have name: "takeWhile (\<lambda>c. c \<noteq> SLASH) (s @ path_string ss) = s"
    using s(2) by (cases ss) (auto simp: path_string_def takeWhile_tail takeWhile_eq_all_conv)
  have step: "path_loop b n (s @ path_string ss) =
      (case dt_child b n s of Inl st \<Rightarrow> Inl st | Inr c \<Rightarrow> path_loop b c (skip_slashes (path_string ss)))"
    using s by (subst path_loop.simps) (auto simp: name Let_def split: sum.splits)
  note child = child_at [OF Cons.prems(2,3,4,1) s(4)]
  show ?case
  proof (cases "List.find (tree_named s) (tree_children t)")
    case None
    then show ?thesis using child by (simp add: strip step)
  next
    case (Some c)
    then obtain m where m: "dt_child b n s = Inr m" "blob_at b (node_offset m) (encode c)" "read_node b (node_offset m) = Some m"
      using child by auto
    have "c \<in> set (tree_children t)" using Some by (rule found_sub)
    then have "tree_ok c" "levels c \<le> DT_MAX_DEPTH"
      using Cons.prems(3,4) levels_le by (cases t; auto simp: list_all_iff simp del: levels.simps)+
    then have "case tree_path c ss of
      None \<Rightarrow> path_loop b m (skip_slashes (path_string ss)) = Inl DT_ERR_NOT_FOUND
    | Some u \<Rightarrow> \<exists>m'. path_loop b m (skip_slashes (path_string ss)) = Inr m' \<and> blob_at b (node_offset m') (encode u) \<and>
        tree_ok u \<and> read_node b (node_offset m') = Some m'"
      using Cons.IH [OF m(3,2)] Cons.prems(5) by simp
    moreover have "path_loop b n (skip_slashes (path_string (s # ss))) = path_loop b m (skip_slashes (path_string ss))"
      by (simp add: strip step m)
    moreover have "tree_path t (s # ss) = tree_path c ss" by (simp add: Some)
    ultimately show ?thesis by (simp only:)
  qed
qed

lemma parse_cases: "dt_parse x = Inl DT_ERR_TRUNCATED \<or> (\<exists>root. dt_parse x = Inr root)"
  by (auto simp: dt_parse_def split: option.splits)

text \<open>A root with one child named \<open>cpu\<close>, for the witnesses.\<close>

definition cpu_tree :: dt_tree where
  "cpu_tree = DT_TREE [] [DT_TREE [(ascii_name, [0x63, 0x70, 0x75, 0])] []]"

lemma cpu_tree_ok: "tree_ok cpu_tree" "\<not> DT_MAX_DEPTH + 1 < levels cpu_tree"
  by (simp_all add: cpu_tree_def prop_ok_def c_string_def ascii_name_def DT_PROP_NAME_LEN_def DT_MAX_DEPTH_def)

lemma cpu_tree_parses: "\<exists>root. dt_parse (Some (encode cpu_tree)) = Inr root"
proof -
  have "skip_node (encode cpu_tree) 0 0 \<noteq> None"
    unfolding skip_node_def using skip_levels_at [of "encode cpu_tree" 0 cpu_tree "DT_MAX_DEPTH + 1 - 0"] cpu_tree_ok
    by (simp add: blob_at_def del: skip_levels.simps)
  then show ?thesis
    using parse_cases [of "Some (encode cpu_tree)"]
    by (auto simp: dt_parse_def cpu_tree_def NODE_HEADER_def read_node_def fits_def split: option.splits)
qed

subsection \<open>Properties\<close>

text \<open>
  C37. Once a blob from anywhere has been accepted by \<open>dt_parse\<close>, every later lookup is safe: a path
  lookup either finds nothing or a node whose header and whole subtree lie inside the blob, a property
  lookup on any such node either finds nothing or returns a value that lies inside the blob, and no
  lookup reports a truncated tree. A refused blob is always reported as truncated.
\<close>

theorem parsed_tree_lookups_safe:
  "(\<forall>st. dt_parse blob = Inl st \<longrightarrow> st = DT_ERR_TRUNCATED) \<and>
   (\<forall>b root. blob = Some b \<longrightarrow> dt_parse blob = Inr root \<longrightarrow>
      dt_path b root path = Inl DT_ERR_NOT_FOUND \<or>
      (\<exists>n last. dt_path b root path = Inr n \<and> skip_node b (node_offset n) 0 = Some last \<and>
         props_off n \<le> length b \<and>
         (dt_property b n name = Inl DT_ERR_NOT_FOUND \<or>
          (\<exists>v k. dt_property b n name = Inr (v, k) \<and> v + k \<le> length b))))"
proof (intro conjI allI impI)
  show "st = DT_ERR_TRUNCATED" if "dt_parse blob = Inl st" for st
    using that by (auto simp: dt_parse_def split: option.splits if_splits)
next
  fix b root assume "blob = Some b" "dt_parse blob = Inr root"
  then have "node_valid b root" by (simp add: parse_valid)
  from path_valid [OF this, of path] show "dt_path b root path = Inl DT_ERR_NOT_FOUND \<or>
      (\<exists>n last. dt_path b root path = Inr n \<and> skip_node b (node_offset n) 0 = Some last \<and>
         props_off n \<le> length b \<and>
         (dt_property b n name = Inl DT_ERR_NOT_FOUND \<or>
          (\<exists>v k. dt_property b n name = Inr (v, k) \<and> v + k \<le> length b)))"
  proof
    assume "\<exists>c. dt_path b root path = Inr c \<and> node_valid b c"
    then obtain c where c: "dt_path b root path = Inr c" "node_valid b c" by blast
    then have "props_off c \<le> length b" "\<exists>last. skip_node b (node_offset c) 0 = Some last"
      by (auto simp: node_valid_def read_node_def fits_def split: if_splits dest: arg_cong [of _ _ props_off])
    then show ?thesis using c property_valid [OF c(2), of name] by blast
  qed simp
qed

theorem parsed_tree_lookups_safe_witness:
  "\<exists>root. dt_parse (Some (encode cpu_tree)) = Inr root \<and>
     (dt_path (encode cpu_tree) root [0x78] = Inl DT_ERR_NOT_FOUND \<or>
      (\<exists>n last. dt_path (encode cpu_tree) root [0x78] = Inr n \<and> skip_node (encode cpu_tree) (node_offset n) 0 = Some last)) \<and>
     dt_parse None = Inl DT_ERR_TRUNCATED"
proof -
  obtain root where "dt_parse (Some (encode cpu_tree)) = Inr root" using cpu_tree_parses by blast
  then show ?thesis
    using parsed_tree_lookups_safe [of "Some (encode cpu_tree)" "[0x78]" ascii_name]
      parsed_tree_lookups_safe [of None "[0x78]" ascii_name] by (auto simp: dt_parse_def)
qed

text \<open>
  C36. The parser computes the abstract tree its input encodes: it accepts the serialised form of a tree,
  whatever bytes follow it, exactly when the tree has at most 33 levels; then a path lookup finds the
  node the path names in the tree, and a property lookup on it returns exactly the bytes of the first
  property of that name, or reports that there is none.
\<close>

theorem lookups_refine_tree:
  assumes "tree_ok t" "list_all name_ok ss" "c_string name"
  shows "(dt_parse (Some (encode t @ rest)) = Inl DT_ERR_TRUNCATED \<longleftrightarrow> DT_MAX_DEPTH + 1 < levels t) \<and>
    (\<forall>root. dt_parse (Some (encode t @ rest)) = Inr root \<longrightarrow>
      (case tree_path t ss of
         None \<Rightarrow> dt_path (encode t @ rest) root (path_string ss) = Inl DT_ERR_NOT_FOUND
       | Some u \<Rightarrow> \<exists>n. dt_path (encode t @ rest) root (path_string ss) = Inr n \<and>
           (case map_of (tree_props u) name of
              None \<Rightarrow> dt_property (encode t @ rest) n name = Inl DT_ERR_NOT_FOUND
            | Some v \<Rightarrow> \<exists>o'. dt_property (encode t @ rest) n name = Inr (o', length v) \<and>
                take (length v) (drop o' (encode t @ rest)) = v)))"
proof (intro conjI allI impI)
  let ?b = "encode t @ rest"
  have at: "blob_at ?b 0 (encode t)" by (simp add: blob_at_def)
  have len: "\<not> length ?b < NODE_HEADER" by (cases t) (simp add: NODE_HEADER_def)
  obtain n where n: "read_node ?b 0 = Some n" by (cases t) (use node_at at assms(1) in blast)
  have skip: "skip_node ?b 0 0 = None \<longleftrightarrow> DT_MAX_DEPTH + 1 < levels t"
    using skip_levels_at [OF at assms(1), of "DT_MAX_DEPTH + 1"] skip_levels_deep [OF at assms(1), of "DT_MAX_DEPTH + 1"]
    by (cases "DT_MAX_DEPTH + 1 < levels t") (simp_all add: skip_node_def del: skip_levels.simps)
  show "dt_parse (Some ?b) = Inl DT_ERR_TRUNCATED \<longleftrightarrow> DT_MAX_DEPTH + 1 < levels t"
    using len n skip by (simp add: dt_parse_def)
  fix root assume root: "dt_parse (Some ?b) = Inr root"
  then have r: "root = n" "levels t \<le> Suc DT_MAX_DEPTH" "node_offset n = 0"
    using len n skip read_offset [OF n] by (simp_all add: dt_parse_def split: if_splits)
  have "case tree_path t ss of None \<Rightarrow> dt_path ?b root (path_string ss) = Inl DT_ERR_NOT_FOUND
     | Some u \<Rightarrow> \<exists>m. dt_path ?b root (path_string ss) = Inr m \<and> blob_at ?b (node_offset m) (encode u) \<and>
         tree_ok u \<and> read_node ?b (node_offset m) = Some m"
    unfolding dt_path_def by (rule path_loop_at) (use n at assms r in simp_all)
  then show "case tree_path t ss of
         None \<Rightarrow> dt_path ?b root (path_string ss) = Inl DT_ERR_NOT_FOUND
       | Some u \<Rightarrow> \<exists>n. dt_path ?b root (path_string ss) = Inr n \<and>
           (case map_of (tree_props u) name of
              None \<Rightarrow> dt_property ?b n name = Inl DT_ERR_NOT_FOUND
            | Some v \<Rightarrow> \<exists>o'. dt_property ?b n name = Inr (o', length v) \<and> take (length v) (drop o' ?b) = v)"
  proof (cases "tree_path t ss")
    case (Some u)
    assume "case tree_path t ss of None \<Rightarrow> dt_path ?b root (path_string ss) = Inl DT_ERR_NOT_FOUND
     | Some u \<Rightarrow> \<exists>m. dt_path ?b root (path_string ss) = Inr m \<and> blob_at ?b (node_offset m) (encode u) \<and>
         tree_ok u \<and> read_node ?b (node_offset m) = Some m"
    then obtain m where m: "dt_path ?b root (path_string ss) = Inr m" "blob_at ?b (node_offset m) (encode u)"
      "tree_ok u" "read_node ?b (node_offset m) = Some m" unfolding Some option.case by blast
    show ?thesis unfolding Some option.case
      by (rule exI, rule conjI [OF m(1)], rule property_value_at [OF m(2,3,4) assms(3)])
  qed simp
qed

theorem lookups_refine_tree_witness:
  "\<exists>root n o'. dt_parse (Some (encode cpu_tree)) = Inr root \<and>
     dt_path (encode cpu_tree) root (path_string [[0x63, 0x70, 0x75]]) = Inr n \<and>
     dt_property (encode cpu_tree) n ascii_name = Inr (o', 4) \<and>
     take 4 (drop o' (encode cpu_tree)) = [0x63, 0x70, 0x75, 0]"
proof -
  obtain root where root: "dt_parse (Some (encode cpu_tree)) = Inr root" using cpu_tree_parses by blast
  have names: "list_all name_ok [[0x63, 0x70, 0x75]]" "c_string ascii_name"
    by (simp_all add: name_ok_def c_string_def ascii_name_def DT_PROP_NAME_LEN_def)
  have path: "tree_path cpu_tree [[0x63, 0x70, 0x75]] = Some (DT_TREE [(ascii_name, [0x63, 0x70, 0x75, 0])] [])"
    by (simp add: cpu_tree_def tree_named_def)
  show ?thesis
    using lookups_refine_tree [OF cpu_tree_ok(1) names, of "[]", THEN conjunct2, unfolded append_Nil2 path,
        rule_format, OF root] root by (auto simp: numeral_eq_Suc)
qed

end
