(* ===== verification/Aes.thy ===== *)
theory Aes
  imports Prelude
begin

text \<open>
  AES with 128, 192 and 256 bit keys and its CBC mode, of core/src/firmware/aes.c: the tables, the key
  schedule, the two block functions and the two modes, and the proof that decryption undoes encryption
  for every key, IV and message of whole blocks. The 16-byte state is a list in the column-major order
  of the C array. The inverse table, built once behind a flag by the first \<open>aes_init\<close>, is the value it has
  from then on. Both modes read a block of the input before they write that block of the output, so the
  in-place use the header allows is the same function of the input.
\<close>

subsection \<open>Tables and field arithmetic\<close>

definition SBOX :: "u8 list" where
  "SBOX = [
    0x63, 0x7c, 0x77, 0x7b, 0xf2, 0x6b, 0x6f, 0xc5, 0x30, 0x01, 0x67, 0x2b, 0xfe, 0xd7, 0xab, 0x76,
    0xca, 0x82, 0xc9, 0x7d, 0xfa, 0x59, 0x47, 0xf0, 0xad, 0xd4, 0xa2, 0xaf, 0x9c, 0xa4, 0x72, 0xc0,
    0xb7, 0xfd, 0x93, 0x26, 0x36, 0x3f, 0xf7, 0xcc, 0x34, 0xa5, 0xe5, 0xf1, 0x71, 0xd8, 0x31, 0x15,
    0x04, 0xc7, 0x23, 0xc3, 0x18, 0x96, 0x05, 0x9a, 0x07, 0x12, 0x80, 0xe2, 0xeb, 0x27, 0xb2, 0x75,
    0x09, 0x83, 0x2c, 0x1a, 0x1b, 0x6e, 0x5a, 0xa0, 0x52, 0x3b, 0xd6, 0xb3, 0x29, 0xe3, 0x2f, 0x84,
    0x53, 0xd1, 0x00, 0xed, 0x20, 0xfc, 0xb1, 0x5b, 0x6a, 0xcb, 0xbe, 0x39, 0x4a, 0x4c, 0x58, 0xcf,
    0xd0, 0xef, 0xaa, 0xfb, 0x43, 0x4d, 0x33, 0x85, 0x45, 0xf9, 0x02, 0x7f, 0x50, 0x3c, 0x9f, 0xa8,
    0x51, 0xa3, 0x40, 0x8f, 0x92, 0x9d, 0x38, 0xf5, 0xbc, 0xb6, 0xda, 0x21, 0x10, 0xff, 0xf3, 0xd2,
    0xcd, 0x0c, 0x13, 0xec, 0x5f, 0x97, 0x44, 0x17, 0xc4, 0xa7, 0x7e, 0x3d, 0x64, 0x5d, 0x19, 0x73,
    0x60, 0x81, 0x4f, 0xdc, 0x22, 0x2a, 0x90, 0x88, 0x46, 0xee, 0xb8, 0x14, 0xde, 0x5e, 0x0b, 0xdb,
    0xe0, 0x32, 0x3a, 0x0a, 0x49, 0x06, 0x24, 0x5c, 0xc2, 0xd3, 0xac, 0x62, 0x91, 0x95, 0xe4, 0x79,
    0xe7, 0xc8, 0x37, 0x6d, 0x8d, 0xd5, 0x4e, 0xa9, 0x6c, 0x56, 0xf4, 0xea, 0x65, 0x7a, 0xae, 0x08,
    0xba, 0x78, 0x25, 0x2e, 0x1c, 0xa6, 0xb4, 0xc6, 0xe8, 0xdd, 0x74, 0x1f, 0x4b, 0xbd, 0x8b, 0x8a,
    0x70, 0x3e, 0xb5, 0x66, 0x48, 0x03, 0xf6, 0x0e, 0x61, 0x35, 0x57, 0xb9, 0x86, 0xc1, 0x1d, 0x9e,
    0xe1, 0xf8, 0x98, 0x11, 0x69, 0xd9, 0x8e, 0x94, 0x9b, 0x1e, 0x87, 0xe9, 0xce, 0x55, 0x28, 0xdf,
    0x8c, 0xa1, 0x89, 0x0d, 0xbf, 0xe6, 0x42, 0x68, 0x41, 0x99, 0x2d, 0x0f, 0xb0, 0x54, 0xbb, 0x16]"

definition build_tables :: "u8 list" where
  "build_tables = fold (\<lambda>i t. t[unat (SBOX ! i) := of_nat i]) [0..<256] (replicate 256 0)"

definition INV_SBOX :: "u8 list" where
  "INV_SBOX = build_tables"

definition xtime :: "u8 \<Rightarrow> u8" where
  "xtime a = push_bit 1 a XOR (if a AND 0x80 \<noteq> 0 then 0x1b else 0)"

lemma unat_drop_bit_less:
  fixes b :: u8
  assumes "b \<noteq> 0" shows "unat (drop_bit 1 b) < unat b"
proof -
  have "unat (drop_bit 1 b) = unat b div 2"
    by (subst unat_drop_bit_eq) (simp add: drop_bit_eq_div)
  moreover have "0 < unat b" using assms by (simp add: unat_gt_0)
  ultimately show ?thesis by simp
qed

function gmul_loop :: "u8 \<Rightarrow> u8 \<Rightarrow> u8 \<Rightarrow> u8" where
  "gmul_loop r a b =
     (if b = 0 then r else gmul_loop (if b AND 1 \<noteq> 0 then r XOR a else r) (xtime a) (drop_bit 1 b))"
  by pat_completeness auto
termination
  by (relation "measure (\<lambda>(r, a, b). unat b)") (simp_all add: unat_drop_bit_less [unfolded One_nat_def])

declare gmul_loop.simps [simp del]

definition gmul :: "u8 \<Rightarrow> u8 \<Rightarrow> u8" where
  "gmul a b = gmul_loop 0 a b"

subsection \<open>Key schedule\<close>

record aes_ctx =
  rk :: "u32 list"
  rounds :: nat

definition sub_word :: "u32 \<Rightarrow> u32" where
  "sub_word w =
     push_bit 24 (ucast (SBOX ! unat (drop_bit 24 w AND 0xff))) OR push_bit 16 (ucast (SBOX ! unat (drop_bit 16 w AND 0xff)))
     OR push_bit 8 (ucast (SBOX ! unat (drop_bit 8 w AND 0xff))) OR ucast (SBOX ! unat (w AND 0xff))"

definition rot_word :: "u32 \<Rightarrow> u32" where
  "rot_word w = push_bit 8 w OR drop_bit 24 w"

definition key_word :: "u8 list \<Rightarrow> nat \<Rightarrow> u32" where
  "key_word key i =
     push_bit 24 (ucast (key ! (4 * i))) OR push_bit 16 (ucast (key ! (4 * i + 1)))
     OR push_bit 8 (ucast (key ! (4 * i + 2))) OR ucast (key ! (4 * i + 3))"

text \<open>The loop from \<open>nk\<close> to the total, whose counter is the length of the schedule so far.\<close>

primrec expand_key :: "nat \<Rightarrow> nat \<Rightarrow> u8 \<Rightarrow> u32 list \<Rightarrow> u32 list" where
  "expand_key 0 nk rcon ws = ws"
| "expand_key (Suc n) nk rcon ws =
     (let i = length ws; t = ws ! (i - 1);
          (t, rcon) =
            (if i mod nk = 0 then (sub_word (rot_word t) XOR push_bit 24 (ucast rcon), xtime rcon)
             else if nk > 6 \<and> i mod nk = 4 then (sub_word t, rcon)
             else (t, rcon))
      in expand_key n nk rcon (ws @ [ws ! (i - nk) XOR t]))"

definition aes_init :: "u8 list \<Rightarrow> nat \<Rightarrow> aes_ctx option" where
  "aes_init key key_bits =
     (case (if key_bits = 128 then Some (4, 10) else if key_bits = 192 then Some (6, 12)
            else if key_bits = 256 then Some (8, 14) else None) of
        None \<Rightarrow> None
      | Some (nk, n) \<Rightarrow>
          Some \<lparr>rk = expand_key (4 * (n + 1) - nk) nk 1 (map (key_word key) [0..<nk]), rounds = n\<rparr>)"

subsection \<open>The block functions\<close>

definition round_byte :: "u32 \<Rightarrow> nat \<Rightarrow> u8" where
  "round_byte w r = ucast (drop_bit (24 - 8 * r) w)"

definition add_round_key :: "u32 list \<Rightarrow> nat \<Rightarrow> u8 list \<Rightarrow> u8 list" where
  "add_round_key ws k s = map (\<lambda>i. s ! i XOR round_byte (ws ! (k + i div 4)) (i mod 4)) [0..<16]"

definition sub_bytes :: "u8 list \<Rightarrow> u8 list \<Rightarrow> u8 list" where
  "sub_bytes table s = map (\<lambda>i. table ! unat (s ! i)) [0..<16]"

definition row_positions :: "(nat \<times> nat) list" where
  "row_positions = [(r, c). r \<leftarrow> [1..<4], c \<leftarrow> [0..<4]]"

definition shift_rows :: "u8 list \<Rightarrow> u8 list" where
  "shift_rows t = fold (\<lambda>(r, c) s. s[4 * c + r := t ! (4 * ((c + r) mod 4) + r)]) row_positions t"

definition inv_shift_rows :: "u8 list \<Rightarrow> u8 list" where
  "inv_shift_rows t = fold (\<lambda>(r, c) s. s[4 * ((c + r) mod 4) + r := t ! (4 * c + r)]) row_positions t"

fun mix_column :: "u8 list \<Rightarrow> u8 list" where
  "mix_column [a0, a1, a2, a3] =
     (let x = a0 XOR a1 XOR a2 XOR a3 in
      [a0 XOR (x XOR xtime (a0 XOR a1)), a1 XOR (x XOR xtime (a1 XOR a2)),
       a2 XOR (x XOR xtime (a2 XOR a3)), a3 XOR (x XOR xtime (a3 XOR a0))])"
| "mix_column p = p"

fun inv_mix_column :: "u8 list \<Rightarrow> u8 list" where
  "inv_mix_column [a0, a1, a2, a3] =
     [gmul a0 14 XOR gmul a1 11 XOR gmul a2 13 XOR gmul a3 9,
      gmul a0 9 XOR gmul a1 14 XOR gmul a2 11 XOR gmul a3 13,
      gmul a0 13 XOR gmul a1 9 XOR gmul a2 14 XOR gmul a3 11,
      gmul a0 11 XOR gmul a1 13 XOR gmul a2 9 XOR gmul a3 14]"
| "inv_mix_column p = p"

definition each_column :: "(u8 list \<Rightarrow> u8 list) \<Rightarrow> u8 list \<Rightarrow> u8 list" where
  "each_column f s = concat (map (\<lambda>c. f (take 4 (drop (4 * c) s))) [0..<4])"

definition mix_columns :: "u8 list \<Rightarrow> u8 list" where
  "mix_columns s = each_column mix_column s"

definition inv_mix_columns :: "u8 list \<Rightarrow> u8 list" where
  "inv_mix_columns s = each_column inv_mix_column s"

definition aes_encrypt_block :: "aes_ctx \<Rightarrow> u8 list \<Rightarrow> u8 list" where
  "aes_encrypt_block ctx inp =
     (let s = add_round_key (rk ctx) 0 inp;
          s = fold (\<lambda>r s. add_round_key (rk ctx) (4 * r) (mix_columns (shift_rows (sub_bytes SBOX s))))
                [1..<rounds ctx] s
      in add_round_key (rk ctx) (4 * rounds ctx) (shift_rows (sub_bytes SBOX s)))"

definition aes_decrypt_block :: "aes_ctx \<Rightarrow> u8 list \<Rightarrow> u8 list" where
  "aes_decrypt_block ctx inp =
     (let s = add_round_key (rk ctx) (4 * rounds ctx) inp;
          s = fold (\<lambda>r s. inv_mix_columns (add_round_key (rk ctx) (4 * r) (sub_bytes INV_SBOX (inv_shift_rows s))))
                (rev [1..<rounds ctx]) s
      in add_round_key (rk ctx) 0 (sub_bytes INV_SBOX (inv_shift_rows s)))"

subsection \<open>CBC\<close>

definition xor_block :: "u8 list \<Rightarrow> u8 list \<Rightarrow> u8 list" where
  "xor_block a b = map (\<lambda>i. a ! i XOR b ! i) [0..<16]"

function cbc_decrypt_loop :: "aes_ctx \<Rightarrow> u8 list \<Rightarrow> u8 list \<Rightarrow> u8 list" where
  "cbc_decrypt_loop ctx prev inp =
     (if inp = [] then []
      else let cipher = take 16 inp
           in xor_block (aes_decrypt_block ctx cipher) prev @ cbc_decrypt_loop ctx cipher (drop 16 inp))"
  by pat_completeness auto
termination
  by (relation "measure (\<lambda>(ctx, prev, inp). length inp)") auto

function cbc_encrypt_loop :: "aes_ctx \<Rightarrow> u8 list \<Rightarrow> u8 list \<Rightarrow> u8 list" where
  "cbc_encrypt_loop ctx prev inp =
     (if inp = [] then []
      else let prev = aes_encrypt_block ctx (xor_block (take 16 inp) prev)
           in prev @ cbc_encrypt_loop ctx prev (drop 16 inp))"
  by pat_completeness auto
termination
  by (relation "measure (\<lambda>(ctx, prev, inp). length inp)") auto

declare cbc_decrypt_loop.simps [simp del] cbc_encrypt_loop.simps [simp del]

definition aes_cbc_decrypt :: "aes_ctx \<Rightarrow> u8 list \<Rightarrow> u8 list \<Rightarrow> u8 list option" where
  "aes_cbc_decrypt ctx iv inp = (if length inp mod 16 \<noteq> 0 then None else Some (cbc_decrypt_loop ctx iv inp))"

definition aes_cbc_encrypt :: "aes_ctx \<Rightarrow> u8 list \<Rightarrow> u8 list \<Rightarrow> u8 list option" where
  "aes_cbc_encrypt ctx iv inp = (if length inp mod 16 \<noteq> 0 then None else Some (cbc_encrypt_loop ctx iv inp))"

subsection \<open>The inverse table\<close>

lemma table_fold:
  "distinct (map (\<lambda>i. unat (ts ! i)) [0..<n]) \<Longrightarrow> (\<And>i. i < n \<Longrightarrow> unat (ts ! i) < length t) \<Longrightarrow> i < n \<Longrightarrow>
   fold (\<lambda>i t. t[unat (ts ! i) := f i]) [0..<n] t ! unat (ts ! i) = f i"
proof (induction n)
  case 0
  then show ?case by simp
next
  case (Suc n)
  have len: "length (fold (\<lambda>i t. t[unat (ts ! i) := f i]) xs t) = length t" for xs
    by (induction xs arbitrary: t) auto
  show ?case
  proof (cases "i = n")
    case True
    then show ?thesis using Suc.prems by (simp add: len)
  next
    case False
    then have "unat (ts ! n) \<noteq> unat (ts ! i)" using Suc.prems(1,3) by (auto simp: image_iff)
    then show ?thesis using Suc False by simp
  qed
qed

text \<open>The S-box is injective: an explicit left inverse, checked entry by entry.\<close>

definition sbox_inverse :: "nat list" where
  "sbox_inverse = [
    0x52, 0x09, 0x6a, 0xd5, 0x30, 0x36, 0xa5, 0x38, 0xbf, 0x40, 0xa3, 0x9e, 0x81, 0xf3, 0xd7, 0xfb,
    0x7c, 0xe3, 0x39, 0x82, 0x9b, 0x2f, 0xff, 0x87, 0x34, 0x8e, 0x43, 0x44, 0xc4, 0xde, 0xe9, 0xcb,
    0x54, 0x7b, 0x94, 0x32, 0xa6, 0xc2, 0x23, 0x3d, 0xee, 0x4c, 0x95, 0x0b, 0x42, 0xfa, 0xc3, 0x4e,
    0x08, 0x2e, 0xa1, 0x66, 0x28, 0xd9, 0x24, 0xb2, 0x76, 0x5b, 0xa2, 0x49, 0x6d, 0x8b, 0xd1, 0x25,
    0x72, 0xf8, 0xf6, 0x64, 0x86, 0x68, 0x98, 0x16, 0xd4, 0xa4, 0x5c, 0xcc, 0x5d, 0x65, 0xb6, 0x92,
    0x6c, 0x70, 0x48, 0x50, 0xfd, 0xed, 0xb9, 0xda, 0x5e, 0x15, 0x46, 0x57, 0xa7, 0x8d, 0x9d, 0x84,
    0x90, 0xd8, 0xab, 0x00, 0x8c, 0xbc, 0xd3, 0x0a, 0xf7, 0xe4, 0x58, 0x05, 0xb8, 0xb3, 0x45, 0x06,
    0xd0, 0x2c, 0x1e, 0x8f, 0xca, 0x3f, 0x0f, 0x02, 0xc1, 0xaf, 0xbd, 0x03, 0x01, 0x13, 0x8a, 0x6b,
    0x3a, 0x91, 0x11, 0x41, 0x4f, 0x67, 0xdc, 0xea, 0x97, 0xf2, 0xcf, 0xce, 0xf0, 0xb4, 0xe6, 0x73,
    0x96, 0xac, 0x74, 0x22, 0xe7, 0xad, 0x35, 0x85, 0xe2, 0xf9, 0x37, 0xe8, 0x1c, 0x75, 0xdf, 0x6e,
    0x47, 0xf1, 0x1a, 0x71, 0x1d, 0x29, 0xc5, 0x89, 0x6f, 0xb7, 0x62, 0x0e, 0xaa, 0x18, 0xbe, 0x1b,
    0xfc, 0x56, 0x3e, 0x4b, 0xc6, 0xd2, 0x79, 0x20, 0x9a, 0xdb, 0xc0, 0xfe, 0x78, 0xcd, 0x5a, 0xf4,
    0x1f, 0xdd, 0xa8, 0x33, 0x88, 0x07, 0xc7, 0x31, 0xb1, 0x12, 0x10, 0x59, 0x27, 0x80, 0xec, 0x5f,
    0x60, 0x51, 0x7f, 0xa9, 0x19, 0xb5, 0x4a, 0x0d, 0x2d, 0xe5, 0x7a, 0x9f, 0x93, 0xc9, 0x9c, 0xef,
    0xa0, 0xe0, 0x3b, 0x4d, 0xae, 0x2a, 0xf5, 0xb0, 0xc8, 0xeb, 0xbb, 0x3c, 0x83, 0x53, 0x99, 0x61,
    0x17, 0x2b, 0x04, 0x7e, 0xba, 0x77, 0xd6, 0x26, 0xe1, 0x69, 0x14, 0x63, 0x55, 0x21, 0x0c, 0x7d]"

lemma sbox_inverse_left: "map (\<lambda>b. sbox_inverse ! unat b) SBOX = [0..<256]"
  by code_simp

lemma sbox_left: "i < 256 \<Longrightarrow> sbox_inverse ! unat (SBOX ! i) = i"
proof -
  assume i: "i < 256"
  have "length SBOX = 256"
    using arg_cong [OF sbox_inverse_left, of length] by simp
  then show ?thesis
    using arg_cong [OF sbox_inverse_left, of "\<lambda>xs. xs ! i"] i by simp
qed

lemma inv_sbox: "INV_SBOX ! unat (SBOX ! unat b) = (b :: u8)"
proof -
  have "inj_on (\<lambda>i. unat (SBOX ! i)) (set [0..<256])"
    by (rule inj_on_inverseI [of _ "\<lambda>k. sbox_inverse ! k"]) (simp add: sbox_left)
  then have "distinct (map (\<lambda>i. unat (SBOX ! i)) [0..<256])"
    by (simp add: distinct_map)
  moreover have "unat (SBOX ! i) < 256" for i
    using unsigned_less [where 'a = nat, of "SBOX ! i"] by simp
  moreover have "unat b < 256"
    using unsigned_less [where 'a = nat, of b] by simp
  ultimately show ?thesis
    using table_fold [of SBOX 256 "replicate 256 0" "unat b" "of_nat :: nat \<Rightarrow> u8"]
    by (simp add: INV_SBOX_def build_tables_def)
qed

subsection \<open>Columns\<close>

lemma xtime_xor: "xtime (a XOR b) = xtime a XOR xtime b"
proof -
  have m: "a AND 0x80 \<noteq> 0 \<longleftrightarrow> bit a 7" for a :: u8
    using and_exp_eq_0_iff_not_bit [of a 7] by simp
  show ?thesis
    by (rule bit_word_eqI) (auto simp: xtime_def m bit_xor_iff bit_push_bit_iff)
qed

lemma gmul_consts:
  "gmul a 9 = a XOR xtime (xtime (xtime a))"
  "gmul a 11 = a XOR xtime a XOR xtime (xtime (xtime a))"
  "gmul a 13 = a XOR xtime (xtime a) XOR xtime (xtime (xtime a))"
  "gmul a 14 = xtime a XOR xtime (xtime a) XOR xtime (xtime (xtime a))"
  by (simp_all add: gmul_def gmul_loop.simps xor.assoc)

lemma xor_cancel: "a XOR (a XOR b) = (b :: u8)"
  by (simp add: xor.assoc [symmetric])

lemma column_inverse: "length p = 4 \<Longrightarrow> inv_mix_column (mix_column p) = p"
  by (cases p rule: mix_column.cases)
    (simp_all add: Let_def gmul_consts xtime_xor xor.assoc xor.commute xor.left_commute xor_cancel)


lemma column_length: "length (mix_column p) = length p"
  by (cases p rule: mix_column.cases) (simp_all add: Let_def)

subsection \<open>Lists of sixteen bytes\<close>

lemma sixteen:
  assumes "length s = 16"
  obtains a b c d e f g h i j k l m n p q where "s = [a, b, c, d, e, f, g, h, i, j, k, l, m, n, p, q]"
  using assms by (auto simp: numeral_eq_Suc length_Suc_conv)

lemma shift_inverse: "length s = 16 \<Longrightarrow> inv_shift_rows (shift_rows s) = s"
  by (erule sixteen) (simp add: shift_rows_def inv_shift_rows_def row_positions_def upt_rec)

lemma shift_length: "length (shift_rows s) = length s"
  by (simp add: shift_rows_def row_positions_def upt_rec)

lemma block_lengths [simp]:
  "length (sub_bytes t s) = 16" "length (add_round_key ws k s) = 16" "length (xor_block a b) = 16"
  "length s = 16 \<Longrightarrow> length (shift_rows s) = 16"
  by (simp_all add: sub_bytes_def add_round_key_def xor_block_def shift_length)

lemma sub_inverse: "length s = 16 \<Longrightarrow> sub_bytes INV_SBOX (sub_bytes SBOX s) = s"
  by (rule nth_equalityI) (simp_all add: sub_bytes_def inv_sbox)

lemma ark_inverse: "length s = 16 \<Longrightarrow> add_round_key ws k (add_round_key ws k s) = s"
  by (rule nth_equalityI) (simp_all add: add_round_key_def xor.assoc)

lemma xor_block_inverse: "length a = 16 \<Longrightarrow> xor_block (xor_block a b) b = a"
  by (rule nth_equalityI) (simp_all add: xor_block_def xor.assoc)

lemma mix_length [simp]: "length s = 16 \<Longrightarrow> length (mix_columns s) = 16"
  by (simp add: mix_columns_def each_column_def column_length upt_rec)

lemma mix_inverse: "length s = 16 \<Longrightarrow> inv_mix_columns (mix_columns s) = s"
  by (erule sixteen)
    (simp add: mix_columns_def inv_mix_columns_def each_column_def upt_rec column_inverse column_length del: mix_column.simps inv_mix_column.simps)


subsection \<open>Blocks and chains\<close>

lemma round_inverse:
  "length s = 16 \<Longrightarrow>
   inv_mix_columns (add_round_key ws k (sub_bytes INV_SBOX (inv_shift_rows (shift_rows (sub_bytes SBOX
     (add_round_key ws k (mix_columns (shift_rows (sub_bytes SBOX s))))))))) = shift_rows (sub_bytes SBOX s)"
  by (simp add: shift_inverse sub_inverse ark_inverse mix_inverse)

lemma rounds_length:
  "length s = 16 \<Longrightarrow>
   length (fold (\<lambda>r s. add_round_key ws (4 * r) (mix_columns (shift_rows (sub_bytes SBOX s)))) rs s) = 16"
  by (induction rs arbitrary: s) simp_all

lemma rounds_inverse:
  assumes "length s = 16"
  shows "fold (\<lambda>r s. inv_mix_columns (add_round_key ws (4 * r) (sub_bytes INV_SBOX (inv_shift_rows s)))) (rev rs)
           (shift_rows (sub_bytes SBOX
             (fold (\<lambda>r s. add_round_key ws (4 * r) (mix_columns (shift_rows (sub_bytes SBOX s)))) rs s))) =
         shift_rows (sub_bytes SBOX s)"
proof (induction rs rule: rev_induct)
  case (snoc r rs)
  then show ?case by (simp add: round_inverse rounds_length assms)
qed simp

lemma block_inverse: "length b = 16 \<Longrightarrow> aes_decrypt_block ctx (aes_encrypt_block ctx b) = b"
  by (simp add: aes_decrypt_block_def aes_encrypt_block_def Let_def ark_inverse rounds_length rounds_inverse
      shift_inverse sub_inverse)

lemma encrypt_length [simp]: "length (aes_encrypt_block ctx b) = 16"
  by (simp add: aes_encrypt_block_def Let_def)

lemma cbc_loops_inverse:
  "length inp mod 16 = 0 \<Longrightarrow>
   cbc_decrypt_loop ctx prev (cbc_encrypt_loop ctx prev inp) = inp \<and> length (cbc_encrypt_loop ctx prev inp) = length inp"
proof (induction ctx prev inp rule: cbc_encrypt_loop.induct)
  case (1 ctx prev inp)
  show ?case
  proof (cases "inp = []")
    case True
    then show ?thesis by (simp add: cbc_encrypt_loop.simps cbc_decrypt_loop.simps)
  next
    case False
    then have ge: "16 \<le> length inp" using 1(2) by (cases "length inp < 16") auto
    define e where "e = aes_encrypt_block ctx (xor_block (take 16 inp) prev)"
    have e: "length e = 16" by (simp add: e_def)
    have "length (drop 16 inp) mod 16 = 0" using 1(2) by (simp add: le_mod_geq ge)
    then have IH: "cbc_decrypt_loop ctx e (cbc_encrypt_loop ctx e (drop 16 inp)) = drop 16 inp"
      "length (cbc_encrypt_loop ctx e (drop 16 inp)) = length inp - 16"
      using 1(1) [OF False e_def] by simp_all
    have enc: "cbc_encrypt_loop ctx prev inp = e @ cbc_encrypt_loop ctx e (drop 16 inp)"
      using False by (subst cbc_encrypt_loop.simps) (simp add: e_def Let_def)
    have "cbc_decrypt_loop ctx prev (e @ ys) = xor_block (aes_decrypt_block ctx e) prev @ cbc_decrypt_loop ctx e ys" for ys
      using e by (subst cbc_decrypt_loop.simps) (auto simp: Let_def)
    moreover have "xor_block (aes_decrypt_block ctx e) prev = take 16 inp"
      using ge by (simp add: e_def block_inverse xor_block_inverse)
    ultimately show ?thesis using ge e by (simp add: enc IH)
  qed
qed

text \<open>The schedule fills exactly the words the rounds read, and never more than the 60 of the array.\<close>

lemma expand_length: "length (expand_key n nk rcon ws) = length ws + n"
  by (induction n arbitrary: rcon ws) (simp_all add: Let_def split: if_splits prod.splits)

lemma schedule_length:
  "aes_init key bits = Some ctx \<Longrightarrow> length (rk ctx) = 4 * (rounds ctx + 1) \<and> rounds ctx \<le> 14"
  by (auto simp: aes_init_def expand_length split: if_splits)

subsection \<open>Properties\<close>

text \<open>
  Decrypting what CBC encryption produced, under any schedule and any initial vector, gives the
  message back, for every message of whole blocks; the output has the input's length and both modes
  refuse every other length without output. Every schedule \<open>aes_init\<close> builds fills exactly the words the
  rounds read, at most the 60 of its array.
\<close>

theorem cbc_roundtrip:
  "(length msg mod 16 = 0 \<longrightarrow>
      (\<exists>c. aes_cbc_encrypt ctx iv msg = Some c \<and> length c = length msg \<and> aes_cbc_decrypt ctx iv c = Some msg)) \<and>
   (length msg mod 16 \<noteq> 0 \<longrightarrow> aes_cbc_encrypt ctx iv msg = None \<and> aes_cbc_decrypt ctx iv msg = None) \<and>
   (aes_init key bits = Some ctx \<longrightarrow> length (rk ctx) = 4 * (rounds ctx + 1) \<and> length (rk ctx) \<le> 60)"
  using cbc_loops_inverse [of msg ctx iv] schedule_length [of key bits ctx]
  by (auto simp: aes_cbc_encrypt_def aes_cbc_decrypt_def)

theorem cbc_roundtrip_witness:
  "let ctx = the (aes_init (replicate 16 7) 128); iv = replicate 16 3; msg = replicate 32 1 in
   aes_cbc_decrypt ctx iv (the (aes_cbc_encrypt ctx iv msg)) = Some msg \<and> aes_cbc_encrypt ctx iv (0 # msg) = None \<and>
   length (rk ctx) = 4 * (rounds ctx + 1)"
proof -
  let ?ctx = "the (aes_init (replicate 16 7) 128)"
  have "aes_init (replicate 16 7) 128 = Some ?ctx" by (simp add: aes_init_def)
  then show ?thesis
    using cbc_roundtrip [of "replicate 32 1" ?ctx "replicate 16 3" "replicate 16 7" 128]
      cbc_roundtrip [of "0 # replicate 32 1" ?ctx "replicate 16 3" "replicate 16 7" 128]
    by (auto simp del: replicate.simps simp: Let_def)
qed

end
