(* ===== verification/Macho.thy ===== *)
theory Macho
  imports Prelude
begin

text \<open>
  The 32-bit Mach-O parser of core/src/firmware/macho.c, which reads the kernel image of a user-supplied
  firmware: the load-command walk with its checks, and the lookup of a segment by name. The buffer is a
  list with its stated length beside it, so that a read past the length would show. Sums the code forms
  in 64 bits cannot wrap and are natural numbers. The segment array is the list of its first
  \<open>segment_count\<close> entries; what the output holds after an error is not modelled.
\<close>

subsection \<open>The code\<close>

definition MH_MAGIC_32 :: u32 where "MH_MAGIC_32 = 0xfeedface"
definition MH_CPU_TYPE_ARM :: u32 where "MH_CPU_TYPE_ARM = 12"
definition LC_SEGMENT :: u32 where "LC_SEGMENT = 0x01"
definition LC_SYMTAB :: u32 where "LC_SYMTAB = 0x02"
definition LC_UNIXTHREAD :: u32 where "LC_UNIXTHREAD = 0x05"
definition LC_UUID :: u32 where "LC_UUID = 0x1b"
definition MACHO_MAX_SEGMENTS :: nat where "MACHO_MAX_SEGMENTS = 16"

datatype macho_status =
  MACHO_ERR_TOO_SMALL | MACHO_ERR_BAD_MAGIC | MACHO_ERR_NOT_ARM | MACHO_ERR_MALFORMED | MACHO_ERR_TOO_MANY
| MACHO_ERR_INVALID_ARGUMENT

record macho_seg =
  seg_name :: "u8 list"
  vmaddr :: u32
  vmsize :: u32
  fileoff :: u32
  filesize :: u32

record macho =
  cputype :: u32
  cpusubtype :: u32
  filetype :: u32
  segments :: "macho_seg list"
  has_entry :: bool
  entry :: u32
  entry_sp :: u32
  has_symtab :: bool
  symoff :: u32
  nsyms :: u32
  stroff :: u32
  strsize :: u32
  has_uuid :: bool
  uuid :: "u8 list"
  vm_low :: u32
  vm_high :: u32

definition mo_rd32 :: "u8 list \<Rightarrow> nat \<Rightarrow> u32" where
  "mo_rd32 p i = ucast (p ! i) OR push_bit 8 (ucast (p ! (i + 1)))
     OR push_bit 16 (ucast (p ! (i + 2))) OR push_bit 24 (ucast (p ! (i + 3)))"

abbreviation mo_rd :: "u8 list \<Rightarrow> nat \<Rightarrow> nat" where
  "mo_rd p i \<equiv> unat (mo_rd32 p i)"

definition read_segment :: "u8 list \<Rightarrow> nat \<Rightarrow> macho_seg" where
  "read_segment buf off =
     \<lparr>seg_name = take 16 (drop (off + 8) buf) @ [0], vmaddr = mo_rd32 buf (off + 24), vmsize = mo_rd32 buf (off + 28),
      fileoff = mo_rd32 buf (off + 32), filesize = mo_rd32 buf (off + 36)\<rparr>"

text \<open>The bounds of the mapped range, over a segment that occupies memory.\<close>

definition grow_range :: "macho_seg \<Rightarrow> macho \<Rightarrow> macho option" where
  "grow_range s m =
     (if vmsize s \<noteq> 0 then
        let m = (if vmaddr s < vm_low m then m\<lparr>vm_low := vmaddr s\<rparr> else m);
            last = unat (vmaddr s) + unat (vmsize s)
        in if last > 0xffffffff then None
           else Some (if last > unat (vm_high m) then m\<lparr>vm_high := of_nat last\<rparr> else m)
      else Some m)"

definition lc_segment :: "u8 list \<Rightarrow> nat \<Rightarrow> nat \<Rightarrow> nat \<Rightarrow> macho \<Rightarrow> macho_status + macho" where
  "lc_segment buf len off cmdsize m =
     (if cmdsize < 56 then Inl MACHO_ERR_MALFORMED
      else if 56 + mo_rd buf (off + 48) * 68 \<noteq> cmdsize then Inl MACHO_ERR_MALFORMED
      else if length (segments m) \<ge> MACHO_MAX_SEGMENTS then Inl MACHO_ERR_TOO_MANY
      else
        let s = read_segment buf off in
        if unat (fileoff s) + unat (filesize s) > len then Inl MACHO_ERR_MALFORMED
        else if filesize s > vmsize s then Inl MACHO_ERR_MALFORMED
        else case grow_range s m of
               None \<Rightarrow> Inl MACHO_ERR_MALFORMED
             | Some m \<Rightarrow> Inr (m\<lparr>segments := segments m @ [s]\<rparr>))"

definition lc_symtab :: "u8 list \<Rightarrow> nat \<Rightarrow> nat \<Rightarrow> nat \<Rightarrow> macho \<Rightarrow> macho_status + macho" where
  "lc_symtab buf len off cmdsize m =
     (if cmdsize < 24 then Inl MACHO_ERR_MALFORMED
      else if mo_rd buf (off + 8) + mo_rd buf (off + 12) * 12 > len then Inl MACHO_ERR_MALFORMED
      else if mo_rd buf (off + 16) + mo_rd buf (off + 20) > len then Inl MACHO_ERR_MALFORMED
      else Inr (m\<lparr>symoff := mo_rd32 buf (off + 8), nsyms := mo_rd32 buf (off + 12), stroff := mo_rd32 buf (off + 16),
                  strsize := mo_rd32 buf (off + 20), has_symtab := True\<rparr>))"

definition lc_unixthread :: "u8 list \<Rightarrow> nat \<Rightarrow> nat \<Rightarrow> macho \<Rightarrow> macho" where
  "lc_unixthread buf off cmdsize m =
     (if cmdsize \<ge> 8 + 8 + 17 * 4
      then m\<lparr>entry_sp := mo_rd32 buf (off + 16 + 13 * 4), entry := mo_rd32 buf (off + 16 + 15 * 4), has_entry := True\<rparr>
      else m)"

definition lc_uuid :: "u8 list \<Rightarrow> nat \<Rightarrow> nat \<Rightarrow> macho \<Rightarrow> macho_status + macho" where
  "lc_uuid buf off cmdsize m =
     (if cmdsize \<noteq> 24 \<or> has_uuid m then Inl MACHO_ERR_MALFORMED
      else Inr (m\<lparr>uuid := take 16 (drop (off + 8) buf), has_uuid := True\<rparr>))"

definition load_command :: "u8 list \<Rightarrow> nat \<Rightarrow> nat \<Rightarrow> nat \<Rightarrow> macho \<Rightarrow> macho_status + macho" where
  "load_command buf len off cmdsize m =
     (let cmd = mo_rd32 buf off in
      if cmd = LC_SEGMENT then lc_segment buf len off cmdsize m
      else if cmd = LC_SYMTAB then lc_symtab buf len off cmdsize m
      else if cmd = LC_UNIXTHREAD then Inr (lc_unixthread buf off cmdsize m)
      else if cmd = LC_UUID then lc_uuid buf off cmdsize m
      else Inr m)"

primrec command_loop :: "u8 list \<Rightarrow> nat \<Rightarrow> nat \<Rightarrow> nat \<Rightarrow> nat \<Rightarrow> macho \<Rightarrow> macho_status + nat \<times> macho" where
  "command_loop buf len cmds_end 0 off m = Inr (off, m)"
| "command_loop buf len cmds_end (Suc n) off m =
     (if off + 8 > cmds_end then Inl MACHO_ERR_MALFORMED
      else
        let cmdsize = mo_rd buf (off + 4) in
        if cmdsize < 8 \<or> off + cmdsize > cmds_end then Inl MACHO_ERR_MALFORMED
        else case load_command buf len off cmdsize m of
               Inl e \<Rightarrow> Inl e
             | Inr m \<Rightarrow> command_loop buf len cmds_end n (off + cmdsize) m)"

definition macho_zero :: macho where
  "macho_zero = \<lparr>cputype = 0, cpusubtype = 0, filetype = 0, segments = [], has_entry = False, entry = 0, entry_sp = 0,
     has_symtab = False, symoff = 0, nsyms = 0, stroff = 0, strsize = 0, has_uuid = False, uuid = replicate 16 0,
     vm_low = 0, vm_high = 0\<rparr>"

definition macho_parse :: "u8 list option \<Rightarrow> nat \<Rightarrow> macho_status + macho" where
  "macho_parse data len =
     (case data of
        None \<Rightarrow> Inl MACHO_ERR_TOO_SMALL
      | Some buf \<Rightarrow>
          if len < 28 then Inl MACHO_ERR_TOO_SMALL
          else if mo_rd32 buf 0 \<noteq> MH_MAGIC_32 then Inl MACHO_ERR_BAD_MAGIC
          else
            let m = macho_zero\<lparr>cputype := mo_rd32 buf 4, cpusubtype := mo_rd32 buf 8, filetype := mo_rd32 buf 12\<rparr> in
            if cputype m \<noteq> MH_CPU_TYPE_ARM then Inl MACHO_ERR_NOT_ARM
            else
              let cmds_end = 28 + mo_rd buf 20 in
              if cmds_end > len then Inl MACHO_ERR_MALFORMED
              else case command_loop buf len cmds_end (mo_rd buf 16) 28 (m\<lparr>vm_low := 0xffffffff\<rparr>) of
                     Inl e \<Rightarrow> Inl e
                   | Inr (off, m) \<Rightarrow>
                       if off \<noteq> cmds_end then Inl MACHO_ERR_MALFORMED
                       else Inr (if vm_low m = 0xffffffff then m\<lparr>vm_low := 0\<rparr> else m))"

definition macho_segment :: "macho \<Rightarrow> u8 list \<Rightarrow> macho_seg option" where
  "macho_segment m name = List.find (\<lambda>s. takeWhile (\<lambda>c. c \<noteq> 0) (seg_name s) = name) (segments m)"

subsection \<open>Reads stay inside the buffer\<close>

lemma rd32_same: "take len p = take len q \<Longrightarrow> i + 4 \<le> len \<Longrightarrow> mo_rd32 p i = mo_rd32 q i"
  using nth_same [of len p q] by (simp add: mo_rd32_def)

lemma load_command_same:
  assumes "take len p = take len q" "off + cmdsize \<le> len" "8 \<le> cmdsize"
  shows "load_command p len off cmdsize m = load_command q len off cmdsize m"
proof -
  have rd: "mo_rd32 p (off + k) = mo_rd32 q (off + k)" if "k + 4 \<le> cmdsize" for k
    using assms that by (intro rd32_same) auto
  have sl: "take 16 (drop (off + 8) p) = take 16 (drop (off + 8) q)" if "24 \<le> cmdsize"
    using assms that by (intro slice_same) auto
  have seg: "read_segment p off = read_segment q off" if "56 \<le> cmdsize"
    using that rd sl by (simp add: read_segment_def)
  have "lc_segment p len off cmdsize m = lc_segment q len off cmdsize m"
    using seg rd [of 48] by (cases "cmdsize < 56") (simp_all add: lc_segment_def)
  moreover have "lc_symtab p len off cmdsize m = lc_symtab q len off cmdsize m"
    using rd [of 8] rd [of 12] rd [of 16] rd [of 20] by (cases "cmdsize < 24") (simp_all add: lc_symtab_def)
  moreover have "lc_unixthread p off cmdsize m = lc_unixthread q off cmdsize m"
    using rd [of "16 + 13 * 4"] rd [of "16 + 15 * 4"]
    by (cases "8 + 8 + 17 * 4 \<le> cmdsize") (simp_all add: lc_unixthread_def add.commute)
  moreover have "lc_uuid p off cmdsize m = lc_uuid q off cmdsize m"
    using sl by (cases "cmdsize = 24") (simp_all add: lc_uuid_def)
  moreover have "mo_rd32 p off = mo_rd32 q off" using rd [of 0] assms by simp
  ultimately show ?thesis by (simp add: load_command_def Let_def)
qed

lemma command_loop_same:
  assumes "take len p = take len q" "cmds_end \<le> len"
  shows "command_loop p len cmds_end n off m = command_loop q len cmds_end n off m"
proof (induction n arbitrary: off m)
  case (Suc n)
  show ?case
  proof (cases "off + 8 > cmds_end")
    case False
    then have rd: "mo_rd32 p (off + 4) = mo_rd32 q (off + 4)" using assms by (intro rd32_same) auto
    have "load_command p len off (mo_rd q (off + 4)) m = load_command q len off (mo_rd q (off + 4)) m"
      if "\<not> (mo_rd q (off + 4) < 8 \<or> off + mo_rd q (off + 4) > cmds_end)"
      using that assms by (intro load_command_same) auto
    then show ?thesis using False by (auto simp: rd Suc.IH Let_def split: sum.splits)
  qed simp
qed simp

lemma parse_same:
  assumes "take len p = take len q"
  shows "macho_parse (Some p) len = macho_parse (Some q) len"
proof (cases "len < 28")
  case False
  then have rd: "mo_rd32 p k = mo_rd32 q k" if "k \<le> 20" for k using that assms by (intro rd32_same) auto
  show ?thesis
  proof (cases "28 + mo_rd q 20 \<le> len")
    case True
    then show ?thesis using False by (simp add: macho_parse_def rd command_loop_same [OF assms True])
  next
    case exceeds: False
    then show ?thesis using False by (simp add: macho_parse_def rd Let_def)
  qed
qed (simp add: macho_parse_def)

subsection \<open>What an accepted image satisfies\<close>

definition seg_sound :: "nat \<Rightarrow> macho_seg \<Rightarrow> bool" where
  "seg_sound len s \<longleftrightarrow> unat (fileoff s) + unat (filesize s) \<le> len \<and> filesize s \<le> vmsize s \<and>
     (vmsize s \<noteq> 0 \<longrightarrow> unat (vmaddr s) + unat (vmsize s) \<le> 0xffffffff)"

definition occupied :: "macho \<Rightarrow> macho_seg set" where
  "occupied m = {s \<in> set (segments m). vmsize s \<noteq> 0}"

text \<open>The running bounds are exactly the extremes over the occupied segments so far.\<close>

definition range_exact :: "macho \<Rightarrow> bool" where
  "range_exact m \<longleftrightarrow>
     unat (vm_low m) = Min (insert 0xffffffff ((\<lambda>s. unat (vmaddr s)) ` occupied m)) \<and>
     unat (vm_high m) = Max (insert 0 ((\<lambda>s. unat (vmaddr s) + unat (vmsize s)) ` occupied m))"

definition macho_inv :: "nat \<Rightarrow> macho \<Rightarrow> bool" where
  "macho_inv len m \<longleftrightarrow> length (segments m) \<le> MACHO_MAX_SEGMENTS \<and> (\<forall>s \<in> set (segments m). seg_sound len s) \<and>
     range_exact m \<and>
     (has_symtab m \<longrightarrow> unat (symoff m) + 12 * unat (nsyms m) \<le> len \<and> unat (stroff m) + unat (strsize m) \<le> len) \<and>
     length (uuid m) = 16"

lemma occupied_append: "occupied (m\<lparr>segments := segments m @ [s]\<rparr>) = (if vmsize s \<noteq> 0 then insert s (occupied m) else occupied m)"
  by (auto simp: occupied_def)

lemma finite_occupied [simp]: "finite (occupied m)"
  by (simp add: occupied_def)

lemma occupied_low [simp]: "occupied (m\<lparr>vm_low := x\<rparr>) = occupied m"
  by (simp add: occupied_def)

lemma extremes_insert:
  "finite A \<Longrightarrow> Min (insert a (insert x A)) = min (x :: nat) (Min (insert a A))"
  "finite A \<Longrightarrow> Max (insert a (insert x A)) = max (x :: nat) (Max (insert a A))"
  using insert_commute [of a x A] by simp_all

lemma grow_range_sound:
  assumes "grow_range s m = Some m'" "range_exact m"
  shows "range_exact (m'\<lparr>segments := segments m' @ [s]\<rparr>)" "vmsize s \<noteq> 0 \<Longrightarrow> unat (vmaddr s) + unat (vmsize s) \<le> 0xffffffff"
    "m' = m\<lparr>vm_low := vm_low m', vm_high := vm_high m'\<rparr>"
proof -
  show shape: "m' = m\<lparr>vm_low := vm_low m', vm_high := vm_high m'\<rparr>"
    using assms(1) by (cases m) (auto simp: grow_range_def Let_def split: if_splits)
  show bound: "unat (vmaddr s) + unat (vmsize s) \<le> 0xffffffff" if "vmsize s \<noteq> 0"
    using assms(1) that by (auto simp: grow_range_def Let_def split: if_splits)
  show "range_exact (m'\<lparr>segments := segments m' @ [s]\<rparr>)"
  proof (cases "vmsize s = 0")
    case True
    then show ?thesis using assms by (simp add: grow_range_def range_exact_def occupied_append)
  next
    case False
    have occ: "occupied (m'\<lparr>segments := segments m' @ [s]\<rparr>) = insert s (occupied m)"
      using False by (subst (1 2) shape) (auto simp: occupied_def)
    have lo: "vm_low m' = (if vmaddr s < vm_low m then vmaddr s else vm_low m)"
      and hi: "vm_high m' = (if unat (vmaddr s) + unat (vmsize s) > unat (vm_high m)
        then of_nat (unat (vmaddr s) + unat (vmsize s)) else vm_high m)"
      using assms(1) False by (auto simp: grow_range_def Let_def split: if_splits)
    have "unat (vm_low m') = min (unat (vmaddr s)) (unat (vm_low m))"
      by (simp add: lo word_less_nat_alt min_def)
    moreover have "unat (of_nat (unat (vmaddr s) + unat (vmsize s)) :: u32) = unat (vmaddr s) + unat (vmsize s)"
      by (rule unat_of_nat_len) (use bound [OF False] in simp)
    then have "unat (vm_high m') = max (unat (vmaddr s) + unat (vmsize s)) (unat (vm_high m))"
      by (simp add: hi max_def del: of_nat_add)
    ultimately show ?thesis
      using assms(2) by (simp only: range_exact_def occ image_insert extremes_insert finite_imageI finite_occupied) simp
  qed
qed


lemma range_covers:
  assumes "range_exact m" "s \<in> occupied m"
  shows "vm_low m \<le> vmaddr s" "unat (vmaddr s) + unat (vmsize s) \<le> unat (vm_high m)"
  using assms by (auto simp: range_exact_def word_le_nat_alt intro: Min_le Max_ge)

lemma range_attained:
  assumes "macho_inv len m"
  shows "if occupied m = {} then vm_low m = 0xffffffff \<and> vm_high m = 0
    else vm_low m \<noteq> 0xffffffff \<and> vm_low m \<in> vmaddr ` occupied m \<and>
      unat (vm_high m) \<in> (\<lambda>s. unat (vmaddr s) + unat (vmsize s)) ` occupied m"
proof (cases "occupied m = {}")
  case True
  have "unat (vm_low m) = unat (0xffffffff :: u32)" using assms True by (simp add: macho_inv_def range_exact_def)
  then have "vm_low m = 0xffffffff" by (simp only: word_unat_eq_iff)
  moreover have "vm_high m = 0" using assms True by (simp add: macho_inv_def range_exact_def unat_eq_zero)
  ultimately show ?thesis using True by simp
next
  case False
  let ?lo = "(\<lambda>s. unat (vmaddr s)) ` occupied m" and ?hi = "(\<lambda>s. unat (vmaddr s) + unat (vmsize s)) ` occupied m"
  have pos: "unat (vmaddr s) < 0xffffffff \<and> 0 < unat (vmsize s) \<and> 0 < unat (vmaddr s) + unat (vmsize s)" if "s \<in> occupied m" for s
  proof -
    have "0 < unat (vmsize s)" using that by (simp add: occupied_def unat_gt_0)
    moreover have "unat (vmaddr s) + unat (vmsize s) \<le> 0xffffffff"
      using that assms by (auto simp: occupied_def macho_inv_def seg_sound_def)
    ultimately show ?thesis by linarith
  qed
  obtain s where s: "s \<in> occupied m" using False by blast
  have "Min (insert 0xffffffff ?lo) \<in> insert 0xffffffff ?lo" by (rule Min_in) simp_all
  moreover have "Min (insert 0xffffffff ?lo) \<le> unat (vmaddr s)" using s by (intro Min_le) auto
  ultimately have lo: "unat (vm_low m) \<in> ?lo" "unat (vm_low m) < 0xffffffff"
    using assms pos [OF s] by (auto simp: macho_inv_def range_exact_def)
  have "Max (insert 0 ?hi) \<in> insert 0 ?hi" by (rule Max_in) simp_all
  moreover have "unat (vmaddr s) + unat (vmsize s) \<le> Max (insert 0 ?hi)" using s by (intro Max_ge) auto
  ultimately have "unat (vm_high m) \<in> ?hi"
    using assms pos [OF s] by (auto simp: macho_inv_def range_exact_def)
  moreover have "vm_low m \<noteq> 0xffffffff" using lo(2) by auto
  moreover have "vm_low m \<in> vmaddr ` occupied m" using lo(1) by (auto simp: word_unat_eq_iff)
  ultimately show ?thesis using False by simp
qed

lemma load_command_inv:
  assumes "load_command buf len off cmdsize m = Inr m'" "macho_inv len m" "off + cmdsize \<le> length buf" "8 \<le> cmdsize"
  shows "macho_inv len m'"
proof -
  have segm: "macho_inv len m'" if "lc_segment buf len off cmdsize m = Inr m'"
  proof -
    let ?s = "read_segment buf off"
    have "\<exists>m1. grow_range ?s m = Some m1 \<and> m' = m1\<lparr>segments := segments m1 @ [?s]\<rparr> \<and>
        length (segments m) < MACHO_MAX_SEGMENTS \<and> unat (fileoff ?s) + unat (filesize ?s) \<le> len \<and> filesize ?s \<le> vmsize ?s"
      using that by (auto simp: lc_segment_def Let_def not_le not_less split: if_splits option.splits)
    then obtain m1 where m1: "grow_range ?s m = Some m1" "m' = m1\<lparr>segments := segments m1 @ [?s]\<rparr>"
      and ok: "length (segments m) < MACHO_MAX_SEGMENTS" "unat (fileoff ?s) + unat (filesize ?s) \<le> len" "filesize ?s \<le> vmsize ?s"
      by blast
    note g = grow_range_sound [OF m1(1)]
    have re: "range_exact m" using assms(2) by (simp add: macho_inv_def)
    have same: "segments m1 = segments m" "has_symtab m1 = has_symtab m" "symoff m1 = symoff m" "nsyms m1 = nsyms m"
      "stroff m1 = stroff m" "strsize m1 = strsize m" "uuid m1 = uuid m"
      by (subst g(3) [OF re], simp)+
    show ?thesis
      using g(1,2) [OF re] ok assms(2)
      by (auto simp: macho_inv_def m1(2) same seg_sound_def)
  qed
  show ?thesis
  proof (cases "mo_rd32 buf off = LC_SEGMENT")
    case True
    then show ?thesis using assms(1) segm by (simp add: load_command_def)
  next
    case False
    then show ?thesis
      using assms
      by (auto simp: load_command_def Let_def lc_symtab_def lc_unixthread_def lc_uuid_def mult.commute [of _ 12]
          macho_inv_def range_exact_def occupied_def split: if_splits)
  qed
qed

lemma command_loop_inv:
  "command_loop buf len cmds_end n off m = Inr (off', m') \<Longrightarrow> macho_inv len m \<Longrightarrow> cmds_end \<le> length buf \<Longrightarrow>
   macho_inv len m'"
proof (induction n arbitrary: off m)
  case (Suc n)
  then show ?case
    using load_command_inv [of buf len off "mo_rd buf (off + 4)" m]
    by (auto simp: Let_def split: if_splits sum.splits)
qed simp

subsection \<open>Properties\<close>

text \<open>
  C39. The parser never depends on a byte past the stated length. Of an image it accepts, at most 16
  segments are kept, each with a file extent inside the buffer and no larger than its memory extent, the
  symbol and string tables lie inside the buffer, and the reported memory range is exactly the smallest
  that covers every segment of non-zero size, without wrap-around.
\<close>

theorem macho_parse_sound:
  "(take len p = take len q \<longrightarrow> macho_parse (Some p) len = macho_parse (Some q) len) \<and>
   (macho_parse (Some p) len = Inr m \<longrightarrow> len \<le> length p \<longrightarrow>
      length (segments m) \<le> MACHO_MAX_SEGMENTS \<and>
      (\<forall>s \<in> set (segments m). unat (fileoff s) + unat (filesize s) \<le> len \<and> filesize s \<le> vmsize s \<and>
         (vmsize s \<noteq> 0 \<longrightarrow> vm_low m \<le> vmaddr s \<and> unat (vmaddr s) + unat (vmsize s) \<le> unat (vm_high m))) \<and>
      (if occupied m = {} then vm_low m = 0 \<and> vm_high m = 0
       else vm_low m \<in> vmaddr ` occupied m \<and>
            unat (vm_high m) \<in> (\<lambda>s. unat (vmaddr s) + unat (vmsize s)) ` occupied m) \<and>
      (has_symtab m \<longrightarrow>
         unat (symoff m) + 12 * unat (nsyms m) \<le> len \<and> unat (stroff m) + unat (strsize m) \<le> len))"
proof (intro conjI impI)
  assume same: "take len p = take len q"
  show "macho_parse (Some p) len = macho_parse (Some q) len" using same by (rule parse_same)
next
  assume ok: "macho_parse (Some p) len = Inr m" and len: "len \<le> length p"
  let ?m0 = "macho_zero\<lparr>cputype := mo_rd32 p 4, cpusubtype := mo_rd32 p 8, filetype := mo_rd32 p 12, vm_low := 0xffffffff\<rparr>"
  obtain m1 where m1: "command_loop p len (28 + mo_rd p 20) (mo_rd p 16) 28 ?m0 = Inr (28 + mo_rd p 20, m1)"
    and bound: "28 + mo_rd p 20 \<le> len" and m: "m = (if vm_low m1 = 0xffffffff then m1\<lparr>vm_low := 0\<rparr> else m1)"
    using ok by (auto simp: macho_parse_def Let_def split: if_splits sum.splits)
  have "macho_inv len ?m0"
    by (simp add: macho_inv_def macho_zero_def range_exact_def occupied_def MACHO_MAX_SEGMENTS_def)
  then have inv: "macho_inv len m1"
    using command_loop_inv [OF m1] bound len by simp
  have segs: "segments m = segments m1" "occupied m = occupied m1" "vm_high m = vm_high m1" "has_symtab m = has_symtab m1"
    "symoff m = symoff m1" "nsyms m = nsyms m1" "stroff m = stroff m1" "strsize m = strsize m1"
    by (simp_all add: m)
  have low: "vm_low m \<le> vmaddr s" if "s \<in> occupied m1" for s
    using range_covers(1) [of m1 s] that inv m by (auto simp: macho_inv_def split: if_splits)
  show "length (segments m) \<le> MACHO_MAX_SEGMENTS" using inv by (simp add: segs macho_inv_def)
  show "unat (symoff m) + 12 * unat (nsyms m) \<le> len" "unat (stroff m) + unat (strsize m) \<le> len" if "has_symtab m"
    using inv that by (simp_all add: segs macho_inv_def)
  show "\<forall>s \<in> set (segments m). unat (fileoff s) + unat (filesize s) \<le> len \<and> filesize s \<le> vmsize s \<and>
         (vmsize s \<noteq> 0 \<longrightarrow> vm_low m \<le> vmaddr s \<and> unat (vmaddr s) + unat (vmsize s) \<le> unat (vm_high m))"
    using inv range_covers(2) [of m1] low by (auto simp: macho_inv_def seg_sound_def segs occupied_def)
  show "if occupied m = {} then vm_low m = 0 \<and> vm_high m = 0
       else vm_low m \<in> vmaddr ` occupied m \<and> unat (vm_high m) \<in> (\<lambda>s. unat (vmaddr s) + unat (vmsize s)) ` occupied m"
    using range_attained [OF inv] m by (simp add: segs(2,3) split: if_splits)
qed

text \<open>An image of one segment, larger in memory than its file extent.\<close>

definition one_segment :: "u8 list" where
  "one_segment =
    [206, 250, 237, 254, 12, 0, 0, 0, 6, 0, 0, 0, 2, 0, 0, 0, 1, 0, 0, 0, 56, 0, 0, 0, 1, 0, 0, 0,
     1, 0, 0, 0, 56, 0, 0, 0, 95, 95, 84, 69, 88, 84, 0, 0, 0, 0, 0, 0, 0, 0, 0, 0, 0, 128, 0, 192,
     0, 16, 0, 0, 0, 0, 0, 0, 84, 0, 0, 0, 7, 0, 0, 0, 5, 0, 0, 0, 0, 0, 0, 0, 0, 0, 0, 0]"

lemma command_loop_one: "command_loop buf len cmds_end 1 off m = command_loop buf len cmds_end (Suc 0) off m"
  by simp

lemma one_segment_words:
  "mo_rd32 one_segment 0 = 4277009102"
  "mo_rd32 one_segment 4 = 12"
  "mo_rd32 one_segment 8 = 6"
  "mo_rd32 one_segment 12 = 2"
  "mo_rd32 one_segment 16 = 1"
  "mo_rd32 one_segment 20 = 56"
  "mo_rd32 one_segment 28 = 1"
  "mo_rd32 one_segment 32 = 56"
  "mo_rd32 one_segment 76 = 0"
  "mo_rd32 one_segment 52 = 3221258240"
  "mo_rd32 one_segment 56 = 4096"
  "mo_rd32 one_segment 60 = 0"
  "mo_rd32 one_segment 64 = 84"
  by (simp_all add: mo_rd32_def one_segment_def)

lemma one_segment_parses:
  "map_sum id (\<lambda>m. (map vmaddr (segments m), vm_low m, vm_high m)) (macho_parse (Some one_segment) 84) =
   Inr ([0xc0008000], 0xc0008000, 0xc0009000)"
  by (simp add: macho_parse_def one_segment_words MH_MAGIC_32_def MH_CPU_TYPE_ARM_def macho_zero_def command_loop_one
      load_command_def LC_SEGMENT_def lc_segment_def read_segment_def grow_range_def MACHO_MAX_SEGMENTS_def)

theorem macho_parse_sound_witness:
  "\<exists>m. macho_parse (Some one_segment) 84 = Inr m \<and> length (segments m) \<le> MACHO_MAX_SEGMENTS \<and>
     vm_low m = 0xc0008000 \<and> macho_parse (Some (one_segment @ [1])) 84 = Inr m"
proof -
  obtain m where m: "macho_parse (Some one_segment) 84 = Inr m" "vm_low m = 0xc0008000"
    using one_segment_parses by (cases "macho_parse (Some one_segment) 84") auto
  have len: "length one_segment = 84" by (simp add: one_segment_def)
  then have "take 84 (one_segment @ [1]) = take 84 one_segment" by simp
  then show ?thesis
    using macho_parse_sound [of 84 "one_segment @ [1]" one_segment] macho_parse_sound [of 84 one_segment one_segment m] m len
    by auto
qed

end
