(* ===== verification/Img3.thy ===== *)
theory Img3
  imports Aes
begin

text \<open>
  The IMG3 firmware container of core/src/firmware/img3.c: the tag walk with its checks, the key bag, and
  the decryption of the payload with the key and vector the user supplies. The input is a list of bytes
  with its stated length beside it, the payload pointer an offset into it. Sums the code forms in 64 bits
  cannot wrap and are natural numbers. What the output holds after an error is not modelled; a NULL
  argument is \<open>None\<close>.
\<close>

subsection \<open>The code\<close>

definition IMG3_MAGIC :: u32 where "IMG3_MAGIC = 0x496d6733"
definition IMG3_TAG_DATA :: u32 where "IMG3_TAG_DATA = 0x44415441"
definition IMG3_TAG_KBAG :: u32 where "IMG3_TAG_KBAG = 0x4b424147"
definition IMG3_TAG_SHSH :: u32 where "IMG3_TAG_SHSH = 0x53485348"
definition IMG3_TAG_VERS :: u32 where "IMG3_TAG_VERS = 0x56455253"
definition IMG3_HEADER_SIZE :: nat where "IMG3_HEADER_SIZE = 20"
definition IMG3_TAG_HEADER :: nat where "IMG3_TAG_HEADER = 12"
definition AES_BLOCK_SIZE :: u32 where "AES_BLOCK_SIZE = 16"

datatype img3_status =
  IMG3_ERR_TOO_SMALL | IMG3_ERR_BAD_MAGIC | IMG3_ERR_BAD_SIZE | IMG3_ERR_BAD_TAG | IMG3_ERR_INVALID_ARGUMENT

record img3_kbag =
  crypt_state :: u32
  kb_bits :: u32
  kb_iv :: "u8 list"
  kb_key :: "u8 list"
  kb_present :: bool
  kb_malformed :: bool

record img3 =
  img_ident :: u32
  full_size :: u32
  data_size :: u32
  signed_size :: u32
  img_data :: "nat option"
  data_len :: u32
  kbag :: img3_kbag
  has_shsh :: bool
  vers :: "u8 list"

definition img_rd32 :: "u8 list \<Rightarrow> nat \<Rightarrow> u32" where
  "img_rd32 p i = ucast (p ! i) OR push_bit 8 (ucast (p ! (i + 1)))
     OR push_bit 16 (ucast (p ! (i + 2))) OR push_bit 24 (ucast (p ! (i + 3)))"

definition parse_kbag :: "u8 list \<Rightarrow> nat \<Rightarrow> u32 \<Rightarrow> img3_kbag \<Rightarrow> img3_kbag" where
  "parse_kbag buf d n k =
     (let k = k\<lparr>kb_malformed := True\<rparr> in
      if n < 24 then k
      else
        let k = k\<lparr>crypt_state := img_rd32 buf d, kb_bits := img_rd32 buf (d + 4), kb_iv := take 16 (drop (d + 8) buf)\<rparr> in
        if kb_bits k \<noteq> 128 \<and> kb_bits k \<noteq> 192 \<and> kb_bits k \<noteq> 256 then k
        else
          let key_len = unat (kb_bits k div 8) in
          if 24 + key_len > unat n then k
          else k\<lparr>kb_key := splice 0 (take key_len (drop (d + 24) buf)) (kb_key k), kb_present := True,
                 kb_malformed := False\<rparr>)"

definition vers_tag :: "u8 list \<Rightarrow> nat \<Rightarrow> u32 \<Rightarrow> img3 \<Rightarrow> img3" where
  "vers_tag buf d n m =
     (if n \<ge> 4 then
        let slen = img_rd32 buf d in
        if unat slen + 4 \<le> unat n
        then let k = unat (if slen < 63 then slen else 63)
             in m\<lparr>vers := (splice 0 (take k (drop (d + 4) buf)) (vers m))[k := 0]\<rparr>
        else m
      else m)"

definition handle_tag :: "u8 list \<Rightarrow> u32 \<Rightarrow> nat \<Rightarrow> u32 \<Rightarrow> img3 \<Rightarrow> img3" where
  "handle_tag buf magic d n m =
     (if magic = IMG3_TAG_DATA then m\<lparr>img_data := Some d, data_len := n\<rparr>
      else if magic = IMG3_TAG_KBAG then (if kb_present (kbag m) then m else m\<lparr>kbag := parse_kbag buf d n (kbag m)\<rparr>)
      else if magic = IMG3_TAG_SHSH then m\<lparr>has_shsh := n > 0\<rparr>
      else if magic = IMG3_TAG_VERS then vers_tag buf d n m
      else m)"

function tag_loop :: "u8 list \<Rightarrow> nat \<Rightarrow> nat \<Rightarrow> img3 \<Rightarrow> (nat \<times> img3) option" where
  "tag_loop buf lim off m =
     (if off + IMG3_TAG_HEADER \<le> lim then
        let total_len = unat (img_rd32 buf (off + 4)); n = img_rd32 buf (off + 8) in
        if total_len < IMG3_TAG_HEADER then None
        else if off + total_len > lim then None
        else if unat n + IMG3_TAG_HEADER > total_len then None
        else tag_loop buf lim (off + total_len) (handle_tag buf (img_rd32 buf off) (off + IMG3_TAG_HEADER) n m)
      else Some (off, m))"
  by pat_completeness auto
termination
  by (relation "measure (\<lambda>(buf, lim, off, m). lim - off)") (auto simp: IMG3_TAG_HEADER_def)

declare tag_loop.simps [simp del]

definition img3_zero :: img3 where
  "img3_zero = \<lparr>img_ident = 0, full_size = 0, data_size = 0, signed_size = 0, img_data = None, data_len = 0,
     kbag = \<lparr>crypt_state = 0, kb_bits = 0, kb_iv = replicate 16 0, kb_key = replicate 32 0, kb_present = False,
             kb_malformed = False\<rparr>, has_shsh = False, vers = replicate 64 0\<rparr>"

definition img3_parse :: "u8 list option \<Rightarrow> nat \<Rightarrow> img3_status + img3" where
  "img3_parse data len =
     (case data of
        None \<Rightarrow> Inl IMG3_ERR_TOO_SMALL
      | Some buf \<Rightarrow>
          if len < IMG3_HEADER_SIZE then Inl IMG3_ERR_TOO_SMALL
          else if img_rd32 buf 0 \<noteq> IMG3_MAGIC then Inl IMG3_ERR_BAD_MAGIC
          else
            let m = img3_zero\<lparr>full_size := img_rd32 buf 4, data_size := img_rd32 buf 8, signed_size := img_rd32 buf 12,
                              img_ident := img_rd32 buf 16\<rparr> in
            if unat (full_size m) < IMG3_HEADER_SIZE \<or> unat (full_size m) > len then Inl IMG3_ERR_BAD_SIZE
            else if unat (data_size m) + IMG3_HEADER_SIZE > unat (full_size m) then Inl IMG3_ERR_BAD_SIZE
            else case tag_loop buf (unat (full_size m)) IMG3_HEADER_SIZE m of
                   None \<Rightarrow> Inl IMG3_ERR_BAD_TAG
                 | Some (off, m') \<Rightarrow> if off \<noteq> unat (full_size m) then Inl IMG3_ERR_BAD_TAG else Inr m')"

text \<open>The bytes written to the output, whose capacity is the second last argument.\<close>

definition img3_decrypt_data_iv ::
  "u8 list \<Rightarrow> img3 \<Rightarrow> u8 list option \<Rightarrow> u32 \<Rightarrow> u8 list option \<Rightarrow> nat option \<Rightarrow> u8 list option" where
  "img3_decrypt_data_iv buf img key key_bits iv out_cap =
     (case (img_data img, key, iv, out_cap) of
        (Some d, Some key, Some iv, Some cap) \<Rightarrow>
          if \<not> kb_present (kbag img) \<or> kb_malformed (kbag img) \<or> key_bits \<noteq> kb_bits (kbag img) \<or>
             cap < unat (data_len img) then None
          else
            (case aes_init key (unat key_bits) of
               None \<Rightarrow> None
             | Some ctx \<Rightarrow>
                 let whole = data_len img AND NOT (AES_BLOCK_SIZE - 1);
                     tail = data_len img - whole
                 in case (if whole \<noteq> 0 then aes_cbc_decrypt ctx iv (take (unat whole) (drop d buf)) else Some []) of
                      None \<Rightarrow> None
                    | Some plain \<Rightarrow> Some (plain @ take (unat tail) (drop (d + unat whole) buf)))
      | _ \<Rightarrow> None)"


subsection \<open>Reads stay inside the buffer\<close>

lemma img_rd32_same: "take len p = take len q \<Longrightarrow> i + 4 \<le> len \<Longrightarrow> img_rd32 p i = img_rd32 q i"
  using nth_same [of len p q] by (simp add: img_rd32_def)

lemma word_ge: "(n :: u32) \<ge> 4 \<longleftrightarrow> 4 \<le> unat n" "(n :: u32) < 24 \<longleftrightarrow> unat n < 24"
  by (simp_all add: word_le_nat_alt word_less_nat_alt)

lemma parse_kbag_same:
  assumes "take len p = take len q" "d + unat n \<le> len"
  shows "parse_kbag p d n k = parse_kbag q d n k"
proof (cases "unat n < 24")
  case False
  then have rd: "img_rd32 p (d + j) = img_rd32 q (d + j)" if "j \<le> 4" for j
    using assms that by (intro img_rd32_same) auto
  have sl: "take j (drop (d + i) p) = take j (drop (d + i) q)" if "i + j \<le> unat n" for i j
    using assms that by (intro slice_same) auto
  show ?thesis
    using False rd [of 0] rd [of 4] sl [of 8 16] sl [of 24 16] sl [of 24 24] sl [of 24 32]
    by (auto simp: parse_kbag_def Let_def word_ge not_less)
qed (simp add: parse_kbag_def word_ge)

lemma vers_tag_same:
  assumes "take len p = take len q" "d + unat n \<le> len"
  shows "vers_tag p d n m = vers_tag q d n m"
proof (cases "4 \<le> unat n")
  case True
  then have rd: "img_rd32 p d = img_rd32 q d" using assms by (intro img_rd32_same) auto
  let ?s = "img_rd32 q d"
  have "unat (if ?s < 63 then ?s else 63) \<le> unat ?s" by (simp add: word_less_nat_alt not_less)
  then have "take (unat (if ?s < 63 then ?s else 63)) (drop (d + 4) p) = take (unat (if ?s < 63 then ?s else 63)) (drop (d + 4) q)"
    if "unat ?s + 4 \<le> unat n"
    using assms that by (intro slice_same) auto
  then show ?thesis by (simp add: vers_tag_def rd Let_def)
qed (simp add: vers_tag_def word_ge)

lemma handle_tag_same:
  "take len p = take len q \<Longrightarrow> d + unat n \<le> len \<Longrightarrow> handle_tag p magic d n m = handle_tag q magic d n m"
  using parse_kbag_same [of len p q d n "kbag m"] vers_tag_same [of len p q d n m] by (simp add: handle_tag_def)

lemma tag_loop_same:
  "take len p = take len q \<Longrightarrow> lim \<le> len \<Longrightarrow> tag_loop p lim off m = tag_loop q lim off m"
proof (induction q lim off m rule: tag_loop.induct)
  case (1 q lim off m)
  show ?case
  proof (cases "off + IMG3_TAG_HEADER \<le> lim")
    case True
    then have rd: "img_rd32 p (off + j) = img_rd32 q (off + j)" if "j \<le> 8" for j
      using 1(2,3) that by (intro img_rd32_same) (auto simp: IMG3_TAG_HEADER_def)
    have tag: "handle_tag p magic (off + IMG3_TAG_HEADER) n m = handle_tag q magic (off + IMG3_TAG_HEADER) n m"
      if "off + t \<le> lim" "unat n + IMG3_TAG_HEADER \<le> t" for magic n t
      using 1(2,3) that by (intro handle_tag_same [of len]) auto
    let ?t = "unat (img_rd32 q (off + 4))" and ?n = "img_rd32 q (off + 8)"
    show ?thesis
    proof (cases "?t < IMG3_TAG_HEADER \<or> off + ?t > lim \<or> unat ?n + IMG3_TAG_HEADER > ?t")
      case bad: True
      then show ?thesis using True rd [of 4] rd [of 8] by (subst (1 2) tag_loop.simps) (auto simp: Let_def)
    next
      case False
      then show ?thesis
        using True rd [of 0] rd [of 4] rd [of 8] tag [of ?t ?n] 1(1) [OF True refl refl] 1(2,3)
        by (subst (1 2) tag_loop.simps) (auto simp: Let_def)
    qed
  qed (simp add: tag_loop.simps)
qed

lemma img3_parse_same:
  assumes "take len p = take len q"
  shows "img3_parse (Some p) len = img3_parse (Some q) len"
proof (cases "len < IMG3_HEADER_SIZE")
  case False
  then have rd: "img_rd32 p k = img_rd32 q k" if "k \<le> 16" for k
    using that assms by (intro img_rd32_same) (auto simp: IMG3_HEADER_SIZE_def)
  show ?thesis
  proof (cases "unat (img_rd32 q 4) \<le> len")
    case True
    then show ?thesis using False by (simp add: img3_parse_def rd Let_def tag_loop_same [OF assms True])
  qed (simp add: img3_parse_def rd Let_def not_le)
qed (simp add: img3_parse_def)

subsection \<open>What an accepted container satisfies\<close>

definition kbag_sound :: "img3_kbag \<Rightarrow> bool" where
  "kbag_sound k \<longleftrightarrow> (kb_present k \<longrightarrow> kb_bits k \<in> {128, 192, 256} \<and> \<not> kb_malformed k) \<and>
     length (kb_iv k) = 16 \<and> length (kb_key k) = 32"

definition img_sound :: "nat \<Rightarrow> img3 \<Rightarrow> bool" where
  "img_sound lim m \<longleftrightarrow> kbag_sound (kbag m) \<and> length (vers m) = 64 \<and> 0 \<in> set (vers m) \<and>
     (\<forall>d. img_data m = Some d \<longrightarrow> IMG3_HEADER_SIZE + IMG3_TAG_HEADER \<le> d \<and> d + unat (data_len m) \<le> lim)"

lemma parse_kbag_sound:
  assumes "kbag_sound k" "\<not> kb_present k" "d + unat n \<le> length buf"
  shows "kbag_sound (parse_kbag buf d n k)"
  using assms by (auto simp: parse_kbag_def kbag_sound_def Let_def word_ge split: if_splits)

lemma vers_tag_sound:
  "length (vers m) = 64 \<Longrightarrow> 0 \<in> set (vers m) \<Longrightarrow> length (vers (vers_tag buf d n m)) = 64 \<and> 0 \<in> set (vers (vers_tag buf d n m))"
  by (auto simp: vers_tag_def Let_def word_less_nat_alt set_update_memI)

lemma vers_tag_other: "vers_tag buf d n m = m\<lparr>vers := vers (vers_tag buf d n m)\<rparr>"
  by (auto simp: vers_tag_def Let_def)

lemma handle_tag_sound:
  assumes "img_sound lim m" "d + unat n \<le> lim" "lim \<le> length buf" "IMG3_HEADER_SIZE + IMG3_TAG_HEADER \<le> d"
  shows "img_sound lim (handle_tag buf magic d n m)"
proof -
  have "img_sound lim (vers_tag buf d n m)"
    using vers_tag_sound [of m buf d n] assms(1) by (subst vers_tag_other) (simp add: img_sound_def)
  then show ?thesis
    using assms parse_kbag_sound [of "kbag m" d n buf] by (auto simp: handle_tag_def img_sound_def)
qed

lemma tag_loop_sound:
  "tag_loop buf lim off m = Some (off', m') \<Longrightarrow> img_sound lim m \<Longrightarrow> lim \<le> length buf \<Longrightarrow> IMG3_HEADER_SIZE \<le> off \<Longrightarrow>
   img_sound lim m'"
proof (induction buf lim off m rule: tag_loop.induct)
  case (1 buf lim off m)
  show ?case
  proof (cases "off + IMG3_TAG_HEADER \<le> lim")
    case True
    let ?t = "unat (img_rd32 buf (off + 4))" and ?n = "img_rd32 buf (off + 8)"
    have ok: "\<not> ?t < IMG3_TAG_HEADER" "\<not> off + ?t > lim" "\<not> unat ?n + IMG3_TAG_HEADER > ?t"
      using 1(2) True by (auto simp: Let_def tag_loop.simps [of buf lim off] split: if_splits)
    have "tag_loop buf lim (off + ?t) (handle_tag buf (img_rd32 buf off) (off + IMG3_TAG_HEADER) ?n m) = Some (off', m')"
      using 1(2) True ok by (simp add: Let_def tag_loop.simps [of buf lim off])
    then show ?thesis
      using 1(1) [OF True refl refl ok] 1(3-5) handle_tag_sound [of lim m "off + IMG3_TAG_HEADER" ?n buf] ok by simp
  next
    case False
    then show ?thesis using 1(2,3) by (simp add: tag_loop.simps)
  qed
qed

lemma img3_parse_sound_inv:
  assumes "img3_parse (Some buf) len = Inr m" "len \<le> length buf"
  shows "img_sound len m"
proof -
  let ?m0 = "img3_zero\<lparr>full_size := img_rd32 buf 4, data_size := img_rd32 buf 8, signed_size := img_rd32 buf 12,
    img_ident := img_rd32 buf 16\<rparr>"
  obtain off where lim: "unat (img_rd32 buf 4) \<le> len"
    and loop: "tag_loop buf (unat (img_rd32 buf 4)) IMG3_HEADER_SIZE ?m0 = Some (off, m)"
    using assms(1) by (auto simp: img3_parse_def Let_def split: if_splits option.splits)
  have "img_sound (unat (img_rd32 buf 4)) ?m0"
    by (simp add: img_sound_def kbag_sound_def img3_zero_def)
  then have "img_sound (unat (img_rd32 buf 4)) m"
    using tag_loop_sound [OF loop] lim assms(2) by simp
  then show ?thesis using lim by (auto simp: img_sound_def)
qed


subsection \<open>Building a container\<close>

definition seal_tag :: "u32 \<Rightarrow> u8 list \<Rightarrow> u8 list \<Rightarrow> u8 list" where
  "seal_tag magic payload pad =
     le_put 4 magic @ le_put 4 (of_nat (12 + length payload + length pad) :: u32)
     @ le_put 4 (of_nat (length payload) :: u32) @ payload @ pad"

definition seal_image :: "u32 \<Rightarrow> u32 \<Rightarrow> u8 list \<Rightarrow> u8 list" where
  "seal_image ident sigsz tags =
     le_put 4 IMG3_MAGIC @ le_put 4 (of_nat (20 + length tags) :: u32) @ le_put 4 (of_nat (length tags) :: u32)
     @ le_put 4 sigsz @ le_put 4 ident @ tags"

definition kbag_payload :: "u32 \<Rightarrow> u32 \<Rightarrow> u8 list \<Rightarrow> u8 list \<Rightarrow> u8 list" where
  "kbag_payload state bits wiv wkey = le_put 4 state @ le_put 4 bits @ wiv @ wkey"

text \<open>The payload as it is stored: whole blocks in CBC mode, the unaligned tail in the clear.\<close>

definition whole_blocks :: "nat \<Rightarrow> nat" where
  "whole_blocks n = n div 16 * 16"

definition encrypt_payload :: "aes_ctx \<Rightarrow> u8 list \<Rightarrow> u8 list \<Rightarrow> u8 list" where
  "encrypt_payload ctx iv msg =
     (case aes_cbc_encrypt ctx iv (take (whole_blocks (length msg)) msg) of
        None \<Rightarrow> []
      | Some c \<Rightarrow> c @ drop (whole_blocks (length msg)) msg)"

lemma u32_nat: "x < 2 ^ 32 \<Longrightarrow> unat (of_nat x :: u32) = x"
  by (simp add: unat_of_nat_len)

lemma img_rd32_put: "drop i b = le_put 4 w @ r \<Longrightarrow> img_rd32 b i = w"
  unfolding img_rd32_def by (rule le32_at)

lemma drop_step: "drop off b = xs @ r \<Longrightarrow> drop (off + length xs) b = r"
  by (metis add.commute append_eq_conv_conj drop_drop)

lemma seal_tag_length: "length (seal_tag magic payload pad) = 12 + length payload + length pad"
  by (simp add: seal_tag_def)

lemma tag_loop_seal:
  assumes "drop off b = seal_tag magic payload pad @ r" "off + length (seal_tag magic payload pad) \<le> lim"
    "length (seal_tag magic payload pad) < 2 ^ 32"
  shows "tag_loop b lim off m =
      tag_loop b lim (off + length (seal_tag magic payload pad)) (handle_tag b magic (off + 12) (of_nat (length payload)) m)"
    "drop (off + 12) b = payload @ pad @ r"
proof -
  have d0: "drop off b = le_put 4 magic @ (le_put 4 (of_nat (length (seal_tag magic payload pad)) :: u32)
      @ le_put 4 (of_nat (length payload) :: u32) @ payload @ pad @ r)"
    using assms(1) by (simp add: seal_tag_def add.assoc)
  note d4 = drop_step [OF d0]
  note d8 = drop_step [OF d4]
  note d12 = drop_step [OF d8]
  show payload: "drop (off + 12) b = payload @ pad @ r" using d12 by (simp add: add.assoc)
  define len where "len = length (seal_tag magic payload pad)"
  have rd: "img_rd32 b off = magic" "img_rd32 b (off + 4) = of_nat len" "img_rd32 b (off + 8) = of_nat (length payload)"
    using img_rd32_put [OF d0] img_rd32_put [OF d4] img_rd32_put [OF d8] by (simp_all add: add.assoc len_def)
  have len: "length payload + 12 \<le> len" "off + len \<le> lim" "len < 2 ^ 32"
    using assms(2,3) by (simp_all add: len_def seal_tag_length)
  then have un: "unat (of_nat len :: u32) = len" "unat (of_nat (length payload) :: u32) = length payload"
    by (simp_all add: u32_nat)
  show "tag_loop b lim off m =
      tag_loop b lim (off + length (seal_tag magic payload pad)) (handle_tag b magic (off + 12) (of_nat (length payload)) m)"
    using len unfolding len_def [symmetric]
    by (subst tag_loop.simps) (simp add: Let_def rd un IMG3_TAG_HEADER_def)
qed

lemma parse_seal:
  assumes "length tags + 20 < 2 ^ 32" "b = seal_image ident sigsz tags"
  shows "img3_parse (Some b) (length b) =
    (case tag_loop b (length b) 20 (img3_zero\<lparr>full_size := of_nat (length b), data_size := of_nat (length tags),
        signed_size := sigsz, img_ident := ident\<rparr>) of
       None \<Rightarrow> Inl IMG3_ERR_BAD_TAG
     | Some (off, m') \<Rightarrow> if off \<noteq> length b then Inl IMG3_ERR_BAD_TAG else Inr m')"
    "drop 20 b = tags" "length b = 20 + length tags"
proof -
  show len: "length b = 20 + length tags" by (simp add: assms(2) seal_image_def)
  have d0: "drop 0 b = le_put 4 IMG3_MAGIC @ (le_put 4 (of_nat (length b) :: u32) @ le_put 4 (of_nat (length tags) :: u32)
      @ le_put 4 sigsz @ le_put 4 ident @ tags)"
    using len by (simp add: assms(2) seal_image_def)
  note d4 = drop_step [OF d0]
  note d8 = drop_step [OF d4]
  note d12 = drop_step [OF d8]
  note d16 = drop_step [OF d12]
  show tags: "drop 20 b = tags" using drop_step [OF d16] by simp
  have rd: "img_rd32 b 0 = IMG3_MAGIC" "img_rd32 b 4 = of_nat (length b)" "img_rd32 b 8 = of_nat (length tags)"
    "img_rd32 b 12 = sigsz" "img_rd32 b 16 = ident"
    using img_rd32_put [OF d0] img_rd32_put [OF d4] img_rd32_put [OF d8] img_rd32_put [OF d12] img_rd32_put [OF d16]
    by simp_all
  have un: "unat (of_nat (length b) :: u32) = length b" "unat (of_nat (length tags) :: u32) = length tags"
    by (rule u32_nat, use assms(1) len in simp)+
  have ge: "20 \<le> length b" "length tags + 20 \<le> length b" by (simp_all add: len)
  show "img3_parse (Some b) (length b) =
    (case tag_loop b (length b) 20 (img3_zero\<lparr>full_size := of_nat (length b), data_size := of_nat (length tags),
        signed_size := sigsz, img_ident := ident\<rparr>) of
       None \<Rightarrow> Inl IMG3_ERR_BAD_TAG
     | Some (off, m') \<Rightarrow> if off \<noteq> length b then Inl IMG3_ERR_BAD_TAG else Inr m')"
    using ge by (auto simp: img3_parse_def rd un IMG3_HEADER_SIZE_def Let_def split: option.split)
qed

lemma parse_kbag_seal:
  assumes "drop d b = kbag_payload state bits wiv wkey @ r" "bits = 128 \<or> bits = 192 \<or> bits = 256"
    "length wiv = 16" "length wkey = unat bits div 8"
  shows "kb_present (parse_kbag b d (of_nat (length (kbag_payload state bits wiv wkey))) k)"
    "\<not> kb_malformed (parse_kbag b d (of_nat (length (kbag_payload state bits wiv wkey))) k)"
    "kb_bits (parse_kbag b d (of_nat (length (kbag_payload state bits wiv wkey))) k) = bits"
proof -
  have d0: "drop d b = le_put 4 state @ (le_put 4 bits @ wiv @ wkey @ r)" using assms(1) by (simp add: kbag_payload_def)
  have rd: "img_rd32 b (d + 4) = bits" using img_rd32_put [OF drop_step [OF d0]] by simp
  have len: "length (kbag_payload state bits wiv wkey) = 24 + unat bits div 8" using assms(3,4) by (simp add: kbag_payload_def)
  show "kb_present (parse_kbag b d (of_nat (length (kbag_payload state bits wiv wkey))) k)"
    "\<not> kb_malformed (parse_kbag b d (of_nat (length (kbag_payload state bits wiv wkey))) k)"
    "kb_bits (parse_kbag b d (of_nat (length (kbag_payload state bits wiv wkey))) k) = bits"
    using assms(2) unfolding len by (elim disjE; simp add: parse_kbag_def rd)+
qed

lemma whole_word:
  assumes "n < 2 ^ 32"
  shows "unat ((of_nat n :: u32) AND NOT (AES_BLOCK_SIZE - 1)) = whole_blocks n"
    "unat ((of_nat n :: u32) - (of_nat n AND NOT (AES_BLOCK_SIZE - 1))) = n - whole_blocks n"
proof -
  have n: "unat (of_nat n :: u32) = n" using assms by (simp add: unat_of_nat_len)
  have "(of_nat n :: u32) AND 15 = take_bit 4 (of_nat n)" by (simp add: take_bit_eq_mask mask_eq_exp_minus_1)
  also have "unat \<dots> = n mod 16" 
    using unsigned_take_bit_eq [where 'a = nat, of 4 "of_nat n :: u32"] n by (simp add: take_bit_eq_mod)
  finally have "unat ((of_nat n :: u32) AND NOT 15) = n - n mod 16"
    using unat_block [of "of_nat n" 15] n by simp
  then show whole: "unat ((of_nat n :: u32) AND NOT (AES_BLOCK_SIZE - 1)) = whole_blocks n"
    by (simp add: AES_BLOCK_SIZE_def whole_blocks_def minus_mod_eq_div_mult)
  then show "unat ((of_nat n :: u32) - (of_nat n AND NOT (AES_BLOCK_SIZE - 1))) = n - whole_blocks n"
    using n by (subst unat_sub) (simp_all add: word_le_nat_alt whole_blocks_def)
qed


definition sealed_payload :: "u32 \<Rightarrow> u32 \<Rightarrow> u32 \<Rightarrow> u32 \<Rightarrow> u8 list \<Rightarrow> u8 list \<Rightarrow> u8 list \<Rightarrow> u8 list \<Rightarrow> u8 list" where
  "sealed_payload ident sigsz state bits wiv wkey stored pad =
     seal_image ident sigsz (seal_tag IMG3_TAG_KBAG (kbag_payload state bits wiv wkey) [] @ seal_tag IMG3_TAG_DATA stored pad)"

lemma encrypt_payload_parts:
  obtains c where "encrypt_payload ctx iv msg = c @ drop (whole_blocks (length msg)) msg" "length c = whole_blocks (length msg)"
    "aes_cbc_decrypt ctx iv c = Some (take (whole_blocks (length msg)) msg)"
proof -
  let ?w = "take (whole_blocks (length msg)) msg"
  have w: "length ?w = whole_blocks (length msg)" "length ?w mod 16 = 0" by (simp_all add: whole_blocks_def)
  then have "aes_cbc_encrypt ctx iv ?w = Some (cbc_encrypt_loop ctx iv ?w)" by (simp add: aes_cbc_encrypt_def)
  with cbc_loops_inverse [OF w(2), of ctx iv] w show thesis
    by (intro that [of "cbc_encrypt_loop ctx iv ?w"]) (simp_all add: encrypt_payload_def aes_cbc_decrypt_def)
qed

lemma decrypt_stored:
  assumes "aes_init key (unat bits) = Some ctx" "img_data m = Some d" "data_len m = of_nat (length msg)" "length msg < 2 ^ 32"
    "kb_present (kbag m)" "\<not> kb_malformed (kbag m)" "kb_bits (kbag m) = bits" "length msg \<le> cap"
    "drop d b = encrypt_payload ctx iv msg @ r"
  shows "img3_decrypt_data_iv b m (Some key) bits (Some iv) (Some cap) = Some msg"
proof -
  obtain c where c: "encrypt_payload ctx iv msg = c @ drop (whole_blocks (length msg)) msg" "length c = whole_blocks (length msg)"
    "aes_cbc_decrypt ctx iv c = Some (take (whole_blocks (length msg)) msg)" by (rule encrypt_payload_parts)
  let ?w = "whole_blocks (length msg)" and ?whole = "(of_nat (length msg) :: u32) AND NOT (AES_BLOCK_SIZE - 1)"
  have data: "drop d b = c @ (drop ?w msg @ r)" using assms(9) c(1) by simp
  have head: "take ?w (drop d b) = c" using c(2) by (simp add: data)
  have "drop (d + ?w) b = drop ?w msg @ r" using drop_step [OF data] c(2) by simp
  then have tail: "take (length msg - ?w) (drop (d + ?w) b) = drop ?w msg" by simp
  have zero: "?w = 0" if "?whole = 0" using whole_word(1) [OF assms(4)] that by simp
  have unblocked: "take (length msg) (drop d b) = msg" if "?w = 0" using tail that by simp
  have "\<not> cap < unat (data_len m)" using assms(3,4,8) by (simp add: u32_nat)
  then show ?thesis
    using assms(1-3,5-7) zero unblocked
    by (auto simp: img3_decrypt_data_iv_def Let_def whole_word [OF assms(4)] tail head c(3) u32_nat [OF assms(4)])
qed

lemma decrypt_refused:
  assumes "data_len m = of_nat n" "n < 2 ^ 32" "kb_bits (kbag m) = bits" "\<not> (k = bits \<and> n \<le> cap)"
  shows "img3_decrypt_data_iv b m key k iv (Some cap) = None"
  using assms by (auto simp: img3_decrypt_data_iv_def u32_nat not_le split: option.splits)

subsection \<open>Properties\<close>

text \<open>
  C40. The parser never depends on a byte past the stated length, and of every container it accepts the
  payload lies inside the buffer behind the header of its tag, a key bag it reports as understood has one
  of the three key sizes and is not marked malformed, and the version string is terminated inside its
  64 bytes.
\<close>

theorem img3_parse_sound:
  "(take len p = take len q \<longrightarrow> img3_parse (Some p) len = img3_parse (Some q) len) \<and>
   (img3_parse (Some p) len = Inr m \<longrightarrow> len \<le> length p \<longrightarrow>
      (\<forall>d. img_data m = Some d \<longrightarrow> IMG3_HEADER_SIZE + IMG3_TAG_HEADER \<le> d \<and> d + unat (data_len m) \<le> len) \<and>
      (kb_present (kbag m) \<longrightarrow> kb_bits (kbag m) \<in> {128, 192, 256} \<and> \<not> kb_malformed (kbag m)) \<and>
      length (kb_iv (kbag m)) = 16 \<and> length (kb_key (kbag m)) = 32 \<and> length (vers m) = 64 \<and> 0 \<in> set (vers m))"
  using img3_parse_same [of len p q] img3_parse_sound_inv [of p len m] unfolding img_sound_def kbag_sound_def by blast

theorem img3_parse_sound_witness:
  "\<exists>m. img3_parse (Some (seal_image 0x6b726e6c 0 [])) 20 = Inr m \<and> length (vers m) = 64 \<and>
     img3_parse (Some (seal_image 0x6b726e6c 0 [] @ [1])) 20 = Inr m"
proof -
  let ?b = "seal_image 0x6b726e6c 0 []"
  have len: "length ?b = 20" by (simp add: seal_image_def)
  obtain m where m: "img3_parse (Some ?b) 20 = Inr m"
    using parse_seal(1) [of "[]" ?b "0x6b726e6c" 0] len by (simp add: tag_loop.simps IMG3_TAG_HEADER_def)
  then show ?thesis
    using img3_parse_sound [of 20 "?b @ [1]" ?b m] img3_parse_sound [of 20 ?b ?b m] len by simp
qed

text \<open>
  A container that stores a payload encrypted in whole blocks with the key and vector, beside a key
  bag of the same size whose wrapped contents are arbitrary, is accepted, and decrypting it with that key
  and vector gives the payload back: every length with or without an unaligned tail, every padding of
  the tag, every capacity that suffices. A smaller capacity or another key size is refused.
\<close>

lemma sealed_image_decrypts:
  assumes "aes_init key (unat bits) = Some ctx" "length wiv = 16" "length wkey = unat bits div 8"
    "length msg + length pad + 100 < 2 ^ 32"
  shows "\<exists>m. img3_parse (Some (sealed_payload ident sigsz state bits wiv wkey (encrypt_payload ctx iv msg) pad))
        (length (sealed_payload ident sigsz state bits wiv wkey (encrypt_payload ctx iv msg) pad)) = Inr m \<and>
      img_ident m = ident \<and> data_len m = of_nat (length msg) \<and> kb_present (kbag m) \<and> \<not> kb_malformed (kbag m) \<and>
      img_data m \<noteq> None \<and>
      (\<forall>cap kb. img3_decrypt_data_iv (sealed_payload ident sigsz state bits wiv wkey (encrypt_payload ctx iv msg) pad) m
         (Some key) kb (Some iv) (Some cap) = (if kb = bits \<and> length msg \<le> cap then Some msg else None))"
proof -
  let ?kb = "kbag_payload state bits wiv wkey" and ?data = "encrypt_payload ctx iv msg"
  let ?t1 = "seal_tag IMG3_TAG_KBAG ?kb []" and ?t2 = "seal_tag IMG3_TAG_DATA ?data pad"
  define b where "b = sealed_payload ident sigsz state bits wiv wkey ?data pad"
  have bits: "bits = 128 \<or> bits = 192 \<or> bits = 256"
    using assms(1) by (auto simp: aes_init_def word_unat_eq_iff split: if_splits)
  then have wkey: "length wkey \<le> 32" using assms(3) by auto
  have dlen: "length ?data = length msg"
    by (rule encrypt_payload_parts [of ctx iv msg]) (simp add: whole_blocks_def)
  have lens: "length ?t1 = 36 + length wkey" "length ?t2 = 12 + length msg + length pad"
    using assms(2) dlen by (simp_all add: seal_tag_length kbag_payload_def)
  have b: "b = seal_image ident sigsz (?t1 @ ?t2)" by (simp add: b_def sealed_payload_def)
  have small: "length (?t1 @ ?t2) + 20 < 2 ^ 32" using assms(4) wkey lens by simp
  note parse = parse_seal [OF small b]
  let ?m0 = "img3_zero\<lparr>full_size := of_nat (length b), data_size := of_nat (length (?t1 @ ?t2)), signed_size := sigsz,
    img_ident := ident\<rparr>"
  let ?m1 = "handle_tag b IMG3_TAG_KBAG (20 + 12) (of_nat (length ?kb)) ?m0"
  let ?m2 = "handle_tag b IMG3_TAG_DATA (20 + length ?t1 + 12) (of_nat (length ?data)) ?m1"
  have d20: "drop 20 b = ?t1 @ ?t2" by (rule parse(2))
  have d2: "drop (20 + length ?t1) b = ?t2 @ []" using drop_step [OF d20] by simp
  have fits: "20 + length ?t1 \<le> length b" "length ?t1 < 2 ^ 32" "20 + length ?t1 + length ?t2 \<le> length b" "length ?t2 < 2 ^ 32"
    using parse(3) small by simp_all
  note step1 = tag_loop_seal(1) [OF d20 fits(1,2), where m = ?m0] and at1 = tag_loop_seal(2) [OF d20 fits(1,2)]
  note step2 = tag_loop_seal(1) [OF d2 fits(3,4), where m = ?m1] and at2 = tag_loop_seal(2) [OF d2 fits(3,4)]
  have done': "tag_loop b (length b) (20 + length ?t1 + length ?t2) ?m2 = Some (20 + length ?t1 + length ?t2, ?m2)"
    using parse(3) by (subst tag_loop.simps) (simp add: IMG3_TAG_HEADER_def)
  have parsed: "img3_parse (Some b) (length b) = Inr ?m2"
    by (simp only: parse(1) step1 step2 done' option.case prod.case) (simp add: parse(3))
  have kb: "kbag ?m2 = parse_kbag b (20 + 12) (of_nat (length ?kb)) (kbag ?m0)" "img_data ?m2 = Some (20 + length ?t1 + 12)"
    "data_len ?m2 = of_nat (length msg)" "img_ident ?m2 = ident"
    by (simp_all add: handle_tag_def IMG3_TAG_DATA_def IMG3_TAG_KBAG_def img3_zero_def dlen)
  have "drop (20 + 12) b = ?kb @ ([] @ ?t2)" by (rule at1)
  from parse_kbag_seal [OF this bits assms(2,3), of "kbag ?m0"]
  have bag: "kb_present (kbag ?m2)" "\<not> kb_malformed (kbag ?m2)" "kb_bits (kbag ?m2) = bits" unfolding kb(1) by simp_all
  have msg: "length msg < 2 ^ 32" using assms(4) by simp
  have ok: "img3_decrypt_data_iv b ?m2 (Some key) bits (Some iv) (Some cap) = Some msg" if "length msg \<le> cap" for cap
    by (rule decrypt_stored [OF assms(1) kb(2,3) msg bag that, where r = "pad @ []"]) (rule at2)
  have bad: "img3_decrypt_data_iv b ?m2 (Some key) k (Some iv) (Some cap) = None" if "\<not> (k = bits \<and> length msg \<le> cap)" for k cap
    using kb(3) msg bag(3) that by (rule decrypt_refused)
  show ?thesis unfolding b_def [symmetric]
    by (rule exI [of _ ?m2]) (use parsed kb(2,3,4) bag ok bad in auto)
qed

lemma sealed_image_decrypts_witness:
  "\<exists>ctx m. aes_init (replicate 16 7) 128 = Some ctx \<and>
     (let b = sealed_payload 0x6b726e6c 0 1 128 (replicate 16 0) (replicate 16 9)
                (encrypt_payload ctx (replicate 16 3) (replicate 21 5)) [0, 0, 0]
      in img3_parse (Some b) (length b) = Inr m \<and>
         img3_decrypt_data_iv b m (Some (replicate 16 7)) 128 (Some (replicate 16 3)) (Some 21) = Some (replicate 21 5) \<and>
         img3_decrypt_data_iv b m (Some (replicate 16 7)) 256 (Some (replicate 16 3)) (Some 21) = None)"
proof -
  obtain ctx where ctx: "aes_init (replicate 16 7) 128 = Some ctx" by (simp add: aes_init_def)
  then have "aes_init (replicate 16 7) (unat (128 :: u32)) = Some ctx" by simp
  from sealed_image_decrypts [OF this, of "replicate 16 0" "replicate 16 9" "replicate 21 5" "[0, 0, 0]" "0x6b726e6c" 0 1
      "replicate 16 3"]
  show ?thesis using ctx by (auto simp: Let_def simp del: replicate.simps)
qed

end
