(* ===== verification/Loader.thy ===== *)
theory Loader
  imports ArmState Img3
begin

text \<open>
  The firmware loader of core/src/firmware/loader.c: a container is parsed, checked against the guest
  RAM, decrypted into place, and the processor is started at its load address. It composes the container
  and cipher models with the reset of the processor model. The machine is the part of \<open>s5l8900_t\<close> the
  loader uses; its pointer is not NULL, and the optional description of the image is always returned.
\<close>

subsection \<open>The code\<close>

datatype fw_status =
  FW_OK | FW_ERR_PARSE | FW_ERR_NO_PAYLOAD | FW_ERR_DECRYPT | FW_ERR_NO_ROOM | FW_ERR_KEY_REQUIRED
| FW_ERR_INVALID_ARGUMENT | FW_ERR_IV_REQUIRED

record fw_image =
  fw_ident :: u32
  fw_ident_str :: "u8 list"
  fw_vers :: "u8 list"
  fw_load_addr :: u32
  fw_size :: u32
  was_encrypted :: bool
  was_signed :: bool

record fw_machine =
  fw_cpu :: arm_cpu
  ram :: "u8 list option"
  ram_base :: u32
  ram_size :: u32

definition img3_ident_str :: "u32 \<Rightarrow> u8 list" where
  "img3_ident_str ident =
     [ucast (drop_bit 24 ident AND 0xff), ucast (drop_bit 16 ident AND 0xff), ucast (drop_bit 8 ident AND 0xff),
      ucast (ident AND 0xff), 0]"

definition describe :: "img3 \<Rightarrow> u32 \<Rightarrow> fw_image" where
  "describe img load_addr =
     \<lparr>fw_ident = img_ident img, fw_ident_str = img3_ident_str (img_ident img), fw_vers = (vers img)[63 := 0],
      fw_load_addr = load_addr, fw_size = data_len img, was_encrypted = kb_present (kbag img), was_signed = has_shsh img\<rparr>"

text \<open>The bytes that are to be placed at the destination, of which \<open>room\<close> are free.\<close>

definition fw_payload ::
  "u8 list \<Rightarrow> img3 \<Rightarrow> nat \<Rightarrow> u8 list option \<Rightarrow> u32 \<Rightarrow> u8 list option \<Rightarrow> nat \<Rightarrow> fw_status + u8 list" where
  "fw_payload buf img d key key_bits iv room =
     (if kb_malformed (kbag img) then Inl FW_ERR_DECRYPT
      else if kb_present (kbag img) then
        (if key = None then Inl FW_ERR_KEY_REQUIRED
         else if iv = None then Inl FW_ERR_IV_REQUIRED
         else case img3_decrypt_data_iv buf img key key_bits iv (Some room) of
                None \<Rightarrow> Inl FW_ERR_DECRYPT
              | Some plain \<Rightarrow> if length plain \<noteq> unat (data_len img) then Inl FW_ERR_DECRYPT else Inr plain)
      else Inr (take (unat (data_len img)) (drop d buf)))"

definition fw_load_img3_common ::
  "fw_machine \<Rightarrow> u8 list option \<Rightarrow> nat \<Rightarrow> u8 list option \<Rightarrow> u32 \<Rightarrow> u8 list option \<Rightarrow> u32
   \<Rightarrow> fw_status \<times> fw_machine \<times> fw_image option" where
  "fw_load_img3_common m data len key key_bits iv load_addr =
     (case (ram m, data) of
        (Some mem, Some buf) \<Rightarrow>
          (case img3_parse data len of
             Inl e \<Rightarrow> (FW_ERR_PARSE, m, None)
           | Inr img \<Rightarrow>
               (case img_data img of
                  None \<Rightarrow> (FW_ERR_NO_PAYLOAD, m, None)
                | Some d \<Rightarrow>
                    if data_len img = 0 then (FW_ERR_NO_PAYLOAD, m, None)
                    else if load_addr < ram_base m then (FW_ERR_NO_ROOM, m, None)
                    else
                      let off = unat load_addr - unat (ram_base m) in
                      if off + unat (data_len img) > unat (ram_size m) then (FW_ERR_NO_ROOM, m, None)
                      else case fw_payload buf img d key key_bits iv (unat (ram_size m) - off) of
                             Inl st \<Rightarrow> (st, m, None)
                           | Inr bytes \<Rightarrow>
                               (FW_OK, m\<lparr>ram := Some (splice off bytes mem)\<rparr>, Some (describe img load_addr))))
      | _ \<Rightarrow> (FW_ERR_INVALID_ARGUMENT, m, None))"

definition fw_load_img3 ::
  "fw_machine \<Rightarrow> u8 list option \<Rightarrow> nat \<Rightarrow> u8 list option \<Rightarrow> u32 \<Rightarrow> u32 \<Rightarrow> fw_status \<times> fw_machine \<times> fw_image option" where
  "fw_load_img3 m data len key key_bits load_addr = fw_load_img3_common m data len key key_bits None load_addr"

definition fw_load_img3_iv ::
  "fw_machine \<Rightarrow> u8 list option \<Rightarrow> nat \<Rightarrow> u8 list option \<Rightarrow> u32 \<Rightarrow> u8 list option \<Rightarrow> u32
   \<Rightarrow> fw_status \<times> fw_machine \<times> fw_image option" where
  "fw_load_img3_iv m data len key key_bits iv load_addr = fw_load_img3_common m data len key key_bits iv load_addr"

text \<open>Entered as the boot ROM would: supervisor mode, interrupts masked, the MMU off.\<close>

definition start_at :: "u32 \<Rightarrow> fw_machine \<Rightarrow> fw_machine" where
  "start_at load_addr m = (let c = arm_reset (fw_cpu m) in m\<lparr>fw_cpu := c\<lparr>regs := (regs c)(15 := load_addr)\<rparr>\<rparr>)"

definition fw_boot_img3 ::
  "fw_machine \<Rightarrow> u8 list option \<Rightarrow> nat \<Rightarrow> u8 list option \<Rightarrow> u32 \<Rightarrow> u32 \<Rightarrow> fw_status \<times> fw_machine \<times> fw_image option" where
  "fw_boot_img3 m data len key key_bits load_addr =
     (case fw_load_img3 m data len key key_bits load_addr of
        (st, m, out) \<Rightarrow> if st \<noteq> FW_OK then (st, m, out) else (FW_OK, start_at load_addr m, out))"

definition fw_boot_img3_iv ::
  "fw_machine \<Rightarrow> u8 list option \<Rightarrow> nat \<Rightarrow> u8 list option \<Rightarrow> u32 \<Rightarrow> u8 list option \<Rightarrow> u32
   \<Rightarrow> fw_status \<times> fw_machine \<times> fw_image option" where
  "fw_boot_img3_iv m data len key key_bits iv load_addr =
     (case fw_load_img3_iv m data len key key_bits iv load_addr of
        (st, m, out) \<Rightarrow> if st \<noteq> FW_OK then (st, m, out) else (FW_OK, start_at load_addr m, out))"

subsection \<open>What a load changes\<close>

definition ram_ok :: "fw_machine \<Rightarrow> bool" where
  "ram_ok m \<longleftrightarrow> (\<forall>mem. ram m = Some mem \<longrightarrow> length mem = unat (ram_size m))"

lemma payload_length:
  assumes "fw_payload buf img d key kb iv room = Inr bytes" "d + unat (data_len img) \<le> length buf"
  shows "length bytes = unat (data_len img)"
  using assms by (auto simp: fw_payload_def split: if_splits option.splits)

lemma splice_outside:
  assumes "off + length bytes \<le> length mem"
  shows "take off (splice off bytes mem) = take off mem" "take (length bytes) (drop off (splice off bytes mem)) = bytes"
    "drop (off + length bytes) (splice off bytes mem) = drop (off + length bytes) mem" "length (splice off bytes mem) = length mem"
  using assms by (auto simp: splice_def)

lemma load_cases:
  assumes "fw_load_img3_common m data len key kb iv a = (st, m', out)"
  obtains (refused) "st \<noteq> FW_OK" "m' = m" "out = None"
  | (loaded) mem buf img d bytes where "st = FW_OK" "ram m = Some mem" "data = Some buf" "img3_parse (Some buf) len = Inr img"
      "img_data img = Some d" "ram_base m \<le> a" "unat a - unat (ram_base m) + unat (data_len img) \<le> unat (ram_size m)"
      "fw_payload buf img d key kb iv (unat (ram_size m) - (unat a - unat (ram_base m))) = Inr bytes"
      "m' = m\<lparr>ram := Some (splice (unat a - unat (ram_base m)) bytes mem)\<rparr>" "out = Some (describe img a)"
proof -
  have bad: "e \<noteq> FW_OK" if "fw_payload buf img d key kb iv room = Inl e" for buf img d room e
    using that by (auto simp: fw_payload_def split: if_splits option.splits)
  show thesis
  proof (cases "ram m = None \<or> data = None")
    case True
    then show thesis using assms by (intro refused) (auto simp: fw_load_img3_common_def split: option.splits)
  next
    case False
    then obtain mem buf where io: "ram m = Some mem" "data = Some buf" by auto
    show thesis
    proof (cases "img3_parse (Some buf) len")
      case (Inl e)
      then show thesis using assms by (intro refused) (auto simp: fw_load_img3_common_def io)
    next
      case (Inr img)
      let ?off = "unat a - unat (ram_base m)"
      show thesis
      proof (cases "img_data img = None \<or> data_len img = 0 \<or> a < ram_base m \<or> ?off + unat (data_len img) > unat (ram_size m)")
        case True
        then show thesis using assms
          by (intro refused) (auto simp: fw_load_img3_common_def io Inr Let_def split: option.splits if_splits)
      next
        case False
        then obtain d where d: "img_data img = Some d" "data_len img \<noteq> 0" "\<not> a < ram_base m"
          "\<not> ?off + unat (data_len img) > unat (ram_size m)" by auto
        show thesis
        proof (cases "fw_payload buf img d key kb iv (unat (ram_size m) - ?off)")
          case st: (Inl st')
          then show thesis using assms bad [OF st] by (intro refused) (simp_all add: fw_load_img3_common_def io Inr d Let_def)
        next
          case bytes: (Inr bytes)
          then show thesis using assms io Inr d by (intro loaded) (auto simp: fw_load_img3_common_def Let_def)
        qed
      qed
    qed
  qed
qed


subsection \<open>Properties\<close>

text \<open>
  C35. A load is all or nothing: with any status but success nothing of the machine has changed; with
  success exactly the described bytes of guest RAM at the load address are replaced, inside the RAM, and
  nothing else of the machine is touched. An image the key bag marks as encrypted is never loaded without
  a key and a vector, and of an image without a key bag the stored bytes are loaded as they are.
\<close>

theorem load_all_or_nothing:
  assumes "fw_load_img3_common m (Some buf) len key kb iv a = (st, m', out)" "ram_ok m" "len \<le> length buf"
  shows "if st \<noteq> FW_OK then m' = m \<and> out = None
    else \<exists>mem mem' info img off.
      ram m = Some mem \<and> m' = m\<lparr>ram := Some mem'\<rparr> \<and> out = Some info \<and> img3_parse (Some buf) len = Inr img \<and>
      unat a = unat (ram_base m) + off \<and> off + unat (fw_size info) \<le> length mem \<and> length mem' = length mem \<and>
      take off mem' = take off mem \<and>
      drop (off + unat (fw_size info)) mem' = drop (off + unat (fw_size info)) mem \<and>
      fw_load_addr info = a \<and>
      (if was_encrypted info
       then key \<noteq> None \<and> iv \<noteq> None \<and>
            img3_decrypt_data_iv buf img key kb iv (Some (length mem - off)) =
              Some (take (unat (fw_size info)) (drop off mem'))
       else take (unat (fw_size info)) (drop (the (img_data img)) buf) = take (unat (fw_size info)) (drop off mem'))"
  using assms(1)
proof (cases rule: load_cases)
  case refused
  then show ?thesis by simp
next
  case (loaded mem buf' img d bytes)
  let ?off = "unat a - unat (ram_base m)" and ?n = "unat (data_len img)"
  have buf: "buf' = buf" using loaded(3) by simp
  have mem: "length mem = unat (ram_size m)" using assms(2) loaded(2) by (simp add: ram_ok_def)
  have "img_sound len img" using img3_parse_sound_inv loaded(4) assms(3) buf by simp
  then have "d + ?n \<le> length buf" using loaded(5) assms(3) by (auto simp: img_sound_def)
  then have n: "length bytes = ?n" using payload_length [OF loaded(8)] buf by simp
  have inside: "?off + length bytes \<le> length mem" using loaded(7) n mem by simp
  note sp = splice_outside [OF inside, unfolded n]
  have src: "if kb_present (kbag img)
       then key \<noteq> None \<and> iv \<noteq> None \<and> img3_decrypt_data_iv buf img key kb iv (Some (length mem - ?off)) = Some bytes
       else take ?n (drop d buf) = bytes"
    using loaded(8) buf mem by (auto simp: fw_payload_def split: if_splits option.splits)
  have off: "unat a = unat (ram_base m) + ?off" using loaded(6) by (simp add: word_le_nat_alt)
  define off where "off = ?off"
  have facts: "unat a = unat (ram_base m) + off" "off + ?n \<le> length mem" "(st \<noteq> FW_OK) = False"
    using off inside n loaded(1) unfolding off_def by simp_all
  show ?thesis
    unfolding facts(3) if_False
    by (rule exI [of _ mem], rule exI [of _ "splice off bytes mem"], rule exI [of _ "describe img a"], rule exI [of _ img],
        rule exI [of _ off])
      (use loaded(2,4,5,10) loaded(9) [folded off_def] buf facts(1,2) sp [folded off_def] src [folded off_def] in \<open>simp add: describe_def\<close>)
qed

text \<open>A machine with 64 bytes of RAM, and a container whose payload is stored as it is.\<close>

definition fw_demo :: fw_machine where
  "fw_demo = \<lparr>fw_cpu = cpu_zero, ram = Some (replicate 64 0), ram_base = 0x8000000, ram_size = 64\<rparr>"

definition plain_image :: "u8 list" where
  "plain_image = seal_image 0x6c6f676f 0 (seal_tag IMG3_TAG_DATA [7, 8, 9] [0])"

lemma plain_image_loads:
  "length plain_image = 36" "fst (fw_load_img3_common fw_demo (Some plain_image) 36 None 0 None 0x8000010) = FW_OK"
proof -
  have len: "length (seal_tag IMG3_TAG_DATA [7, 8, 9] [0]) = 16" by (simp add: seal_tag_length)
  have small: "length (seal_tag IMG3_TAG_DATA [7, 8, 9] [0]) + 20 < 2 ^ 32" by (simp add: len)
  note parse = parse_seal [OF small plain_image_def]
  show 36: "length plain_image = 36" using parse(3) len by simp
  have d: "drop 20 plain_image = seal_tag IMG3_TAG_DATA [7, 8, 9] [0] @ []" using parse(2) by simp
  have "\<exists>img. img3_parse (Some plain_image) 36 = Inr img \<and> img_data img = Some 32 \<and> data_len img = 3 \<and>
      \<not> kb_present (kbag img) \<and> \<not> kb_malformed (kbag img)"
    using parse(1) tag_loop_seal(1) [OF d, of 36]
    by (simp add: 36 len tag_loop.simps [of plain_image 36 36] IMG3_TAG_HEADER_def handle_tag_def img3_zero_def)
  then show "fst (fw_load_img3_common fw_demo (Some plain_image) 36 None 0 None 0x8000010) = FW_OK"
    by (auto simp: fw_load_img3_common_def fw_demo_def fw_payload_def Let_def)
qed

theorem load_all_or_nothing_witness:
  "\<exists>m' info mem'. fw_load_img3_common fw_demo (Some plain_image) 36 None 0 None 0x8000010 = (FW_OK, m', Some info) \<and>
     ram m' = Some mem' \<and> length mem' = 64 \<and> fw_load_addr info = 0x8000010 \<and> \<not> was_encrypted info"
proof -
  obtain m' out where load: "fw_load_img3_common fw_demo (Some plain_image) 36 None 0 None 0x8000010 = (FW_OK, m', out)"
    using plain_image_loads(2) by (metis prod.collapse)
  have "ram_ok fw_demo" "ram fw_demo = Some (replicate 64 0)" by (simp_all add: ram_ok_def fw_demo_def)
  then show ?thesis
    using load_all_or_nothing [OF load] load plain_image_loads(1) by (auto split: if_splits)
qed

text \<open>
  C34. A container built around a payload encrypted with a key and vector, booted with them at any address
  where it fits into guest RAM, leaves the payload in RAM at that address and the processor in supervisor
  mode with interrupts masked and the MMU off, about to execute there; the entry point without a vector
  refuses the same container and leaves the machine alone.
\<close>

theorem sealed_image_boots:
  fixes ctx :: aes_ctx and b :: "u8 list"
  assumes "b = sealed_payload ident sigsz state bits wiv wkey (encrypt_payload ctx iv msg) pad"
    "aes_init key (unat bits) = Some ctx" "length wiv = 16" "length wkey = unat bits div 8"
    "length msg + length pad + 100 < 2 ^ 32" "msg \<noteq> []"
    "ram_ok m" "ram m = Some mem" "unat a = unat (ram_base m) + off" "off + length msg \<le> length mem"
  shows "\<exists>m' info. fw_boot_img3_iv m (Some b) (length b) (Some key) bits (Some iv) a = (FW_OK, m', Some info) \<and>
      take (length msg) (drop off (the (ram m'))) = msg \<and> was_encrypted info \<and> fw_ident info = ident \<and>
      regs (fw_cpu m') 15 = a \<and> cpsr (fw_cpu m') = MODE_SVC OR CPSR_I OR CPSR_F OR CPSR_A \<and>
      sctlr (cp15 (fw_cpu m')) = 0 \<and>
      fw_boot_img3 m (Some b) (length b) (Some key) bits a = (FW_ERR_IV_REQUIRED, m, None)"
proof -
  obtain img where img: "img3_parse (Some b) (length b) = Inr img" "img_ident img = ident" "data_len img = of_nat (length msg)"
    "kb_present (kbag img)" "\<not> kb_malformed (kbag img)" "img_data img \<noteq> None"
    and dec: "\<And>cap. length msg \<le> cap \<Longrightarrow> img3_decrypt_data_iv b img (Some key) bits (Some iv) (Some cap) = Some msg"
    using sealed_image_decrypts [OF assms(2-5), of ident sigsz state iv] unfolding assms(1) by auto
  obtain d where d: "img_data img = Some d" using img(6) by auto
  have n: "unat (data_len img) = length msg" "data_len img \<noteq> 0"
    using assms(5,6) img(3) u32_nat [of "length msg"] by (auto simp: unat_gt_0)
  have mem: "length mem = unat (ram_size m)" using assms(7,8) by (simp add: ram_ok_def)
  have a: "\<not> a < ram_base m" "unat a - unat (ram_base m) = off" using assms(9) by (simp_all add: word_less_nat_alt)
  have fits: "\<not> off + length msg > unat (ram_size m)" using assms(10) mem by simp
  have payload: "fw_payload b img d (Some key) bits (Some iv) (unat (ram_size m) - off) = Inr msg"
    using img(4,5) n dec [of "unat (ram_size m) - off"] fits by (simp add: fw_payload_def)
  have bare: "fw_payload b img d (Some key) bits None (unat (ram_size m) - off) = Inl FW_ERR_IV_REQUIRED"
    using img(4,5) by (simp add: fw_payload_def)
  have load: "fw_load_img3_common m (Some b) (length b) (Some key) bits (Some iv) a =
      (FW_OK, m\<lparr>ram := Some (splice off msg mem)\<rparr>, Some (describe img a))"
    by (simp add: fw_load_img3_common_def assms(8) img(1) d n a fits Let_def payload)
  have refuse: "fw_load_img3_common m (Some b) (length b) (Some key) bits None a = (FW_ERR_IV_REQUIRED, m, None)"
    by (simp add: fw_load_img3_common_def assms(8) img(1) d n a fits Let_def bare)
  show ?thesis
    using splice_outside(2) [of off msg mem] assms(10) img(2,4)
    by (simp add: fw_boot_img3_iv_def fw_boot_img3_def fw_load_img3_iv_def fw_load_img3_def load refuse start_at_def Let_def
        describe_def arm_reset_def cp15_zero_def)
qed

theorem sealed_image_boots_witness:
  "\<exists>ctx m' info. aes_init (replicate 16 7) 128 = Some ctx \<and>
     (let b = sealed_payload 0x6b726e6c 0 1 128 (replicate 16 0) (replicate 16 9)
                (encrypt_payload ctx (replicate 16 3) (replicate 21 5)) [0, 0, 0]
      in fw_boot_img3_iv fw_demo (Some b) (length b) (Some (replicate 16 7)) 128 (Some (replicate 16 3)) 0x8000010 =
           (FW_OK, m', Some info) \<and>
         take 21 (drop 16 (the (ram m'))) = replicate 21 5 \<and> regs (fw_cpu m') 15 = 0x8000010)"
proof -
  obtain ctx where ctx: "aes_init (replicate 16 7) 128 = Some ctx" by (simp add: aes_init_def)
  then have "aes_init (replicate 16 7) (unat (128 :: u32)) = Some ctx" by simp
  from sealed_image_boots [OF refl this, of "replicate 16 0" "replicate 16 9" "replicate 21 5" "[0, 0, 0]" fw_demo
      "replicate 64 0" "0x8000010" 16 "0x6b726e6c" 0 1 "replicate 16 3"]
  show ?thesis using ctx by (auto simp: Let_def ram_ok_def fw_demo_def simp del: replicate.simps)
qed

end
