(* ===== verification/Spec2Isabelle.thy ===== *)
theory Spec2Isabelle
  imports ArmState Mmu ArmMem ArmAlu ArmCp15 ArmXfer ArmMedia ArmThumb ArmStep ArmUser ArmAlign VmBlock SnapshotCow Fifo Queues Uart SocTimer SocVic SocPower Lzss Nor Nand MachineClock MachineRun Ppp PppLink PppFsm PppRun Sha1 Devicetree Aes Macho Img3 Loader
begin

text \<open>
  S5LBox, an emulator of the S5L8900 system: a verification development of its core.

  How the program fits together. A machine (\<open>core/src/soc/machine.c\<close>) holds one ARM processor, RAM and a
  set of devices. The interpreter fetches through the MMU, runs one instruction and retires it; the run
  loop advances the machine clock, the devices raise interrupt lines, the interrupt controllers drive the
  processor's two lines, and a wait for interrupt skips to the next device deadline. Around it stand the
  firmware pipeline (container, cipher, decompression, kernel image and device tree), the storage stack
  (flash devices, the host block layer, the copy-on-write overlay of a snapshot), the host input queues,
  and the PPP peer that ends the guest's serial link. The development follows that division; every
  definition carries the name of the C function it models, or a name for the part of one.

  Conventions. A C structure is a record, an enumeration a datatype, a fixed-width integer a word of its
  width; \<open>size_t\<close> and 64-bit sums that cannot wrap are natural numbers, said where that is so. An array of
  a structure is a function from its index, a buffer a list. A handler takes its state and returns it with
  the status of the C function, so every early return is a branch. A callback or a device outside the
  model is an argument, with what the code relies on as a hypothesis. Loops are structural or terminate
  by a measure; no fuel is used except where the source itself counts (the depth of a device tree, the
  number of load commands, the wait loop), and totality is then part of the statement.

  The processor.
  \<^item> \<open>ArmState\<close>: the structures of \<open>core/include/arm.h\<close>; modes, banks, exception entry and return, reset
    (\<open>core/src/arm/arm_interp.c\<close>). No register is lost by banking, and an exception returns.
  \<^item> \<open>Mmu\<close>: \<open>core/src/mmu.c\<close>, the table walk, the software TLB with its generation and stamp, the fetch
    block. Any translation answers what a fresh walk answers.
  \<^item> \<open>ArmMem\<close>: guest memory accessors with their host-pointer caches, equal to a walk and a bus access.
  \<^item> \<open>ArmAlu\<close>, \<open>ArmXfer\<close>, \<open>ArmMedia\<close>, \<open>ArmThumb\<close>, \<open>ArmCp15\<close>: data processing, transfers and multiplies, the
    media set, the Thumb set with the supervisor-call hook, and the system coprocessor with the gating of
    the floating-point unit. Arithmetic is exact with its flags, a faulting transfer can be restarted, and
    a coprocessor write keeps the TLB coherent.
  \<^item> \<open>ArmStep\<close>: the fetch, decode and dispatch of one instruction. \<open>ArmUser\<close> shows that User mode cannot
    reach privileged state but by exception, \<open>ArmAlign\<close> that the program counter stays aligned, which keeps
    a fetch inside its cached block.

  The machine.
  \<^item> \<open>SocTimer\<close>, \<open>SocVic\<close>, \<open>SocPower\<close>, \<open>Uart\<close>, \<open>Nor\<close>, \<open>Nand\<close>: the devices of \<open>core/src/soc\<close> that carry state a
    guest depends on. A lump of ticks equals single clock edges, the interrupt scan serves every source,
    a serial byte is neither lost nor invented outside a counted overrun, the flash directory is sound and
    an erased block reads back what is programmed.
  \<^item> \<open>MachineClock\<close>, \<open>MachineRun\<close>: the conversion of processor to device ticks, the refresh of the lines,
    the wait for interrupt and the batching run loop, equal to the loop that ticks after every
    instruction. The other devices are an argument.
  \<^item> \<open>Fifo\<close> states the interface of a bounded queue as a locale; \<open>Queues\<close> and \<open>Uart\<close> interpret it for the
    touch and button queues of \<open>app/Sources\<close> and for the receive FIFO.

  Storage and firmware.
  \<^item> \<open>VmBlock\<close>: the exact-transfer loops of the block layer and the byte source (\<open>core/src/vm_block.c\<close>,
    \<open>vm_source.c\<close>). \<open>SnapshotCow\<close>: the overlay of \<open>app/Sources/VMSnapshotCow.c\<close> over a file of records;
    a replay restores the medium whatever was written, over failures and restarts.
  \<^item> \<open>Lzss\<close>: the decompressor against a sliding-window reference. \<open>Sha1\<close>: digest and HMAC against a
    reference of the whole message. \<open>Aes\<close>: cipher and CBC mode, decryption undoing encryption.
  \<^item> \<open>Img3\<close>, \<open>Macho\<close>, \<open>Devicetree\<close>: the parsers of untrusted firmware. Each reads nothing past its buffer
    or hands out nothing outside it; the device tree is refined from an abstract tree.
  \<^item> \<open>Loader\<close>: composes container, cipher and processor reset: a load is all or nothing, and a sealed
    image boots.

  The network link (\<open>core/src/net/ppp.c\<close>).
  \<^item> \<open>Ppp\<close>: checksum, framing, transmit ring. \<open>PppLink\<close>: options, automaton events, dispatch, deframer.
    \<open>PppFsm\<close>: the RFC 1661 table as data and the refinement of the handlers to it, with the cells where
    the code departs from it named. \<open>PppRun\<close>: timers and the interface; every history keeps the peer well
    formed, a silent guest is given up, a cooperating one reaches the open phase.

  \<open>Prelude\<close> holds what the components share: the word types, byte order, lists as arrays, bit masks and the
  collections of facts the proofs simplify with.

  Bounds. Depths and counts are those of the source: 33 levels of a device tree, 16 segments, 16 bytes of
  receive FIFO, 10 restarts of a PPP timer, 64 rounds of interrupt service (32 sources on each of two
  controllers). No other bound is assumed; a buffer length enters a statement only where the C code
  compares with it or where a 32-bit field has to hold it.

  Not modelled: the floating-point arithmetic (host types), the JIT and the static engine (they emit or
  run host machine code, whose semantics is not in the repository), the graphics core and the remaining
  devices (arguments of the clock model), the NAT and TCP proxy (host sockets; its input is the log of the
  PPP sink), bring-up patches and memory-disk bridges (constants of one kernel build), machine snapshots
  (they serialise devices that are not modelled), the import formats of the application, its user
  interface, and the command-line tools and tests. Telemetry counters the interpreter never reads, and
  functions that only print a name, are left out.
\<close>

end
